(* ===== verification/Prelude.thy ===== *)
theory Prelude
  imports Main "HOL-Library.Word" "HOL-Library.Multiset" "HOL-Library.Monad_Syntax"
begin

text \<open>
  Shared vocabulary of the development: the names of the byte and machine-integer types, the
  collections of rewrite rules the component theories fill, the reading of undefined behaviour
  as \<open>None\<close>, and the generic facts on lists, chains and maps the components use.

  A C object that the program only reads by address is a list: \<open>bytes\<close> for a
  pointer with a length. An operation whose C text can have undefined behaviour (a signed
  overflow, a read or write outside an object) has a result of type \<open>'a option\<close>, where
  \<open>None\<close> means that the undefined operation was reached; the absence of undefined behaviour is
  then a theorem and not an assumption.
\<close>

unbundle bit_operations_syntax

type_synonym bytes = "char list"
type_synonym u32 = "32 word"
type_synonym u64 = "64 word"

named_theorems buf_simps \<open>what a buffer append does, as equations\<close>
named_theorems reply_simps \<open>the bytes a reply function appends\<close>
named_theorems ub_free \<open>an operation is defined\<close>

section \<open>Undefined behaviour\<close>

text \<open>A checked read of an array cell: \<open>None\<close> outside the array.\<close>

definition rd :: "'a list \<Rightarrow> nat \<Rightarrow> 'a option" where
  "rd xs i = (if i < length xs then Some (xs ! i) else None)"

text \<open>A copy of \<open>n\<close> cells from index \<open>i\<close> (\<open>memcpy\<close>, \<open>memcmp\<close>): \<open>None\<close> when it leaves the array.\<close>

definition rd_span :: "'a list \<Rightarrow> nat \<Rightarrow> nat \<Rightarrow> 'a list option" where
  "rd_span xs i n = (if i + n \<le> length xs then Some (take n (drop i xs)) else None)"

lemma rd_Some [simp]: "i < length xs \<Longrightarrow> rd xs i = Some (xs ! i)"
  by (simp add: rd_def)

lemma rd_eq_Some_iff: "rd xs i = Some x \<longleftrightarrow> i < length xs \<and> xs ! i = x"
  by (auto simp: rd_def)

lemma rd_span_Some [simp]: "i + n \<le> length xs \<Longrightarrow> rd_span xs i n = Some (take n (drop i xs))"
  by (simp add: rd_span_def)

section \<open>Signed 64-bit integers\<close>

definition INT64_MAX :: int where "INT64_MAX = 2 ^ 63 - 1"
definition INT64_MIN :: int where "INT64_MIN = - (2 ^ 63)"

definition int64_ok :: "int \<Rightarrow> bool" where
  "int64_ok x \<longleftrightarrow> INT64_MIN \<le> x \<and> x \<le> INT64_MAX"

text \<open>The result of a signed 64-bit operation whose mathematical result is \<open>x\<close>.\<close>

definition i64 :: "int \<Rightarrow> int option" where
  "i64 x = (if int64_ok x then Some x else None)"

lemmas int64_defs = int64_ok_def INT64_MAX_def INT64_MIN_def

lemma i64_Some [simp]: "int64_ok x \<Longrightarrow> i64 x = Some x"
  by (simp add: i64_def)

lemma i64_eq_Some_iff: "i64 x = Some y \<longleftrightarrow> int64_ok x \<and> y = x"
  by (auto simp: i64_def)

lemma int64_ok_0 [simp]: "int64_ok 0"
  by (simp add: int64_defs)

text \<open>Storing a signed value through its 64-bit pattern and reading it back is the identity.\<close>

lemma sint_word_of_int_i64: "int64_ok x \<Longrightarrow> sint (word_of_int x :: u64) = x"
  by (simp add: int64_defs signed_of_int signed_take_bit_int_eq_self)

lemma int64_ok_sint: "int64_ok (sint (w :: u64))"
  using sint_greater_eq [of w] sint_less [of w] by (simp add: int64_defs)

section \<open>Masks\<close>

text \<open>Masking with a power of two minus one is reduction modulo that power, at any power.\<close>

lemma and_mask_mod: "unat (h AND of_nat (2 ^ k - 1) :: u64) = unat h mod 2 ^ k"
proof -
  have m: "(of_nat (2 ^ k - 1) :: u64) = mask k" by (simp add: mask_eq_exp_minus_1)
  have "unat (h AND mask k) = take_bit k (unat h)"
    by (simp only: take_bit_eq_mask [symmetric] unsigned_take_bit_eq)
  then show ?thesis by (simp only: m take_bit_eq_mod)
qed

section \<open>Lists of chains\<close>

text \<open>A hash table is a list of chains; these split its concatenation at one chain.\<close>

lemma concat_split_nth:
  "b < length bs \<Longrightarrow> concat bs = concat (take b bs) @ bs ! b @ concat (drop (Suc b) bs)"
  by (metis concat.simps(2) concat_append id_take_nth_drop)

lemma concat_list_update:
  "b < length bs \<Longrightarrow> concat (bs[b := c]) = concat (take b bs) @ c @ concat (drop (Suc b) bs)"
  by (simp add: upd_conv_take_nth_drop)

lemma concat_replicate_Nil [simp]: "concat (replicate n []) = []"
  by (induction n) auto

lemma mset_concat_list_update:
  assumes "b < length bs"
  shows "mset (concat (bs[b := c])) + mset (bs ! b) = mset (concat bs) + mset c"
  using assms by (simp add: concat_split_nth [OF assms] concat_list_update)

lemma concat_take_Nil: "(\<forall>i < n. bs ! i = []) \<Longrightarrow> n \<le> length bs \<Longrightarrow> concat (take n bs) = []"
  by (auto simp: in_set_conv_nth)

lemma concat_all_Nil: "(\<forall>i < length bs. bs ! i = []) \<Longrightarrow> concat bs = []"
  by (metis concat_take_Nil order_refl take_all)

lemma list_split_nth: "i < length xs \<Longrightarrow> xs = take i xs @ xs ! i # drop (Suc i) xs"
  by (rule id_take_nth_drop)

lemma distinct_map_mset_cong:
  "mset xs = mset ys \<Longrightarrow> distinct (map f xs) \<longleftrightarrow> distinct (map f ys)"
  by (metis mset_eq_imp_distinct_iff mset_map)

lemma drop_prefix: "drop i xs = ys @ zs \<Longrightarrow> drop (i + length ys) xs = zs"
  by (metis append_eq_conv_conj drop_drop add.commute)

end
