(* ===== verification/CLib.thy ===== *)
theory CLib
  imports Prelude "HOL-Library.While_Combinator"
begin

text \<open>
  What the program uses of the C library and of C's character and string conventions: character
  classes in the C locale, NUL-terminated strings, decimal printing (\<open>%lld\<close>, \<open>%zu\<close>),
  \<open>snprintf\<close>'s truncation, \<open>strtoll\<close> in base 10, and the doubling loop that every growable
  buffer of the program runs.
\<close>

section \<open>Characters and strings\<close>

abbreviation NUL :: char where "NUL \<equiv> CHR 0x00"
abbreviation CR :: char where "CR \<equiv> CHR 0x0D"
abbreviation LF :: char where "LF \<equiv> CHR 0x0A"
abbreviation crlf :: bytes where "crlf \<equiv> [CR, LF]"

definition isspace :: "char \<Rightarrow> bool" where
  "isspace c \<longleftrightarrow> c = CHR '' '' \<or> c = CHR 0x09 \<or> c = LF \<or> c = CHR 0x0B \<or> c = CHR 0x0C \<or> c = CR"

definition isdigit :: "char \<Rightarrow> bool" where
  "isdigit c \<longleftrightarrow> 48 \<le> (of_char c :: nat) \<and> (of_char c :: nat) \<le> 57"

definition tolower :: "char \<Rightarrow> char" where
  "tolower c = (if 65 \<le> (of_char c :: nat) \<and> (of_char c :: nat) \<le> 90
                then char_of ((of_char c :: nat) + 32) else c)"

text \<open>The contents of a NUL-terminated string stored in \<open>s\<close>; \<open>strlen\<close> is its length.\<close>

definition cstr :: "bytes \<Rightarrow> bytes" where
  "cstr s = takeWhile (\<lambda>c. c \<noteq> NUL) s"

text \<open>\<open>snprintf (buf, n, "%s", s)\<close> keeps at most \<open>n - 1\<close> characters.\<close>

definition snprintf :: "nat \<Rightarrow> bytes \<Rightarrow> bytes" where
  "snprintf n s = take (n - 1) s"

section \<open>Decimal numbers\<close>

definition digit_val :: "char \<Rightarrow> nat" where
  "digit_val c = of_char c - 48"

definition digit_char :: "nat \<Rightarrow> char" where
  "digit_char d = char_of (48 + d)"

fun show_nat :: "nat \<Rightarrow> bytes" where
  "show_nat n = (if n < 10 then [digit_char n] else show_nat (n div 10) @ [digit_char (n mod 10)])"

declare show_nat.simps [simp del]

definition show_int :: "int \<Rightarrow> bytes" where
  "show_int x = (if x < 0 then CHR ''-'' # show_nat (nat (- x)) else show_nat (nat x))"

text \<open>\<open>%zu\<close> prints a 64-bit \<open>size_t\<close>.\<close>

definition show_size :: "nat \<Rightarrow> bytes" where
  "show_size n = show_nat (n mod 2 ^ 64)"

definition dec_val :: "bytes \<Rightarrow> nat" where
  "dec_val ds = foldl (\<lambda>v c. v * 10 + digit_val c) 0 ds"

text \<open>
  \<open>strtoll (s, &end, 10)\<close>: the number, the offset of \<open>end\<close>, and whether \<open>errno\<close> became
  \<open>ERANGE\<close> (then the number is clamped). With no digits nothing is parsed and \<open>end\<close> is \<open>s\<close>.
\<close>

definition strtoll :: "bytes \<Rightarrow> int \<times> nat \<times> bool" where
  "strtoll s =
     (let ws = length (takeWhile isspace s);
          r = drop ws s;
          neg = (r \<noteq> [] \<and> hd r = CHR ''-'');
          sg = (if r \<noteq> [] \<and> (hd r = CHR ''-'' \<or> hd r = CHR ''+'') then 1 else 0);
          ds = takeWhile isdigit (drop sg r);
          x = (if neg then - int (dec_val ds) else int (dec_val ds))
      in if ds = [] then (0, 0, False)
         else if x > INT64_MAX then (INT64_MAX, ws + sg + length ds, True)
         else if x < INT64_MIN then (INT64_MIN, ws + sg + length ds, True)
         else (x, ws + sg + length ds, False))"

section \<open>The doubling loop\<close>

text \<open>\<open>while (c < need) c *= 2;\<close>, for a capacity \<open>c\<close> that is not 0.\<close>

definition double_until :: "nat \<Rightarrow> nat \<Rightarrow> nat" where
  "double_until need c = while (\<lambda>c. c < need) (\<lambda>c. c * 2) c"

section \<open>Facts\<close>

lemma isspace_simps [simp]:
  "isspace CR" "isspace LF" "\<not> isspace NUL" "\<not> isspace (CHR ''-'')" "\<not> isspace (CHR ''+'')"
  by (simp_all add: isspace_def)

lemma not_isdigit_simps [simp]:
  "\<not> isdigit CR" "\<not> isdigit LF" "\<not> isdigit NUL" "\<not> isdigit (CHR ''-'')" "\<not> isdigit (CHR ''+'')"
  by (simp_all add: isdigit_def)

lemma isdigit_not_isspace: "isdigit c \<Longrightarrow> \<not> isspace c"
  by (auto simp: isdigit_def isspace_def)

lemma cstr_id: "NUL \<notin> set s \<Longrightarrow> cstr s = s"
  by (auto simp: cstr_def intro: takeWhile_eq_all_conv [THEN iffD2])

lemma cstr_no_NUL: "NUL \<notin> set (cstr s)"
  by (auto simp: cstr_def dest: set_takeWhileD)

lemma snprintf_id: "length s < n \<Longrightarrow> snprintf n s = s"
  by (simp add: snprintf_def)

lemma digit_of_char [simp]: "d < 10 \<Longrightarrow> (of_char (digit_char d) :: nat) = 48 + d"
  by (simp add: digit_char_def)

lemma isdigit_digit_char [simp]: "d < 10 \<Longrightarrow> isdigit (digit_char d)"
  by (simp add: isdigit_def)

lemma digit_val_digit_char [simp]: "d < 10 \<Longrightarrow> digit_val (digit_char d) = d"
  by (simp add: digit_val_def)

lemma digit_char_numeral [simp]:
  "digit_char 0 = CHR ''0''" "digit_char 1 = CHR ''1''" "digit_char (Suc 0) = CHR ''1''"
  "digit_char 2 = CHR ''2''"
  "digit_char 3 = CHR ''3''" "digit_char 4 = CHR ''4''" "digit_char 5 = CHR ''5''"
  "digit_char 6 = CHR ''6''" "digit_char 7 = CHR ''7''" "digit_char 8 = CHR ''8''"
  "digit_char 9 = CHR ''9''"
  by (simp_all add: digit_char_def char_of_def bit_Suc_0_iff)

lemma dec_val_Nil [simp]: "dec_val [] = 0"
  by (simp add: dec_val_def)

lemma dec_val_snoc [simp]: "dec_val (ds @ [c]) = dec_val ds * 10 + digit_val c"
  by (simp add: dec_val_def)

lemma show_nat_digits: "list_all isdigit (show_nat n)"
  by (induction n rule: show_nat.induct) (subst show_nat.simps, simp)

lemma show_nat_isdigit: "c \<in> set (show_nat n) \<Longrightarrow> isdigit c"
  using show_nat_digits by (auto simp: list_all_iff)

lemma show_nat_nonempty [simp]: "show_nat n \<noteq> []"
  by (subst show_nat.simps) simp

lemma dec_val_show_nat [simp]: "dec_val (show_nat n) = n"
proof (induction n rule: show_nat.induct)
  case (1 n)
  show ?case
  proof (cases "n < 10")
    case True
    then show ?thesis using dec_val_snoc [of "[]" "digit_char n"]
      by (subst show_nat.simps) simp
  next
    case False
    with "1.IH" show ?thesis by (subst show_nat.simps) simp
  qed
qed

lemma length_show_nat: "n < 10 ^ Suc k \<Longrightarrow> length (show_nat n) \<le> Suc k"
proof (induction k arbitrary: n)
  case 0
  then show ?case by (subst show_nat.simps) simp
next
  case (Suc k)
  from Suc.prems have "n div 10 < 10 ^ Suc k" by (simp add: less_mult_imp_div_less)
  then have "length (show_nat (n div 10)) \<le> Suc k" by (rule Suc.IH)
  then show ?case by (subst show_nat.simps) simp
qed

lemma length_show_size: "length (show_size n) \<le> 20"
proof -
  have "n mod 2 ^ 64 < 2 ^ 64" by (rule mod_less_divisor) simp
  also have "(2 :: nat) ^ 64 < 10 ^ Suc 19" by simp
  finally show ?thesis using length_show_nat [of "n mod 2 ^ 64" 19] by (simp add: show_size_def)
qed

lemma show_size_id: "n < 2 ^ 64 \<Longrightarrow> show_size n = show_nat n"
  by (simp add: show_size_def)

lemma takeWhile_show_nat_snoc [simp]:
  "\<not> isdigit c \<Longrightarrow> takeWhile isdigit (show_nat n @ c # r) = show_nat n"
  by (simp add: takeWhile_append2 show_nat_isdigit)

lemma isdigit_hd_show_nat: "isdigit (hd (show_nat n))"
  by (rule show_nat_isdigit [OF hd_in_set]) simp

lemma show_int_nonempty [simp]: "show_int x \<noteq> []"
  by (simp add: show_int_def)

lemma length_show_int: "int64_ok x \<Longrightarrow> length (show_int x) \<le> 20"
  using length_show_nat [of "nat (- x)" 18] length_show_nat [of "nat x" 18]
  by (auto simp: show_int_def int64_defs nat_less_iff)

lemma show_int_chars: "c \<in> set (show_int x) \<Longrightarrow> isdigit c \<or> c = CHR ''-''"
  by (auto simp: show_int_def show_nat_isdigit split: if_splits)

lemma hd_show_int_not_space: "\<not> isspace (hd (show_int x))"
  by (auto simp: show_int_def isdigit_not_isspace isdigit_hd_show_nat)

text \<open>\<open>strtoll\<close> reads back what \<open>%lld\<close> printed, up to the terminator.\<close>

lemma strtoll_show_int:
  assumes "int64_ok x"
  shows "strtoll (show_int x @ [NUL]) = (x, length (show_int x), False)"
proof -
  obtain c cs where s: "show_int x = c # cs" by (cases "show_int x") auto
  from hd_show_int_not_space [of x] s have ns: "\<not> isspace c" by simp
  show ?thesis
  proof (cases "x < 0")
    case True
    with assms show ?thesis
      by (simp add: strtoll_def show_int_def Let_def int64_defs)
  next
    case False
    then have d: "isdigit (hd (show_nat (nat x)))" by (simp add: isdigit_hd_show_nat)
    from False s have e: "show_nat (nat x) = c # cs" by (simp add: show_int_def)
    with d have "c \<noteq> CHR ''-''" "c \<noteq> CHR ''+''" by auto
    moreover from e have "takeWhile isdigit (c # cs @ [NUL]) = c # cs"
      using takeWhile_show_nat_snoc [of NUL "nat x" "[]"] by simp
    moreover from e have "dec_val (c # cs) = nat x" using dec_val_show_nat [of "nat x"] by simp
    ultimately show ?thesis using assms False ns
      by (simp add: strtoll_def s Let_def int64_defs del: takeWhile.simps(2))
         (simp add: ns)
  qed
qed

lemma strtoll_in_range: "strtoll s = (v, e, r) \<Longrightarrow> int64_ok v"
  by (auto simp: strtoll_def Let_def int64_defs split: if_splits)

lemma double_until_ge: "0 < c \<Longrightarrow> need \<le> double_until need c"
  unfolding double_until_def
  by (rule while_rule [where P = "\<lambda>x. 0 < x" and r = "measure (\<lambda>x. need - x)"]) auto

lemma double_until_pow2:
  assumes "0 < c"
  shows "\<exists>j. double_until need c = c * 2 ^ j"
  unfolding double_until_def
proof (rule while_rule [where P = "\<lambda>x. 0 < x \<and> (\<exists>j. x = c * 2 ^ j)" and r = "measure (\<lambda>x. need - x)"])
  show "0 < c \<and> (\<exists>j. c = c * 2 ^ j)" using assms by (auto intro: exI [of _ 0])
next
  fix x assume "0 < x \<and> (\<exists>j. x = c * 2 ^ j)" "x < need"
  then obtain j where "0 < x" "x = c * 2 ^ j" by blast
  then show "0 < x * 2 \<and> (\<exists>j. x * 2 = c * 2 ^ j)" by (auto intro: exI [of _ "Suc j"])
qed (auto intro!: diff_less_mono2)

text \<open>The loop never overshoots: below twice what was asked for, unless it did not run.\<close>

lemma double_until_le:
  assumes "0 < c"
  shows "double_until need c = c \<or> double_until need c < 2 * need"
  unfolding double_until_def
  by (rule while_rule [where P = "\<lambda>x. 0 < x \<and> (x = c \<or> x < 2 * need)"
        and r = "measure (\<lambda>x. need - x)"]) (use assms in auto)

lemma double_until_pos: "0 < c \<Longrightarrow> 0 < double_until need c"
  using double_until_pow2 [of c need] by auto

lemma double_until_noop: "need \<le> c \<Longrightarrow> double_until need c = c"
  unfolding double_until_def by (subst while_unfold) simp

end
