(* ===== verification/Buf.thy ===== *)
theory Buf
  imports CLib
begin

text \<open>
  Growable byte buffers: the structure \<open>{data, len, cap}\<close> that \<open>resp_buf_t\<close>, \<open>dyn_buf_t\<close>, the input
  fields of \<open>conn_t\<close> and \<open>save_ctx_t\<close> share. A cell of the allocated object is \<open>None\<close> while it is
  indeterminate (fresh from \<open>malloc\<close> or \<open>realloc\<close>); copying outside the object, or copying an
  indeterminate cell out, is undefined behaviour and makes the operation \<open>None\<close>. The locales state
  what the clients of such a buffer rely on: an append-only sink of bytes, and a sink that also
  drops bytes at its front.
\<close>

record gbuf =
  gb_data :: "char option list"
  gb_len :: nat
  gb_cap :: nat

text \<open>A checked \<open>memcpy\<close> to index \<open>i\<close> of an object, and \<open>realloc\<close> to \<open>n\<close> cells.\<close>

definition wr_span :: "'a list \<Rightarrow> nat \<Rightarrow> 'a list \<Rightarrow> 'a list option" where
  "wr_span xs i ys =
     (if i + length ys \<le> length xs then Some (take i xs @ ys @ drop (i + length ys) xs) else None)"

definition realloc :: "char option list \<Rightarrow> nat \<Rightarrow> char option list" where
  "realloc d n = take n d @ replicate (n - length d) None"

text \<open>An unsigned subtraction that the code relies on not to wrap.\<close>

definition size_sub :: "nat \<Rightarrow> nat \<Rightarrow> nat option" where
  "size_sub a b = (if b \<le> a then Some (a - b) else None)"

definition gb_null :: gbuf where
  "gb_null = \<lparr>gb_data = [], gb_len = 0, gb_cap = 0\<rparr>"

text \<open>The growth step: double the capacity, or start at \<open>c0\<close>, until \<open>need\<close> fits.\<close>

definition gb_grow :: "nat \<Rightarrow> nat \<Rightarrow> gbuf \<Rightarrow> gbuf" where
  "gb_grow c0 need b =
     (let newcap = double_until need (if gb_cap b \<noteq> 0 then gb_cap b * 2 else c0)
      in b\<lparr>gb_data := realloc (gb_data b) newcap, gb_cap := newcap\<rparr>)"

text \<open>\<open>memcpy (data + len, d, n); len += n;\<close>\<close>

definition gb_put :: "gbuf \<Rightarrow> bytes \<Rightarrow> gbuf option" where
  "gb_put b d = do {
     data \<leftarrow> wr_span (gb_data b) (gb_len b) (map Some d);
     Some (b\<lparr>gb_data := data, gb_len := gb_len b + length d\<rparr>)
   }"

definition gb_append :: "nat \<Rightarrow> gbuf \<Rightarrow> bytes \<Rightarrow> gbuf option" where
  "gb_append c0 b d =
     (let b' = (if gb_len b + length d > gb_cap b then gb_grow c0 (gb_len b + length d) b else b)
      in gb_put b' d)"

text \<open>Reading \<open>n\<close> bytes from index \<open>i\<close> of the object: they must lie inside it and be initialised.\<close>

definition gb_read :: "gbuf \<Rightarrow> nat \<Rightarrow> nat \<Rightarrow> bytes option" where
  "gb_read b i n = do { cs \<leftarrow> rd_span (gb_data b) i n; those cs }"

text \<open>
  \<open>memmove (data, data + n, len - n); len -= n;\<close> and the release of a large buffer that has
  become empty.
\<close>

definition gb_consume :: "gbuf \<Rightarrow> nat \<Rightarrow> gbuf option" where
  "gb_consume b n = do {
     rest \<leftarrow> size_sub (gb_len b) n;
     moved \<leftarrow> rd_span (gb_data b) n rest;
     data \<leftarrow> wr_span (gb_data b) 0 moved;
     if rest = 0 \<and> gb_cap b > 65536 then Some \<lparr>gb_data = [], gb_len = 0, gb_cap = 0\<rparr>
     else Some (b\<lparr>gb_data := data, gb_len := rest\<rparr>)
   }"

section \<open>Well-formed buffers and their contents\<close>

definition gb_wf :: "gbuf \<Rightarrow> bool" where
  "gb_wf b \<longleftrightarrow> length (gb_data b) = gb_cap b \<and> gb_len b \<le> gb_cap b \<and>
     (\<exists>bs. take (gb_len b) (gb_data b) = map Some bs)"

definition gb_bytes :: "gbuf \<Rightarrow> bytes" where
  "gb_bytes b = map the (take (gb_len b) (gb_data b))"

lemma gb_null_wf [simp]: "gb_wf gb_null" and gb_null_bytes [simp]: "gb_bytes gb_null = []"
  by (simp_all add: gb_wf_def gb_bytes_def gb_null_def)

lemma gb_wf_split:
  assumes "gb_wf b"
  shows "\<exists>tail. gb_data b = map Some (gb_bytes b) @ tail \<and> gb_len b = length (gb_bytes b) \<and>
    gb_cap b = length (gb_bytes b) + length tail"
proof -
  from assms obtain bs where bs: "take (gb_len b) (gb_data b) = map Some bs"
    and l: "length (gb_data b) = gb_cap b" "gb_len b \<le> gb_cap b"
    by (auto simp: gb_wf_def)
  then have e: "gb_bytes b = bs" by (simp add: gb_bytes_def o_def)
  have "gb_data b = map Some bs @ drop (gb_len b) (gb_data b)" using bs by (metis append_take_drop_id)
  moreover have "gb_len b = length bs" using bs l by (metis length_map length_take min.absorb2)
  ultimately show ?thesis using e l by (intro exI [of _ "drop (gb_len b) (gb_data b)"]) simp
qed

lemma gb_wfI:
  assumes "gb_data b = map Some bs @ tail" and "gb_len b = length bs" and "gb_cap b = length bs + length tail"
  shows "gb_wf b \<and> gb_bytes b = bs"
  using assms by (auto simp: gb_wf_def gb_bytes_def o_def)

lemma gb_len_bytes: "gb_wf b \<Longrightarrow> gb_len b = length (gb_bytes b)"
  using gb_wf_split by blast

lemma gb_grow_wf:
  assumes "gb_wf b" and "0 < c0" and "gb_cap b \<le> need"
  shows "gb_wf (gb_grow c0 need b) \<and> gb_bytes (gb_grow c0 need b) = gb_bytes b \<and>
    need \<le> gb_cap (gb_grow c0 need b)"
proof -
  from gb_wf_split [OF assms(1)] obtain tail where b: "gb_data b = map Some (gb_bytes b) @ tail"
    "gb_len b = length (gb_bytes b)" "gb_cap b = length (gb_bytes b) + length tail" by blast
  let ?n = "double_until need (if gb_cap b \<noteq> 0 then gb_cap b * 2 else c0)"
  have n: "need \<le> ?n" using assms(2) by (intro double_until_ge) auto
  with assms(3) b(3) have "realloc (gb_data b) ?n =
      map Some (gb_bytes b) @ (tail @ replicate (?n - gb_cap b) None)"
    by (simp add: realloc_def b(1))
  with b assms(3) n have "gb_wf (gb_grow c0 need b) \<and> gb_bytes (gb_grow c0 need b) = gb_bytes b"
    by (intro gb_wfI [where tail = "tail @ replicate (?n - gb_cap b) None"]) (simp_all add: gb_grow_def Let_def)
  with n show ?thesis by (simp add: gb_grow_def Let_def)
qed

lemma gb_put_ok:
  assumes "gb_wf b" and "gb_len b + length d \<le> gb_cap b"
  shows "\<exists>b'. gb_put b d = Some b' \<and> gb_wf b' \<and> gb_bytes b' = gb_bytes b @ d"
proof -
  from gb_wf_split [OF assms(1)] obtain tail where b: "gb_data b = map Some (gb_bytes b) @ tail"
    "gb_len b = length (gb_bytes b)" "gb_cap b = length (gb_bytes b) + length tail" by blast
  let ?b = "b\<lparr>gb_data := map Some (gb_bytes b @ d) @ drop (length d) tail, gb_len := gb_len b + length d\<rparr>"
  have "gb_put b d = Some ?b"
    using b(2,3) assms(2) by (simp add: gb_put_def wr_span_def b(1))
  moreover have "gb_wf ?b \<and> gb_bytes ?b = gb_bytes b @ d"
    by (rule gb_wfI) (use b assms(2) in auto)
  ultimately show ?thesis by blast
qed

lemma gb_append_ok:
  assumes "gb_wf b" and "0 < c0"
  shows "\<exists>b'. gb_append c0 b d = Some b' \<and> gb_wf b' \<and> gb_bytes b' = gb_bytes b @ d"
proof (cases "gb_len b + length d > gb_cap b")
  case True
  then have g: "gb_wf (gb_grow c0 (gb_len b + length d) b)"
      "gb_bytes (gb_grow c0 (gb_len b + length d) b) = gb_bytes b"
      "gb_len b + length d \<le> gb_cap (gb_grow c0 (gb_len b + length d) b)"
    using gb_grow_wf [OF assms, of "gb_len b + length d"] by auto
  then have "gb_len (gb_grow c0 (gb_len b + length d) b) = gb_len b"
    using gb_len_bytes [OF assms(1)] gb_len_bytes [OF g(1)] by simp
  with g gb_put_ok [OF g(1), of d] True show ?thesis by (simp add: gb_append_def)
next
  case False
  with gb_put_ok [OF assms(1), of d] show ?thesis by (simp add: gb_append_def)
qed

lemma those_map_Some: "those (map Some xs) = Some xs"
  by (induction xs) simp_all

lemma gb_read_ok:
  assumes "gb_wf b" and "i + n \<le> length (gb_bytes b)"
  shows "gb_read b i n = Some (take n (drop i (gb_bytes b)))"
proof -
  from gb_wf_split [OF assms(1)] obtain tail where "gb_data b = map Some (gb_bytes b) @ tail" by blast
  with assms(2) have "rd_span (gb_data b) i n = Some (map Some (take n (drop i (gb_bytes b))))"
    by (simp add: rd_span_def drop_map take_map)
  then show ?thesis by (simp add: gb_read_def those_map_Some)
qed

lemma gb_consume_ok:
  assumes "gb_wf b" and "n \<le> length (gb_bytes b)"
  shows "\<exists>b'. gb_consume b n = Some b' \<and> gb_wf b' \<and> gb_bytes b' = drop n (gb_bytes b)"
proof -
  from gb_wf_split [OF assms(1)] obtain tail where b: "gb_data b = map Some (gb_bytes b) @ tail"
    "gb_len b = length (gb_bytes b)" "gb_cap b = length (gb_bytes b) + length tail" by blast
  let ?k = "length (gb_bytes b) - n"
  let ?d = "map Some (drop n (gb_bytes b)) @ drop ?k (gb_data b)"
  have m: "rd_span (gb_data b) n ?k = Some (map Some (drop n (gb_bytes b)))"
    using assms(2) by (simp add: rd_span_def b(1) drop_map)
  have w: "wr_span (gb_data b) 0 (map Some (drop n (gb_bytes b))) = Some ?d"
    using assms(2) by (simp add: wr_span_def b(1))
  have "gb_wf (b\<lparr>gb_data := ?d, gb_len := ?k\<rparr>) \<and> gb_bytes (b\<lparr>gb_data := ?d, gb_len := ?k\<rparr>) = drop n (gb_bytes b)"
    by (rule gb_wfI) (use b assms(2) in auto)
  moreover have "gb_wf \<lparr>gb_data = [], gb_len = 0, gb_cap = 0\<rparr>"
    "gb_bytes \<lparr>gb_data = [], gb_len = 0, gb_cap = 0\<rparr> = []"
    using gb_null_wf gb_null_bytes by (simp_all add: gb_null_def)
  ultimately show ?thesis
    using assms(2) b(2) m w by (auto simp: gb_consume_def size_sub_def)
qed

text \<open>
  Growth is amortised: a buffer that has to grow gets a capacity below twice the bytes it then
  holds, unless that is the starting capacity.
\<close>

lemma gb_grow_cap:
  assumes "0 < c0" and "gb_cap b < need"
  shows "gb_cap (gb_grow c0 need b) = c0 \<or> gb_cap (gb_grow c0 need b) < 2 * need"
  using double_until_le [of "if gb_cap b \<noteq> 0 then gb_cap b * 2 else c0" need] assms
  by (auto simp: gb_grow_def Let_def split: if_splits)

section \<open>What clients rely on\<close>

text \<open>\<open>appends f w\<close>: on a well-formed buffer \<open>f\<close> is defined and appends exactly the bytes \<open>w\<close>.\<close>

definition appends :: "(gbuf \<Rightarrow> gbuf option) \<Rightarrow> bytes \<Rightarrow> bool" where
  "appends f w \<longleftrightarrow> (\<forall>b. gb_wf b \<longrightarrow> (\<exists>b'. f b = Some b' \<and> gb_wf b' \<and> gb_bytes b' = gb_bytes b @ w))"

lemma appends_gb_append: "0 < c0 \<Longrightarrow> appends (\<lambda>b. gb_append c0 b d) d"
  by (simp add: appends_def gb_append_ok)

lemma appends_comp:
  assumes "appends f u" and "appends g v"
  shows "appends (\<lambda>b. f b \<bind> g) (u @ v)"
  using assms by (fastforce simp: appends_def)

lemma appends_none: "appends Some []"
  by (simp add: appends_def)

lemma appendsE:
  assumes "appends f w" and "gb_wf b"
  obtains b' where "f b = Some b'" and "gb_wf b'" and "gb_bytes b' = gb_bytes b @ w"
  using assms by (auto simp: appends_def)

locale byte_sink =
  fixes wf :: "'b \<Rightarrow> bool" and contents :: "'b \<Rightarrow> bytes" and append :: "'b \<Rightarrow> bytes \<Rightarrow> 'b option"
  assumes append_law:
    "wf b \<Longrightarrow> \<exists>b'. append b d = Some b' \<and> wf b' \<and> contents b' = contents b @ d"
begin

text \<open>Any sequence of appends is defined and leaves the concatenation.\<close>

fun append_all :: "'b \<Rightarrow> bytes list \<Rightarrow> 'b option" where
  "append_all b [] = Some b"
| "append_all b (d # ds) = append b d \<bind> (\<lambda>b'. append_all b' ds)"

lemma append_all_ok:
  assumes "wf b"
  shows "\<exists>b'. append_all b ds = Some b' \<and> wf b' \<and> contents b' = contents b @ concat ds"
  using assms
proof (induction ds arbitrary: b)
  case Nil
  then show ?case by simp
next
  case (Cons d ds)
  from append_law [OF Cons.prems, of d] obtain b' where
    b': "append b d = Some b'" "wf b'" "contents b' = contents b @ d" by blast
  from Cons.IH [OF b'(2)] b' show ?case by auto
qed

end

locale byte_fifo = byte_sink wf contents append
  for wf :: "'b \<Rightarrow> bool" and contents :: "'b \<Rightarrow> bytes" and append :: "'b \<Rightarrow> bytes \<Rightarrow> 'b option" +
  fixes consume :: "'b \<Rightarrow> nat \<Rightarrow> 'b option"
  assumes consume_law:
    "wf b \<Longrightarrow> n \<le> length (contents b) \<Longrightarrow>
       \<exists>b'. consume b n = Some b' \<and> wf b' \<and> contents b' = drop n (contents b)"
begin

text \<open>Bytes come out in the order they went in: dropping what was there leaves the appended bytes.\<close>

lemma append_consume:
  assumes "wf b"
  shows "\<exists>b'. append b d \<bind> (\<lambda>b1. consume b1 (length (contents b))) = Some b' \<and> wf b' \<and> contents b' = d"
proof -
  from append_law [OF assms, of d] obtain b1 where
    b1: "append b d = Some b1" "wf b1" "contents b1 = contents b @ d" by blast
  from consume_law [OF b1(2), of "length (contents b)"] b1 show ?thesis by auto
qed

end

end
