(* ===== verification/Resp.thy ===== *)
theory Resp
  imports Buf
begin

text \<open>
  The wire protocol (\<open>src/resp.c\<close>, \<open>include/resp.h\<close>): the incremental request parser and the reply
  serializer. The parser's result is \<open>None\<close> only for undefined behaviour: a read outside
  \<open>buf[0..buf_len)\<close>, a length computation that would wrap, or a signed overflow. The allocations
  whose failure the parser handles ask the oracle \<open>mem\<close>, the i-th request of a call being \<open>mem i\<close>.
\<close>

definition RESP_MAX_ARGC :: int where "RESP_MAX_ARGC = 1024 * 1024"
definition RESP_MAX_BULK_LEN :: int where "RESP_MAX_BULK_LEN = 512 * 1024 * 1024"
definition RESP_MAX_INLINE_LEN :: nat where "RESP_MAX_INLINE_LEN = 65536"

lemmas resp_limits = RESP_MAX_ARGC_def RESP_MAX_BULK_LEN_def RESP_MAX_INLINE_LEN_def

text \<open>
  The outcome of a parse: the arguments and the number of bytes consumed, a request for more bytes,
  or the text of a protocol error (no caller reads the other outputs after an error).
\<close>

datatype resp_status =
    RESP_PARSE_OK "bytes list" nat
  | RESP_PARSE_INCOMPLETE
  | RESP_PARSE_ERROR bytes

section \<open>Small helpers\<close>

text \<open>The search for CR LF from \<open>from\<close>; \<open>None\<close> is the code's -1.\<close>

function crlf_scan :: "bytes \<Rightarrow> nat \<Rightarrow> nat option" where
  "crlf_scan buf i =
     (if i + 1 < length buf then
        if buf ! i = CR \<and> buf ! (i + 1) = LF then Some i else crlf_scan buf (i + 1)
      else None)"
  by pat_completeness auto
termination by (relation "measure (\<lambda>(buf, i). length buf - i)") auto

declare crlf_scan.simps [simp del]

definition find_crlf :: "bytes \<Rightarrow> nat \<Rightarrow> nat option" where
  "find_crlf buf from = (if from \<ge> length buf then None else crlf_scan buf from)"

text \<open>
  \<open>parse_ll\<close>: the outer option is undefined behaviour (signed overflow), the inner one is the
  return value 0.
\<close>

fun parse_ll_digits :: "int \<Rightarrow> bytes \<Rightarrow> int option option" where
  "parse_ll_digits v [] = Some (Some v)"
| "parse_ll_digits v (c # cs) =
     (if \<not> isdigit c then Some None
      else do {
        v10 \<leftarrow> i64 (v * 10);
        v' \<leftarrow> i64 (v10 + int (digit_val c));
        if v' > RESP_MAX_BULK_LEN * 2 then Some None else parse_ll_digits v' cs
      })"

definition parse_ll :: "bytes \<Rightarrow> int option option" where
  "parse_ll s =
     (if s = [] then Some None
      else if hd s = CHR ''-'' then
        (if length s = 1 then Some None
         else do {
           r \<leftarrow> parse_ll_digits 0 (tl s);
           (case r of None \<Rightarrow> Some None | Some v \<Rightarrow> map_option Some (i64 (- v)))
         })
      else parse_ll_digits 0 s)"

section \<open>Multibulk requests\<close>

text \<open>
  The loop over the arguments: \<open>left\<close> of them remain, \<open>pos\<close> is the read position, \<open>m\<close> the number of
  allocations made so far and \<open>argv\<close> the arguments filled in.
\<close>

primrec parse_bulks ::
    "(nat \<Rightarrow> bool) \<Rightarrow> bytes \<Rightarrow> nat \<Rightarrow> nat \<Rightarrow> nat \<Rightarrow> bytes list \<Rightarrow> resp_status option" where
  "parse_bulks mem buf 0 pos m argv = Some (RESP_PARSE_OK argv pos)"
| "parse_bulks mem buf (Suc left) pos m argv =
     (case find_crlf buf pos of
        None \<Rightarrow> do {
          rest \<leftarrow> size_sub (length buf) pos;
          if rest > RESP_MAX_INLINE_LEN
          then Some (RESP_PARSE_ERROR ''ERR Protocol error: too big bulk count string'')
          else Some RESP_PARSE_INCOMPLETE
        }
      | Some hdr_end \<Rightarrow> do {
          c \<leftarrow> rd buf pos;
          if c \<noteq> CHR ''$'' then Some (RESP_PARSE_ERROR ''ERR Protocol error: expected '$', got something else'')
          else do {
            hlen \<leftarrow> size_sub hdr_end (pos + 1);
            hdr \<leftarrow> rd_span buf (pos + 1) hlen;
            r \<leftarrow> parse_ll hdr;
            (case r of
               None \<Rightarrow> Some (RESP_PARSE_ERROR ''ERR Protocol error: invalid bulk length'')
             | Some blen \<Rightarrow>
                 if blen < 0 \<or> blen > RESP_MAX_BULK_LEN
                 then Some (RESP_PARSE_ERROR ''ERR Protocol error: invalid bulk length'')
                 else
                   (let body = hdr_end + 2; n = nat blen in
                    if length buf < body + n + 2 then Some RESP_PARSE_INCOMPLETE
                    else do {
                      c0 \<leftarrow> rd buf (body + n);
                      c1 \<leftarrow> rd buf (body + n + 1);
                      if c0 \<noteq> CR \<or> c1 \<noteq> LF
                      then Some (RESP_PARSE_ERROR ''ERR Protocol error: expected CRLF after bulk string body'')
                      else if \<not> mem m then Some (RESP_PARSE_ERROR ''ERR out of memory'')
                      else do {
                        data \<leftarrow> rd_span buf body n;
                        parse_bulks mem buf left (body + n + 2) (m + 1) (argv @ [data])
                      }
                    }))
          }
        })"

declare parse_bulks.simps(2) [simp del]

definition parse_multibulk :: "(nat \<Rightarrow> bool) \<Rightarrow> bytes \<Rightarrow> resp_status option" where
  "parse_multibulk mem buf =
     (case find_crlf buf 0 of
        None \<Rightarrow>
          if length buf > RESP_MAX_INLINE_LEN
          then Some (RESP_PARSE_ERROR ''ERR Protocol error: too big mbulk count string'')
          else Some RESP_PARSE_INCOMPLETE
      | Some line_end \<Rightarrow> do {
          hlen \<leftarrow> size_sub line_end 1;
          hdr \<leftarrow> rd_span buf 1 hlen;
          r \<leftarrow> parse_ll hdr;
          (case r of
             None \<Rightarrow> Some (RESP_PARSE_ERROR ''ERR Protocol error: invalid multibulk length'')
           | Some argc \<Rightarrow>
               if argc \<le> 0 \<or> argc > RESP_MAX_ARGC
               then Some (RESP_PARSE_ERROR ''ERR Protocol error: invalid multibulk length'')
               else if \<not> mem 0 then Some (RESP_PARSE_ERROR ''ERR out of memory'')
               else parse_bulks mem buf (nat argc) (line_end + 2) 1 [])
        })"

section \<open>Inline requests\<close>

text \<open>The two \<open>while\<close> loops over a run of characters: from \<open>p\<close> to the first position that stops.\<close>

function scan_while :: "(char \<Rightarrow> bool) \<Rightarrow> bytes \<Rightarrow> nat \<Rightarrow> nat \<Rightarrow> nat" where
  "scan_while P buf n p = (if p < n \<and> P (buf ! p) then scan_while P buf n (p + 1) else p)"
  by pat_completeness auto
termination by (relation "measure (\<lambda>(P, buf, n, p). n - p)") auto

declare scan_while.simps [simp del]

lemma scan_while_ge: "p \<le> scan_while P buf n p"
  by (induction P buf n p rule: scan_while.induct) (subst scan_while.simps, auto)

lemma scan_while_le: "p \<le> n \<Longrightarrow> scan_while P buf n p \<le> n"
  by (induction P buf n p rule: scan_while.induct) (subst scan_while.simps, auto)

lemma scan_while_stop: "scan_while P buf n p < n \<Longrightarrow> \<not> P (buf ! scan_while P buf n p)"
proof (induction P buf n p rule: scan_while.induct)
  case (1 P buf n p)
  show ?case
  proof (cases "p < n \<and> P (buf ! p)")
    case True
    then have "scan_while P buf n p = scan_while P buf n (p + 1)" by (subst scan_while.simps) simp
    with 1 True show ?thesis by simp
  next
    case False
    then have "scan_while P buf n p = p" by (subst scan_while.simps) auto
    with False 1(2) show ?thesis by auto
  qed
qed

lemma token_progress:
  assumes "scan_while P buf n p < n"
  shows "p < scan_while (\<lambda>c. \<not> P c) buf n (scan_while P buf n p)"
proof -
  let ?s = "scan_while P buf n p"
  have "scan_while (\<lambda>c. \<not> P c) buf n ?s = scan_while (\<lambda>c. \<not> P c) buf n (?s + 1)"
    using scan_while_stop [OF assms] assms by (subst scan_while.simps) simp
  then show ?thesis using scan_while_ge [of p P buf n] scan_while_ge [of "?s + 1" "\<lambda>c. \<not> P c" buf n] by simp
qed

text \<open>
  The tokenizer: \<open>cap\<close> is the capacity of \<open>argv\<close>, doubled when it is full (one more allocation). The
  reads stay below \<open>line_len\<close>; a copy of a token is checked.
\<close>

function tokenize ::
    "(nat \<Rightarrow> bool) \<Rightarrow> bytes \<Rightarrow> nat \<Rightarrow> nat \<Rightarrow> nat \<Rightarrow> nat \<Rightarrow> bytes list \<Rightarrow> (bytes list option) option" where
  "tokenize mem buf line_len p cap m argv =
     (if p < line_len then
        (let start = scan_while isspace buf line_len p in
         if start \<ge> line_len then Some (Some argv)
         else
           (let p' = scan_while (\<lambda>c. \<not> isspace c) buf line_len start;
                tok_len = p' - start;
                full = (length argv = cap);
                cap' = (if full then cap * 2 else cap);
                m' = (if full then m + 1 else m)
            in if full \<and> \<not> mem m then Some None
               else if \<not> mem m' then Some None
               else do {
                 data \<leftarrow> rd_span buf start tok_len;
                 tokenize mem buf line_len p' cap' (m' + 1) (argv @ [data])
               }))
      else Some (Some argv))"
  by pat_completeness auto
termination
proof (relation "measure (\<lambda>(mem, buf, line_len, p, cap, m, argv). line_len - p)", goal_cases)
  case 1
  show ?case by simp
next
  case (2 mem buf line_len p cap m argv start p' tok_len full cap' m' data)
  then show ?case using token_progress [of isspace buf line_len p] by simp
qed

declare tokenize.simps [simp del]

definition parse_inline :: "(nat \<Rightarrow> bool) \<Rightarrow> bytes \<Rightarrow> resp_status option" where
  "parse_inline mem buf =
     (let i = scan_while (\<lambda>c. c \<noteq> LF) buf (length buf) 0 in
      if i \<ge> length buf then
        (if length buf > RESP_MAX_INLINE_LEN
         then Some (RESP_PARSE_ERROR ''ERR Protocol error: too big inline request'')
         else Some RESP_PARSE_INCOMPLETE)
      else
        (let line_len = (if i > 0 \<and> buf ! (i - 1) = CR then i - 1 else i);
             consumed = i + 1
         in if \<not> mem 0 then Some (RESP_PARSE_ERROR ''ERR out of memory'')
            else do {
              r \<leftarrow> tokenize mem buf line_len 0 8 1 [];
              (case r of
                 None \<Rightarrow> Some (RESP_PARSE_ERROR ''ERR out of memory'')
               | Some argv \<Rightarrow> Some (RESP_PARSE_OK argv consumed))
            }))"

definition resp_parse :: "(nat \<Rightarrow> bool) \<Rightarrow> bytes \<Rightarrow> resp_status option" where
  "resp_parse mem buf =
     (if buf = [] then Some RESP_PARSE_INCOMPLETE
      else if hd buf = CHR ''*'' then parse_multibulk mem buf
      else parse_inline mem buf)"

text \<open>The blocks handed to \<open>free\<close>, and the command afterwards.\<close>

definition resp_command_free :: "bytes list \<Rightarrow> bytes list \<times> bytes list" where
  "resp_command_free argv = (if argv = [] then ([], argv) else (argv, []))"

section \<open>Replies\<close>

definition resp_buf_init :: gbuf where
  "resp_buf_init = \<lparr>gb_data = [], gb_len = 0, gb_cap = 0\<rparr>"

definition resp_buf_free :: "gbuf \<Rightarrow> gbuf" where
  "resp_buf_free b = b\<lparr>gb_data := [], gb_len := 0, gb_cap := 0\<rparr>"

definition resp_buf_ensure :: "gbuf \<Rightarrow> nat \<Rightarrow> gbuf" where
  "resp_buf_ensure b extra =
     (if gb_len b + extra \<le> gb_cap b then b else gb_grow 64 (gb_len b + extra) b)"

definition resp_buf_append :: "gbuf \<Rightarrow> bytes \<Rightarrow> gbuf option" where
  "resp_buf_append b d = gb_put (resp_buf_ensure b (length d)) d"

text \<open>A NUL-terminated argument \<open>s\<close> contributes its \<open>strlen\<close> first bytes.\<close>

definition resp_reply_simple_string :: "bytes \<Rightarrow> gbuf \<Rightarrow> gbuf option" where
  "resp_reply_simple_string s b = do {
     b \<leftarrow> resp_buf_append b ''+'';
     b \<leftarrow> resp_buf_append b (cstr s);
     resp_buf_append b crlf
   }"

definition resp_reply_error :: "bytes \<Rightarrow> gbuf \<Rightarrow> gbuf option" where
  "resp_reply_error s b = do {
     b \<leftarrow> resp_buf_append b ''-'';
     b \<leftarrow> resp_buf_append b (cstr s);
     resp_buf_append b crlf
   }"

text \<open>
  \<open>snprintf\<close> into \<open>char tmp[32]\<close> returns the length of the untruncated text, which the code then
  copies out of \<open>tmp\<close>: more than 32 bytes would be a read past the array.
\<close>

definition snprintf_copy :: "nat \<Rightarrow> bytes \<Rightarrow> bytes option" where
  "snprintf_copy n s = rd_span (snprintf n s @ [NUL]) 0 (length s)"

definition resp_reply_integer :: "int \<Rightarrow> gbuf \<Rightarrow> gbuf option" where
  "resp_reply_integer v b = do {
     tmp \<leftarrow> snprintf_copy 32 ('':'' @ show_int v @ crlf);
     resp_buf_append b tmp
   }"

definition resp_reply_bulk_string :: "bytes \<Rightarrow> gbuf \<Rightarrow> gbuf option" where
  "resp_reply_bulk_string s b = do {
     hdr \<leftarrow> snprintf_copy 32 (''$'' @ show_size (length s) @ crlf);
     b \<leftarrow> resp_buf_append b hdr;
     b \<leftarrow> resp_buf_append b s;
     resp_buf_append b crlf
   }"

definition resp_reply_null_bulk :: "gbuf \<Rightarrow> gbuf option" where
  "resp_reply_null_bulk b = resp_buf_append b (''$-1'' @ crlf)"

definition resp_reply_array_header :: "nat \<Rightarrow> gbuf \<Rightarrow> gbuf option" where
  "resp_reply_array_header n b = do {
     hdr \<leftarrow> snprintf_copy 32 (''*'' @ show_size n @ crlf);
     resp_buf_append b hdr
   }"

definition resp_reply_null_array :: "gbuf \<Rightarrow> gbuf option" where
  "resp_reply_null_array b = resp_buf_append b (''*-1'' @ crlf)"

section \<open>The serializer appends exactly the encoding\<close>

text \<open>Replies as a client sees them, and their encoding.\<close>

datatype reply =
    Simple bytes
  | Err bytes
  | Integer int
  | Bulk bytes
  | Null_Bulk
  | Array "reply list"
  | Null_Array

fun enc_reply :: "reply \<Rightarrow> bytes" where
  "enc_reply (Simple s) = ''+'' @ s @ crlf"
| "enc_reply (Err s) = ''-'' @ s @ crlf"
| "enc_reply (Integer v) = '':'' @ show_int v @ crlf"
| "enc_reply (Bulk s) = ''$'' @ show_size (length s) @ crlf @ s @ crlf"
| "enc_reply Null_Bulk = ''$-1'' @ crlf"
| "enc_reply (Array rs) = ''*'' @ show_size (length rs) @ crlf @ concat (map enc_reply rs)"
| "enc_reply Null_Array = ''*-1'' @ crlf"

lemma resp_buf_append_gb: "resp_buf_append b d = gb_append 64 b d"
  by (simp add: resp_buf_append_def resp_buf_ensure_def gb_append_def)

interpretation rb: byte_sink gb_wf gb_bytes resp_buf_append
  by unfold_locales (simp add: resp_buf_append_gb gb_append_ok)

lemma appends_resp_buf [reply_simps]: "appends (\<lambda>b. resp_buf_append b d) d"
  unfolding appends_def using rb.append_law by blast

lemma snprintf_copy_id: "length s < n \<Longrightarrow> snprintf_copy n s = Some s"
  by (simp add: snprintf_copy_def snprintf_id)

lemma appends_simple_string [reply_simps]:
  "appends (resp_reply_simple_string s) (enc_reply (Simple (cstr s)))"
  unfolding resp_reply_simple_string_def enc_reply.simps
  by (intro appends_comp appends_resp_buf)

lemma appends_error [reply_simps]: "appends (resp_reply_error s) (enc_reply (Err (cstr s)))"
  unfolding resp_reply_error_def enc_reply.simps
  by (intro appends_comp appends_resp_buf)

lemma appends_integer [reply_simps]:
  assumes "int64_ok v"
  shows "appends (resp_reply_integer v) (enc_reply (Integer v))"
proof -
  have "snprintf_copy 32 ('':'' @ show_int v @ crlf) = Some (enc_reply (Integer v))"
    using length_show_int [OF assms] by (simp add: snprintf_copy_id)
  then show ?thesis using appends_resp_buf by (simp add: resp_reply_integer_def [abs_def])
qed

lemma appends_array_header [reply_simps]:
  "appends (resp_reply_array_header n) (''*'' @ show_size n @ crlf)"
proof -
  have "snprintf_copy 32 (''*'' @ show_size n @ crlf) = Some (''*'' @ show_size n @ crlf)"
    using length_show_size [of n] by (simp add: snprintf_copy_id)
  then show ?thesis using appends_resp_buf by (simp add: resp_reply_array_header_def [abs_def])
qed

lemma appends_bulk_string [reply_simps]: "appends (resp_reply_bulk_string s) (enc_reply (Bulk s))"
proof -
  have h: "snprintf_copy 32 (''$'' @ show_size (length s) @ crlf) = Some (''$'' @ show_size (length s) @ crlf)"
    using length_show_size [of "length s"] by (simp add: snprintf_copy_id)
  have "appends (\<lambda>b. resp_buf_append b (''$'' @ show_size (length s) @ crlf) \<bind>
      (\<lambda>b. resp_buf_append b s \<bind> (\<lambda>b. resp_buf_append b crlf)))
      ((''$'' @ show_size (length s) @ crlf) @ s @ crlf)"
    by (intro appends_comp appends_resp_buf)
  then show ?thesis using h by (simp add: resp_reply_bulk_string_def [abs_def])
qed

lemma appends_null_bulk [reply_simps]: "appends resp_reply_null_bulk (enc_reply Null_Bulk)"
  and appends_null_array [reply_simps]: "appends resp_reply_null_array (enc_reply Null_Array)"
  by (simp_all only: resp_reply_null_bulk_def [abs_def] resp_reply_null_array_def [abs_def]
      enc_reply.simps appends_resp_buf)

section \<open>Replies are self-delimiting\<close>

text \<open>A reply the protocol can frame: no CR in a line, lengths and integers of their C types.\<close>

fun reply_ok :: "reply \<Rightarrow> bool" where
  "reply_ok (Simple s) \<longleftrightarrow> CR \<notin> set s"
| "reply_ok (Err s) \<longleftrightarrow> CR \<notin> set s"
| "reply_ok (Bulk s) \<longleftrightarrow> length s < 2 ^ 64"
| "reply_ok (Array rs) \<longleftrightarrow> length rs < 2 ^ 64 \<and> list_all reply_ok rs"
| "reply_ok _ \<longleftrightarrow> True"

lemma line_unique:
  assumes "u @ CR # x = v @ CR # y" and "CR \<notin> set u" and "CR \<notin> set v"
  shows "u = v \<and> x = y"
proof -
  have "takeWhile (\<lambda>c. c \<noteq> CR) (w @ CR # z) = w" if "CR \<notin> set w" for w z
    using that by (induction w) auto
  with assms show ?thesis by (metis append_Cons list.inject same_append_eq)
qed

lemma CR_notin_show_nat [simp]: "CR \<notin> set (show_nat n)"
  using show_nat_isdigit [of CR n] by auto

lemma CR_notin_show_size [simp]: "CR \<notin> set (show_size n)"
  by (simp add: show_size_def)

lemma CR_notin_show_int [simp]: "CR \<notin> set (show_int x)"
  using show_int_chars [of CR x] by auto

lemma show_nat_inject [simp]: "show_nat m = show_nat n \<longleftrightarrow> m = n"
  by (metis dec_val_show_nat)

lemma show_nat_not_minus: "show_nat n \<noteq> CHR ''-'' # r"
  using isdigit_hd_show_nat [of n] by auto

lemma show_nat_append_not_minus [simp]: "show_nat n @ z \<noteq> CHR ''-'' # r"
  using isdigit_hd_show_nat [of n] by (cases "show_nat n") auto

lemmas minus_not_show_nat_append [simp] = show_nat_append_not_minus [symmetric]

lemma show_int_inject [simp]: "show_int x = show_int y \<longleftrightarrow> x = y"
  using show_nat_not_minus [of "nat x"] show_nat_not_minus [of "nat y"]
  by (auto simp: show_int_def dest: sym)

lemma enc_reply_nonempty [simp]: "enc_reply r \<noteq> []"
  by (cases r) auto

lemma concat_unique:
  assumes "\<And>r r' x y. r \<in> set rs \<Longrightarrow> P r' \<Longrightarrow> f r @ x = f r' @ y \<Longrightarrow> r = r' \<and> x = y"
    and "length rs = length rs'" and "list_all P rs'"
    and "concat (map f rs) @ x = concat (map f rs') @ y"
  shows "rs = rs' \<and> x = y"
  using assms(2,1,3,4)
proof (induction rs rs' rule: list_induct2)
  case Nil
  then show ?case by simp
next
  case (Cons r rs r' rs')
  have "r = r' \<and> concat (map f rs) @ x = concat (map f rs') @ y"
    using Cons.prems(1) [of r r' "concat (map f rs) @ x" "concat (map f rs') @ y"] Cons.prems(2,3) by simp
  moreover from this have "rs = rs' \<and> x = y"
    by (intro Cons.IH) (use Cons.prems(1,2) in auto)
  ultimately show ?case by simp
qed

text \<open>Two replies with a common start are the same reply: no reply is a proper prefix of another.\<close>

lemma enc_reply_unique:
  assumes "reply_ok r" and "reply_ok r'" and "enc_reply r @ x = enc_reply r' @ y"
  shows "r = r' \<and> x = y"
  using assms
proof (induction r arbitrary: r' x y)
  case (Simple s)
  then show ?case by (cases r') (auto dest: line_unique)
next
  case (Err s)
  then show ?case by (cases r') (auto dest: line_unique)
next
  case (Integer v)
  then show ?case by (cases r') (auto dest: line_unique)
next
  case (Bulk s)
  then show ?case by (cases r') (auto simp: show_size_id dest!: line_unique [of "show_nat (length s)"])
next
  case Null_Bulk
  then show ?case by (cases r') (auto simp: show_size_id)
next
  case (Array rs)
  show ?case
  proof (cases r')
    case (Array rs')
    with Array.prems have "length rs = length rs' \<and> concat (map enc_reply rs) @ x = concat (map enc_reply rs') @ y"
      by (auto simp: show_size_id dest!: line_unique [of "show_nat (length rs)"])
    with Array.IH Array.prems(1,2) Array show ?thesis
      using concat_unique [of rs reply_ok enc_reply rs' x y] by (auto simp: list_all_iff)
  qed (use Array.prems in \<open>auto simp: show_size_id\<close>)
next
  case Null_Array
  then show ?case by (cases r') (auto simp: show_size_id)
qed

section \<open>The search for a line end\<close>

lemma crlf_scan_Some:
  assumes "crlf_scan buf i = Some j"
  shows "i \<le> j \<and> j + 1 < length buf \<and> buf ! j = CR \<and> buf ! (j + 1) = LF \<and>
    (\<forall>k. i \<le> k \<and> k < j \<longrightarrow> \<not> (buf ! k = CR \<and> buf ! (k + 1) = LF))"
  using assms
proof (induction buf i rule: crlf_scan.induct)
  case (1 buf i)
  from 1(2) have lt: "i + 1 < length buf" by (subst (asm) crlf_scan.simps) (auto split: if_splits)
  show ?case
  proof (cases "buf ! i = CR \<and> buf ! (i + 1) = LF")
    case True
    with 1(2) lt show ?thesis by (subst (asm) crlf_scan.simps) auto
  next
    case False
    with 1(2) lt have "crlf_scan buf (i + 1) = Some j" by (subst (asm) crlf_scan.simps) (simp split: if_splits)
    from 1(1) [OF lt False this] have s: "i + 1 \<le> j" "j + 1 < length buf" "buf ! j = CR" "buf ! (j + 1) = LF"
      "\<forall>k. i + 1 \<le> k \<and> k < j \<longrightarrow> \<not> (buf ! k = CR \<and> buf ! (k + 1) = LF)" by auto
    have "\<not> (buf ! k = CR \<and> buf ! (k + 1) = LF)" if "i \<le> k" "k < j" for k
      using s(5) False that by (cases "k = i") auto
    with s(1-4) show ?thesis by auto
  qed
qed

lemma crlf_scan_reach:
  assumes "i \<le> j" and "j + 1 < length buf" and "buf ! j = CR" and "buf ! (j + 1) = LF"
    and "\<forall>k. i \<le> k \<and> k < j \<longrightarrow> \<not> (buf ! k = CR \<and> buf ! (k + 1) = LF)"
  shows "crlf_scan buf i = Some j"
  using assms
proof (induction buf i rule: crlf_scan.induct)
  case (1 buf i)
  show ?case
  proof (cases "i = j")
    case True
    with 1 show ?thesis by (subst crlf_scan.simps) simp
  next
    case False
    with 1(2-) have "i < j" "\<not> (buf ! i = CR \<and> buf ! (i + 1) = LF)" by auto
    with 1 show ?thesis by (subst crlf_scan.simps) simp
  qed
qed

lemma crlf_scan_None:
  assumes "\<And>k. i \<le> k \<Longrightarrow> k + 1 < length buf \<Longrightarrow> \<not> (buf ! k = CR \<and> buf ! (k + 1) = LF)"
  shows "crlf_scan buf i = None"
  using crlf_scan_Some [of buf i] assms by (cases "crlf_scan buf i") auto

lemma find_crlf_Some:
  assumes "find_crlf buf i = Some j"
  shows "i \<le> j" "j + 1 < length buf" "buf ! j = CR" "buf ! (j + 1) = LF"
    "\<And>k. i \<le> k \<Longrightarrow> k < j \<Longrightarrow> \<not> (buf ! k = CR \<and> buf ! (k + 1) = LF)"
  using crlf_scan_Some [of buf i j] assms by (auto simp: find_crlf_def split: if_splits)

text \<open>The search only looks at the bytes up to the line end it finds.\<close>

lemma find_crlf_agree:
  assumes "find_crlf buf i = Some j" and "j + 2 \<le> n" and "n \<le> length buf'" and "take n buf' = take n buf"
  shows "find_crlf buf' i = Some j"
proof -
  note f = find_crlf_Some [OF assms(1)]
  have e: "buf' ! k = buf ! k" if "k < n" for k
    using assms(4) that by (metis nth_take)
  have "crlf_scan buf' i = Some j"
  proof (rule crlf_scan_reach)
    show "\<forall>k. i \<le> k \<and> k < j \<longrightarrow> \<not> (buf' ! k = CR \<and> buf' ! (k + 1) = LF)"
      using f(5) assms(2) by (auto simp: e)
  qed (use f assms(2,3) in \<open>auto simp: e\<close>)
  then show ?thesis using f assms(2,3) by (simp add: find_crlf_def)
qed

text \<open>A line without CR, complete or cut short.\<close>

lemma find_crlf_line:
  assumes "drop pos buf = line @ crlf @ rest" and "CR \<notin> set line"
  shows "find_crlf buf pos = Some (pos + length line)"
proof -
  have l: "pos + length line + 2 \<le> length buf"
    using arg_cong [OF assms(1), of length] by simp
  have n: "buf ! (pos + k) = (line @ crlf @ rest) ! k" if "pos + k < length buf" for k
    using that by (simp only: assms(1) [symmetric] nth_drop less_imp_le_nat add_leD1)
  have "crlf_scan buf pos = Some (pos + length line)"
  proof (rule crlf_scan_reach)
    show "buf ! (pos + length line) = CR" "buf ! (pos + length line + 1) = LF"
      using n [of "length line"] n [of "length line + 1"] l by (auto simp: nth_append)
    show "\<forall>k. pos \<le> k \<and> k < pos + length line \<longrightarrow> \<not> (buf ! k = CR \<and> buf ! (k + 1) = LF)"
    proof (intro allI impI)
      fix k assume k: "pos \<le> k \<and> k < pos + length line"
      then have i: "k - pos < length line" by linarith
      then have "buf ! k = line ! (k - pos)" using n [of "k - pos"] l k by (simp add: nth_append)
      moreover have "line ! (k - pos) \<in> set line" using i by (rule nth_mem)
      ultimately show "\<not> (buf ! k = CR \<and> buf ! (k + 1) = LF)" using assms(2) by auto
    qed
  qed (use l in auto)
  then show ?thesis using l by (simp add: find_crlf_def)
qed

lemma find_crlf_cut:
  assumes "CR \<notin> set (butlast (drop pos buf))"
  shows "find_crlf buf pos = None"
proof -
  have "crlf_scan buf pos = None"
  proof (rule crlf_scan_None)
    fix k assume k: "pos \<le> k" "k + 1 < length buf"
    then have "buf ! k = butlast (drop pos buf) ! (k - pos)" "k - pos < length (butlast (drop pos buf))"
      by (auto simp: nth_butlast)
    then have "buf ! k \<in> set (butlast (drop pos buf))" by (metis nth_mem)
    with assms show "\<not> (buf ! k = CR \<and> buf ! (k + 1) = LF)" by auto
  qed
  then show ?thesis by (simp add: find_crlf_def)
qed

section \<open>Length prefixes\<close>

lemma parse_ll_digits_total:
  assumes "0 \<le> v" and "v \<le> 2 ^ 30"
  shows "\<exists>r. parse_ll_digits v s = Some r \<and> (\<forall>x. r = Some x \<longrightarrow> 0 \<le> x \<and> x \<le> 2 ^ 30)"
  using assms
proof (induction s arbitrary: v)
  case Nil
  then show ?case by simp
next
  case (Cons c cs)
  show ?case
  proof (cases "isdigit c")
    case True
    let ?v = "v * 10 + int (digit_val c)"
    have "int64_ok (v * 10)" "int64_ok ?v"
      using Cons.prems True by (auto simp: int64_defs digit_val_def isdigit_def)
    with True Cons.IH [of ?v] Cons.prems show ?thesis
      by (auto simp: RESP_MAX_BULK_LEN_def)
  qed simp
qed

text \<open>\<open>parse_ll\<close> never overflows, and what it accepts is bounded.\<close>

lemma parse_ll_total [ub_free]:
  "\<exists>r. parse_ll s = Some r \<and> (\<forall>x. r = Some x \<longrightarrow> - (2 ^ 30) \<le> x \<and> x \<le> 2 ^ 30)"
  using parse_ll_digits_total [of 0 s] parse_ll_digits_total [of 0 "tl s"]
  by (auto simp: parse_ll_def int64_defs i64_def split: option.splits)

lemma foldl_dec_ge: "v \<le> foldl (\<lambda>v c. v * 10 + digit_val c) v ds"
proof (induction ds arbitrary: v)
  case (Cons d ds)
  have "v \<le> v * 10 + digit_val d" by simp
  also have "\<dots> \<le> foldl (\<lambda>v c. v * 10 + digit_val c) (v * 10 + digit_val d) ds" by (rule Cons.IH)
  finally show ?case by simp
qed simp

lemma parse_ll_digits_value:
  assumes "list_all isdigit ds" and "foldl (\<lambda>v c. v * 10 + digit_val c) v ds \<le> 2 ^ 30"
  shows "parse_ll_digits (int v) ds = Some (Some (int (foldl (\<lambda>v c. v * 10 + digit_val c) v ds)))"
  using assms
proof (induction ds arbitrary: v)
  case Nil
  then show ?case by simp
next
  case (Cons c cs)
  let ?v = "v * 10 + digit_val c"
  have le: "?v \<le> 2 ^ 30" using foldl_dec_ge [of ?v cs] Cons.prems(2) unfolding foldl_Cons by (rule order_trans)
  then have ok: "int64_ok (int v * 10)" "int64_ok (int v * 10 + int (digit_val c))"
    "\<not> RESP_MAX_BULK_LEN * 2 < int v * 10 + int (digit_val c)"
    by (auto simp: int64_defs RESP_MAX_BULK_LEN_def)
  have "parse_ll_digits (int v) (c # cs) = parse_ll_digits (int v * 10 + int (digit_val c)) cs"
    using ok Cons.prems(1) by simp
  also have "int v * 10 + int (digit_val c) = int ?v" by simp
  also have "parse_ll_digits (int ?v) cs = Some (Some (int (foldl (\<lambda>v c. v * 10 + digit_val c) ?v cs)))"
    by (rule Cons.IH) (use Cons.prems in simp_all)
  finally show ?case by (simp only: foldl_Cons)
qed

lemma parse_ll_show_nat:
  assumes "n \<le> 2 ^ 30"
  shows "parse_ll (show_nat n) = Some (Some (int n))"
proof -
  have "hd (show_nat n) \<noteq> CHR ''-''" using isdigit_hd_show_nat [of n] by auto
  then show ?thesis
    using parse_ll_digits_value [of "show_nat n" 0] assms dec_val_show_nat [of n] show_nat_digits [of n]
    by (simp add: parse_ll_def dec_val_def)
qed

section \<open>No undefined behaviour\<close>

text \<open>One turn of the argument loop, with its checks resolved.\<close>

definition bulk_hdr :: "bytes \<Rightarrow> nat \<Rightarrow> nat \<Rightarrow> int option" where
  "bulk_hdr buf pos h = the (parse_ll (take (h - Suc pos) (drop (Suc pos) buf)))"

lemma parse_ll_the: "parse_ll s = Some (the (parse_ll s))"
  using parse_ll_total [of s] by auto

lemma parse_bulks_step:
  assumes "pos \<le> length buf"
  shows "parse_bulks mem buf (Suc left) pos m argv =
     (case find_crlf buf pos of
        None \<Rightarrow>
          Some (if length buf - pos > RESP_MAX_INLINE_LEN
                then RESP_PARSE_ERROR ''ERR Protocol error: too big bulk count string''
                else RESP_PARSE_INCOMPLETE)
      | Some h \<Rightarrow>
          if buf ! pos \<noteq> CHR ''$'' then Some (RESP_PARSE_ERROR ''ERR Protocol error: expected '$', got something else'')
          else (case bulk_hdr buf pos h of
              None \<Rightarrow> Some (RESP_PARSE_ERROR ''ERR Protocol error: invalid bulk length'')
            | Some blen \<Rightarrow>
                if blen < 0 \<or> blen > RESP_MAX_BULK_LEN
                then Some (RESP_PARSE_ERROR ''ERR Protocol error: invalid bulk length'')
                else if length buf < h + 2 + nat blen + 2 then Some RESP_PARSE_INCOMPLETE
                else if buf ! (h + 2 + nat blen) \<noteq> CR \<or> buf ! (h + 2 + nat blen + 1) \<noteq> LF
                then Some (RESP_PARSE_ERROR ''ERR Protocol error: expected CRLF after bulk string body'')
                else if \<not> mem m then Some (RESP_PARSE_ERROR ''ERR out of memory'')
                else parse_bulks mem buf left (h + 2 + nat blen + 2) (m + 1)
                       (argv @ [take (nat blen) (drop (h + 2) buf)])))"
proof (cases "find_crlf buf pos")
  case None
  with assms show ?thesis by (simp add: size_sub_def parse_bulks.simps(2))
next
  case (Some h)
  note f = find_crlf_Some [OF Some]
  have p: "rd buf pos = Some (buf ! pos)" using f by (intro rd_Some) linarith
  show ?thesis
  proof (cases "buf ! pos = CHR ''$''")
    case True
    with f have "pos \<noteq> h" by auto
    with f(1) have h: "pos + 1 \<le> h" by linarith
    have s: "size_sub h (pos + 1) = Some (h - Suc pos)" using h by (simp add: size_sub_def)
    have r: "rd_span buf (pos + 1) (h - Suc pos) = Some (take (h - Suc pos) (drop (Suc pos) buf))"
      using h f(2) by simp
    have "rd buf (h + 2 + n) = Some (buf ! (h + 2 + n))" "rd buf (h + 2 + n + 1) = Some (buf ! (h + 2 + n + 1))"
      "rd_span buf (h + 2) n = Some (take n (drop (h + 2) buf))" if "\<not> length buf < h + 2 + n + 2" for n
      using that by simp_all
    with True Some p s r parse_ll_the [of "take (h - Suc pos) (drop (Suc pos) buf)"] show ?thesis
      by (auto simp: parse_bulks.simps(2) bulk_hdr_def Let_def split: option.split)
  next
    case False
    with Some p show ?thesis by (simp add: parse_bulks.simps(2))
  qed
qed

lemma parse_bulks_defined:
  "pos \<le> length buf \<Longrightarrow> parse_bulks mem buf left pos m argv \<noteq> None"
proof (induction left arbitrary: pos m argv)
  case 0
  then show ?case by simp
next
  case (Suc left)
  show ?case
    unfolding parse_bulks_step [OF Suc.prems]
    by (auto split: option.split intro!: Suc.IH simp del: not_None_eq)
qed

text \<open>The first line of a multibulk request, likewise.\<close>

lemma parse_multibulk_step:
  assumes "buf \<noteq> []" and "hd buf = CHR ''*''"
  shows "parse_multibulk mem buf =
     (case find_crlf buf 0 of
        None \<Rightarrow>
          Some (if length buf > RESP_MAX_INLINE_LEN
                then RESP_PARSE_ERROR ''ERR Protocol error: too big mbulk count string''
                else RESP_PARSE_INCOMPLETE)
      | Some h \<Rightarrow>
          (case bulk_hdr buf 0 h of
             None \<Rightarrow> Some (RESP_PARSE_ERROR ''ERR Protocol error: invalid multibulk length'')
           | Some argc \<Rightarrow>
               if argc \<le> 0 \<or> argc > RESP_MAX_ARGC
               then Some (RESP_PARSE_ERROR ''ERR Protocol error: invalid multibulk length'')
               else if \<not> mem 0 then Some (RESP_PARSE_ERROR ''ERR out of memory'')
               else parse_bulks mem buf (nat argc) (h + 2) 1 []))"
proof (cases "find_crlf buf 0")
  case None
  then show ?thesis by (simp add: parse_multibulk_def)
next
  case (Some h)
  note f = find_crlf_Some [OF Some]
  have "buf ! 0 = CHR ''*''" using assms by (simp add: hd_conv_nth)
  with f have "h \<noteq> 0" by (auto intro: ccontr)
  then have h: "1 \<le> h" by simp
  have s: "size_sub h 1 = Some (h - Suc 0)" using h by (simp add: size_sub_def)
  have r: "rd_span buf 1 (h - Suc 0) = Some (take (h - Suc 0) (drop (Suc 0) buf))"
    using h f(2) by simp
  from Some s r parse_ll_the [of "take (h - Suc 0) (drop (Suc 0) buf)"] show ?thesis
    by (auto simp: parse_multibulk_def bulk_hdr_def split: option.split)
qed

lemma parse_multibulk_defined:
  assumes "buf \<noteq> []" and "hd buf = CHR ''*''"
  shows "parse_multibulk mem buf \<noteq> None"
proof -
  have "h + 2 \<le> length buf" if "find_crlf buf 0 = Some h" for h
    using find_crlf_Some(2) [OF that] by simp
  then show ?thesis
    unfolding parse_multibulk_step [OF assms]
    by (auto split: option.split simp: parse_bulks_defined simp del: not_None_eq)
qed

text \<open>One token, with its checked copy resolved; \<open>tok_end\<close> is where the next token starts.\<close>

definition tok_start :: "bytes \<Rightarrow> nat \<Rightarrow> nat \<Rightarrow> nat" where
  "tok_start buf n p = scan_while isspace buf n p"

definition tok_end :: "bytes \<Rightarrow> nat \<Rightarrow> nat \<Rightarrow> nat" where
  "tok_end buf n p = scan_while (\<lambda>c. \<not> isspace c) buf n (tok_start buf n p)"

lemma tok_bounds:
  assumes "tok_start buf n p < n"
  shows "p < tok_end buf n p" "p \<le> tok_start buf n p" "tok_start buf n p \<le> tok_end buf n p" "tok_end buf n p \<le> n"
  using assms token_progress [of isspace buf n p] scan_while_ge [of p isspace buf n]
    scan_while_ge [of "tok_start buf n p" "\<lambda>c. \<not> isspace c" buf n]
    scan_while_le [of "tok_start buf n p" n "\<lambda>c. \<not> isspace c" buf]
  by (auto simp: tok_start_def tok_end_def)

lemma tokenize_step:
  assumes "n \<le> length buf"
  shows "tokenize mem buf n p cap m argv =
     (if p < n \<and> tok_start buf n p < n then
        (let full = (length argv = cap); m' = (if full then m + 1 else m)
         in if full \<and> \<not> mem m \<or> \<not> mem m' then Some None
            else tokenize mem buf n (tok_end buf n p) (if full then cap * 2 else cap) (m' + 1)
                   (argv @ [take (tok_end buf n p - tok_start buf n p) (drop (tok_start buf n p) buf)]))
      else Some (Some argv))"
proof -
  have "rd_span buf (tok_start buf n p) (tok_end buf n p - tok_start buf n p) =
      Some (take (tok_end buf n p - tok_start buf n p) (drop (tok_start buf n p) buf))" if "tok_start buf n p < n"
    using tok_bounds [OF that] assms by (intro rd_span_Some) linarith
  then show ?thesis
    by (subst tokenize.simps) (auto simp: Let_def tok_start_def tok_end_def)
qed

lemma tokenize_defined: "n \<le> length buf \<Longrightarrow> tokenize mem buf n p cap m argv \<noteq> None"
proof (induction "n - p" arbitrary: p cap m argv rule: less_induct)
  case less
  show ?case
  proof (cases "p < n \<and> tok_start buf n p < n")
    case True
    then have "n - tok_end buf n p < n - p" using tok_bounds [of buf n p] by linarith
    note IH = less.hyps [OF this less.prems]
    with True show ?thesis
      by (subst tokenize_step [OF less.prems]) (simp add: Let_def del: not_None_eq)
  next
    case False
    then show ?thesis by (subst tokenize_step [OF less.prems]) auto
  qed
qed

lemma parse_inline_defined: "parse_inline mem buf \<noteq> None"
proof -
  let ?i = "scan_while (\<lambda>c. c \<noteq> LF) buf (length buf) 0"
  let ?l = "if ?i > 0 \<and> buf ! (?i - 1) = CR then ?i - 1 else ?i"
  have "?i \<le> length buf" by (simp add: scan_while_le)
  then have "?l \<le> length buf" by auto
  from tokenize_defined [OF this, of mem 0 8 1 "[]"] obtain r where "tokenize mem buf ?l 0 8 1 [] = Some r" by blast
  then show ?thesis
    unfolding parse_inline_def Let_def by (simp only: bind.bind_lunit) (simp split: option.split)
qed

section \<open>A parsed command depends only on the bytes it consumes\<close>

lemma nth_agree: "take n xs = take n ys \<Longrightarrow> k < n \<Longrightarrow> xs ! k = ys ! k"
  by (metis nth_take)

lemma span_agree:
  assumes "take n xs = take n ys" and "i + k \<le> n"
  shows "take k (drop i xs) = take k (drop i ys)"
proof -
  have "take k (drop i (take n xs)) = take k (drop i (take n ys))" using assms(1) by simp
  moreover have "take k (drop i (take n zs)) = take k (drop i zs)" for zs :: "'a list"
    using assms(2) by (simp add: drop_take)
  ultimately show ?thesis by simp
qed

lemma bulk_hdr_agree:
  "take n buf' = take n buf \<Longrightarrow> h \<le> n \<Longrightarrow> pos < h \<Longrightarrow> bulk_hdr buf' pos h = bulk_hdr buf pos h"
  using span_agree [of n buf' buf "Suc pos" "h - Suc pos"] by (simp add: bulk_hdr_def)

lemma parse_bulks_agree:
  assumes "parse_bulks mem buf left pos m argv = Some (RESP_PARSE_OK argv' n)" and "pos \<le> length buf"
  shows "pos \<le> n \<and> n \<le> length buf \<and> length argv' = length argv + left \<and>
    (\<forall>buf'. n \<le> length buf' \<longrightarrow> take n buf' = take n buf \<longrightarrow>
       parse_bulks mem buf' left pos m argv = Some (RESP_PARSE_OK argv' n))"
  using assms
proof (induction left arbitrary: pos m argv)
  case 0
  then show ?case by auto
next
  case (Suc left)
  note step = Suc.prems(1) [unfolded parse_bulks_step [OF Suc.prems(2)]]
  from step obtain h where h: "find_crlf buf pos = Some h" by (auto split: option.splits if_splits)
  from step h obtain blen where b: "buf ! pos = CHR ''$''" "bulk_hdr buf pos h = Some blen"
    by (auto split: option.splits if_splits)
  let ?e = "h + 2 + nat blen + 2"
  let ?arg = "take (nat blen) (drop (h + 2) buf)"
  from step h b have c: "\<not> (blen < 0 \<or> blen > RESP_MAX_BULK_LEN)" "\<not> length buf < ?e"
    "buf ! (h + 2 + nat blen) = CR" "buf ! (h + 2 + nat blen + 1) = LF" "mem m"
    by (auto split: if_splits)
  have r: "parse_bulks mem buf left ?e (m + 1) (argv @ [?arg]) = Some (RESP_PARSE_OK argv' n)"
    using step h b c by simp
  note f = find_crlf_Some [OF h]
  have "pos \<noteq> h" using f(3) b(1) by auto
  with f(1) have ph: "pos < h" by simp
  from Suc.IH [OF r] c(2) have ih: "?e \<le> n" "n \<le> length buf" "length argv' = length argv + Suc left"
    "\<And>buf'. n \<le> length buf' \<Longrightarrow> take n buf' = take n buf \<Longrightarrow>
       parse_bulks mem buf' left ?e (m + 1) (argv @ [?arg]) = Some (RESP_PARSE_OK argv' n)"
    by auto
  have "parse_bulks mem buf' (Suc left) pos m argv = Some (RESP_PARSE_OK argv' n)"
    if a: "n \<le> length buf'" "take n buf' = take n buf" for buf'
  proof -
    have "find_crlf buf' pos = Some h" using find_crlf_agree [OF h _ a] ih(1) by simp
    moreover have "buf' ! pos = CHR ''$''" using nth_agree [OF a(2), of pos] ph ih(1) b(1) by simp
    moreover have "bulk_hdr buf' pos h = Some blen" using bulk_hdr_agree [OF a(2) _ ph] ih(1) b(2) by simp
    moreover have "buf' ! (h + 2 + nat blen) = CR" "buf' ! (h + 2 + nat blen + 1) = LF"
      using nth_agree [OF a(2), of "h + 2 + nat blen"] nth_agree [OF a(2), of "h + 2 + nat blen + 1"] ih(1) c
      by auto
    moreover have "take (nat blen) (drop (h + 2) buf') = ?arg" using span_agree [OF a(2), of "h + 2" "nat blen"] ih(1) by simp
    moreover have "pos \<le> length buf'" "\<not> length buf' < ?e" using ph ih(1) a(1) by auto
    ultimately show ?thesis
      using c ih(4) [OF a] by (simp add: parse_bulks_step)
  qed
  with ih ph show ?case by auto
qed

lemma scan_while_agree:
  "take n buf' = take n buf \<Longrightarrow> scan_while P buf' n p = scan_while P buf n p"
proof (induction P buf n p rule: scan_while.induct)
  case (1 P buf n p)
  then show ?case
    using nth_agree [OF 1(2), of p]
    by (subst scan_while.simps, subst (2) scan_while.simps) auto
qed

lemma tok_agree:
  assumes "take n buf' = take n buf"
  shows "tok_start buf' n p = tok_start buf n p" "tok_end buf' n p = tok_end buf n p"
  by (simp_all add: tok_start_def tok_end_def scan_while_agree [OF assms])

lemma tokenize_agree:
  assumes "take n buf' = take n buf" and "n \<le> length buf" and "n \<le> length buf'"
  shows "tokenize mem buf' n p cap m argv = tokenize mem buf n p cap m argv"
proof (induction "n - p" arbitrary: p cap m argv rule: less_induct)
  case less
  note tok = tok_agree [OF assms(1)]
  show ?case
  proof (cases "p < n \<and> tok_start buf n p < n")
    case True
    note b = tok_bounds [of buf n p]
    have "n - tok_end buf n p < n - p" using True b by linarith
    note IH = less.hyps [OF this]
    have "take (tok_end buf n p - tok_start buf n p) (drop (tok_start buf n p) buf') =
        take (tok_end buf n p - tok_start buf n p) (drop (tok_start buf n p) buf)"
      by (rule span_agree [OF assms(1)]) (use b True in simp)
    with True IH show ?thesis
      by (subst tokenize_step [OF assms(3)], subst tokenize_step [OF assms(2)]) (simp add: Let_def tok)
  next
    case False
    then show ?thesis
      by (subst tokenize_step [OF assms(3)], subst tokenize_step [OF assms(2)]) (auto simp: Let_def tok)
  qed
qed

text \<open>Where the line of an inline request ends.\<close>

lemma scan_while_takeWhile:
  "n \<le> length buf \<Longrightarrow> p \<le> n \<Longrightarrow>
     scan_while P buf n p = p + length (takeWhile P (drop p (take n buf)))"
proof (induction P buf n p rule: scan_while.induct)
  case (1 P buf n p)
  show ?case
  proof (cases "p < n")
    case True
    then have "drop p (take n buf) = buf ! p # drop (p + 1) (take n buf)"
      using 1(2) by (simp add: Cons_nth_drop_Suc [symmetric])
    with 1 True show ?thesis by (subst scan_while.simps) simp
  next
    case False
    with 1(2,3) show ?thesis by (subst scan_while.simps) simp
  qed
qed

definition inline_end :: "bytes \<Rightarrow> nat" where
  "inline_end buf = length (takeWhile (\<lambda>c. c \<noteq> LF) buf)"

definition inline_len :: "bytes \<Rightarrow> nat" where
  "inline_len buf =
     (if inline_end buf > 0 \<and> buf ! (inline_end buf - 1) = CR then inline_end buf - 1 else inline_end buf)"

lemma inline_end_less: "inline_end buf < length buf \<longleftrightarrow> LF \<in> set buf"
proof
  show "LF \<in> set buf" if "inline_end buf < length buf"
    using that nth_length_takeWhile [of "\<lambda>c. c \<noteq> LF" buf] nth_mem by (fastforce simp: inline_end_def)
  show "inline_end buf < length buf" if "LF \<in> set buf"
    using that by (induction buf) (auto simp: inline_end_def)
qed

lemma inline_end_le: "inline_end buf \<le> length buf"
  by (simp add: inline_end_def length_takeWhile_le)

lemma inline_len_le: "inline_len buf \<le> inline_end buf"
  by (simp add: inline_len_def)

lemma parse_inline_alt:
  "parse_inline mem buf =
     (if LF \<notin> set buf then
        Some (if length buf > RESP_MAX_INLINE_LEN
              then RESP_PARSE_ERROR ''ERR Protocol error: too big inline request''
              else RESP_PARSE_INCOMPLETE)
      else if \<not> mem 0 then Some (RESP_PARSE_ERROR ''ERR out of memory'')
      else tokenize mem buf (inline_len buf) 0 8 1 [] \<bind>
        (\<lambda>r. Some (case r of
               None \<Rightarrow> RESP_PARSE_ERROR ''ERR out of memory''
             | Some argv \<Rightarrow> RESP_PARSE_OK argv (inline_end buf + 1))))"
proof -
  have i: "scan_while (\<lambda>c. c \<noteq> LF) buf (length buf) 0 = inline_end buf"
    by (simp add: scan_while_takeWhile inline_end_def)
  have "(inline_end buf \<ge> length buf) = (LF \<notin> set buf)" using inline_end_less [of buf] by auto
  then show ?thesis
    unfolding parse_inline_def Let_def i inline_len_def
    by (simp add: option.case_distrib [of Some])
qed

lemma inline_end_agree:
  assumes "take n buf' = take n buf" and "inline_end buf < n" and "LF \<in> set buf" and "n \<le> length buf'"
  shows "inline_end buf' = inline_end buf \<and> inline_len buf' = inline_len buf \<and> LF \<in> set buf'"
proof -
  have lt: "inline_end buf < length buf" using assms(3) by (simp add: inline_end_less)
  have tw: "takeWhile (\<lambda>c. c \<noteq> LF) zs = takeWhile (\<lambda>c. c \<noteq> LF) (take n zs)" if "LF \<in> set (take n zs)" for zs
    using takeWhile_append1 [OF that, of "\<lambda>c. c \<noteq> LF" "drop n zs"] by simp
  have m: "LF \<in> set (take n buf)"
  proof -
    have "take n buf ! inline_end buf = LF"
      using nth_length_takeWhile [of "\<lambda>c. c \<noteq> LF" buf] lt assms(2) by (simp add: inline_end_def)
    then show ?thesis using lt assms(2) by (auto simp: in_set_conv_nth intro!: exI [of _ "inline_end buf"])
  qed
  have "takeWhile (\<lambda>c. c \<noteq> LF) buf' = takeWhile (\<lambda>c. c \<noteq> LF) buf"
    using tw [of buf'] tw [of buf] m by (simp only: assms(1))
  then have e: "inline_end buf' = inline_end buf" by (simp add: inline_end_def)
  have "buf' ! (inline_end buf - 1) = buf ! (inline_end buf - 1)"
    using nth_agree [OF assms(1)] assms(2) by simp
  with e have "inline_len buf' = inline_len buf" by (simp add: inline_len_def)
  moreover have "LF \<in> set buf'" using m assms(1) by (metis in_set_takeD)
  ultimately show ?thesis using e by simp
qed

lemma parse_inline_agree:
  assumes "parse_inline mem buf = Some (RESP_PARSE_OK argv n)"
  shows "0 < n \<and> n \<le> length buf \<and>
    (\<forall>buf'. n \<le> length buf' \<longrightarrow> take n buf' = take n buf \<longrightarrow>
       parse_inline mem buf' = Some (RESP_PARSE_OK argv n))"
proof -
  from assms have lf: "LF \<in> set buf" and m: "mem 0" and n: "n = inline_end buf + 1"
    by (auto simp: parse_inline_alt bind_eq_Some_conv split: if_splits option.splits)
  have le: "n \<le> length buf" using lf n by (simp add: inline_end_less Suc_le_eq)
  have "parse_inline mem buf' = Some (RESP_PARSE_OK argv n)"
    if a: "n \<le> length buf'" "take n buf' = take n buf" for buf'
  proof -
    from inline_end_agree [OF a(2) _ lf a(1)] n
    have e: "inline_end buf' = inline_end buf" "inline_len buf' = inline_len buf" "LF \<in> set buf'" by auto
    have l: "inline_len buf \<le> n" using inline_len_le [of buf] n by simp
    have "take (inline_len buf) buf' = take (inline_len buf) buf"
      using span_agree [OF a(2), of 0 "inline_len buf"] l by simp
    then have t: "tokenize mem buf' (inline_len buf) 0 8 1 [] = tokenize mem buf (inline_len buf) 0 8 1 []"
      using l le a(1) by (intro tokenize_agree) auto
    have "parse_inline mem buf' = parse_inline mem buf"
      unfolding parse_inline_alt e(1,2) t using e(3) lf by simp
    with assms show ?thesis by simp
  qed
  with n le show ?thesis by auto
qed

lemma parse_multibulk_agree:
  assumes "buf \<noteq> []" and "hd buf = CHR ''*''" and "parse_multibulk mem buf = Some (RESP_PARSE_OK argv n)"
  shows "0 < n \<and> n \<le> length buf \<and> argv \<noteq> [] \<and> int (length argv) \<le> RESP_MAX_ARGC \<and>
    (\<forall>buf'. n \<le> length buf' \<longrightarrow> take n buf' = take n buf \<longrightarrow>
       parse_multibulk mem buf' = Some (RESP_PARSE_OK argv n))"
proof -
  note step = assms(3) [unfolded parse_multibulk_step [OF assms(1,2)]]
  from step obtain h argc where h: "find_crlf buf 0 = Some h" and b: "bulk_hdr buf 0 h = Some argc"
    by (auto split: option.splits if_splits)
  from step h b have c: "\<not> (argc \<le> 0 \<or> argc > RESP_MAX_ARGC)" "mem 0"
    and r: "parse_bulks mem buf (nat argc) (h + 2) 1 [] = Some (RESP_PARSE_OK argv n)"
    by (auto split: if_splits)
  note f = find_crlf_Some [OF h]
  have "buf ! 0 \<noteq> CR" using assms(1,2) by (simp add: hd_conv_nth)
  with f(3) have ph: "0 < h" by (cases h) auto
  from parse_bulks_agree [OF r] f(2) have a: "h + 2 \<le> n" "n \<le> length buf" "length argv = nat argc"
    "\<And>buf'. n \<le> length buf' \<Longrightarrow> take n buf' = take n buf \<Longrightarrow>
       parse_bulks mem buf' (nat argc) (h + 2) 1 [] = Some (RESP_PARSE_OK argv n)" by auto
  have "parse_multibulk mem buf' = Some (RESP_PARSE_OK argv n)"
    if g: "n \<le> length buf'" "take n buf' = take n buf" for buf'
  proof -
    have "find_crlf buf' 0 = Some h" using find_crlf_agree [OF h _ g] a(1) by simp
    moreover have "bulk_hdr buf' 0 h = Some argc" using bulk_hdr_agree [OF g(2) _ ph] a(1) b by simp
    moreover have "buf' \<noteq> []" using g a(1) by auto
    moreover have "hd buf' = CHR ''*''"
      using nth_agree [OF g(2), of 0] a(1) assms(1,2) \<open>buf' \<noteq> []\<close> by (simp add: hd_conv_nth)
    ultimately show ?thesis using c a(4) [OF g] by (simp add: parse_multibulk_step)
  qed
  with a c show ?thesis by auto
qed

text \<open>
  The contract a server loop relies on: a parsed command consumes at least one byte, never more than
  there are, and its parse does not depend on what follows it.
\<close>

lemma resp_parse_agree:
  assumes "resp_parse mem buf = Some (RESP_PARSE_OK argv n)"
  shows "0 < n \<and> n \<le> length buf \<and>
    (\<forall>buf'. n \<le> length buf' \<longrightarrow> take n buf' = take n buf \<longrightarrow>
       resp_parse mem buf' = Some (RESP_PARSE_OK argv n))"
proof -
  have ne: "buf \<noteq> []" using assms by (auto simp: resp_parse_def)
  have hd': "buf' \<noteq> [] \<and> hd buf' = hd buf" if "0 < n" "n \<le> length buf'" "take n buf' = take n buf" for buf'
    using nth_agree [OF that(3,1)] that(1,2) ne by (cases "buf' = []") (auto simp: hd_conv_nth)
  show ?thesis
  proof (cases "hd buf = CHR ''*''")
    case True
    with assms ne have p: "parse_multibulk mem buf = Some (RESP_PARSE_OK argv n)" by (simp add: resp_parse_def)
    have "resp_parse mem buf' = parse_multibulk mem buf'"
      if "0 < n" "n \<le> length buf'" "take n buf' = take n buf" for buf'
      using hd' [OF that] True by (simp add: resp_parse_def)
    with parse_multibulk_agree [OF ne True p] show ?thesis by simp
  next
    case False
    with assms ne have p: "parse_inline mem buf = Some (RESP_PARSE_OK argv n)" by (simp add: resp_parse_def)
    have "resp_parse mem buf' = parse_inline mem buf'"
      if "0 < n" "n \<le> length buf'" "take n buf' = take n buf" for buf'
      using hd' [OF that] False by (simp add: resp_parse_def)
    with parse_inline_agree [OF p] show ?thesis by simp
  qed
qed

section \<open>Requests as clients send them\<close>

text \<open>The multibulk encoding of a command, within the limits of \<open>resp.h\<close>.\<close>

definition enc_bulk :: "bytes \<Rightarrow> bytes" where
  "enc_bulk a = ''$'' @ show_nat (length a) @ crlf @ a @ crlf"

definition enc_request :: "bytes list \<Rightarrow> bytes" where
  "enc_request argv = ''*'' @ show_nat (length argv) @ crlf @ concat (map enc_bulk argv)"

definition request_ok :: "bytes list \<Rightarrow> bool" where
  "request_ok argv \<longleftrightarrow> argv \<noteq> [] \<and> int (length argv) \<le> RESP_MAX_ARGC \<and>
     list_all (\<lambda>a. int (length a) \<le> RESP_MAX_BULK_LEN) argv"

lemma bulk_hdr_show_nat:
  assumes "drop pos buf = c # show_nat n @ crlf @ rest" and "c \<noteq> CR" and "n \<le> 2 ^ 30"
  shows "find_crlf buf pos = Some (pos + length (show_nat n) + 1)"
    "bulk_hdr buf pos (pos + length (show_nat n) + 1) = Some (int n)"
proof -
  show "find_crlf buf pos = Some (pos + length (show_nat n) + 1)"
    using find_crlf_line [of pos buf "c # show_nat n" rest] assms(1,2) by auto
  have "drop (Suc pos) buf = show_nat n @ crlf @ rest"
    using assms(1) by (metis drop_Suc drop_tl list.sel(3) tl_drop)
  then show "bulk_hdr buf pos (pos + length (show_nat n) + 1) = Some (int n)"
    using parse_ll_show_nat [OF assms(3)] by (simp add: bulk_hdr_def)
qed

lemma drop_nth_append:
  assumes "drop i xs = ys @ zs" and "k < length ys"
  shows "i + k < length xs \<and> xs ! (i + k) = ys ! k"
proof -
  have l: "i + k < length xs" using arg_cong [OF assms(1), of length] assms(2) by simp
  then have "xs ! (i + k) = drop i xs ! k" by simp
  with assms l show ?thesis by (simp add: nth_append)
qed

lemma parse_bulks_enc_step:
  assumes "drop pos buf = enc_bulk a @ rest" and "int (length a) \<le> RESP_MAX_BULK_LEN"
  shows "parse_bulks (\<lambda>_. True) buf (Suc left) pos m argv =
    parse_bulks (\<lambda>_. True) buf left (pos + length (enc_bulk a)) (m + 1) (argv @ [a])"
proof -
  have n: "length a \<le> 2 ^ 30" using assms(2) by (simp add: RESP_MAX_BULK_LEN_def)
  let ?h = "pos + length (show_nat (length a)) + 1"
  have b: "drop pos buf = CHR ''$'' # show_nat (length a) @ crlf @ (a @ crlf @ rest)"
    using assms(1) by (simp add: enc_bulk_def)
  note hdr = bulk_hdr_show_nat [OF b _ n]
  have d: "drop (?h + 2) buf = a @ crlf @ rest"
    using drop_prefix [of pos buf "CHR ''$'' # show_nat (length a) @ crlf" "a @ crlf @ rest"] b by simp
  have "pos < length buf \<and> buf ! pos = CHR ''$''"
    using drop_nth_append [of pos buf "''$''" _ 0] b by simp
  moreover have c0: "?h + 2 + length a < length buf \<and> buf ! (?h + 2 + length a) = CR"
    using drop_nth_append [of "?h + 2" buf "a @ crlf" rest "length a"] d by simp
  moreover have c1: "?h + 2 + (length a + 1) < length buf \<and> buf ! (?h + 2 + (length a + 1)) = LF"
    using drop_nth_append [of "?h + 2" buf "a @ crlf" rest "length a + 1"] d by (simp add: nth_append)
  moreover have "take (length a) (drop (?h + 2) buf) = a" using d by simp
  ultimately show ?thesis
    using hdr assms(2) by (simp add: parse_bulks_step enc_bulk_def add.assoc)
qed

lemma parse_bulks_enc:
  assumes "drop pos buf = concat (map enc_bulk args) @ rest"
    and "list_all (\<lambda>a. int (length a) \<le> RESP_MAX_BULK_LEN) args"
  shows "parse_bulks (\<lambda>_. True) buf (length args) pos m argv =
    Some (RESP_PARSE_OK (argv @ args) (pos + length (concat (map enc_bulk args))))"
  using assms
proof (induction args arbitrary: pos m argv)
  case Nil
  then show ?case by simp
next
  case (Cons a args)
  have d: "drop pos buf = enc_bulk a @ (concat (map enc_bulk args) @ rest)" using Cons.prems(1) by simp
  then have "drop (pos + length (enc_bulk a)) buf = concat (map enc_bulk args) @ rest"
    by (rule drop_prefix)
  from Cons.IH [OF this] Cons.prems(2) show ?case
    using parse_bulks_enc_step [OF d, of "length args" m argv]
    by (simp add: ac_simps)
qed

text \<open>Parsing an encoded command gives its arguments back and consumes exactly the encoding.\<close>

lemma resp_parse_enc:
  assumes "request_ok argv"
  shows "resp_parse (\<lambda>_. True) (enc_request argv @ rest) = Some (RESP_PARSE_OK argv (length (enc_request argv)))"
proof -
  let ?buf = "enc_request argv @ rest"
  have n: "length argv \<le> 2 ^ 30" and pos: "0 < length argv"
    using assms(1) by (auto simp: request_ok_def RESP_MAX_ARGC_def)
  have b: "drop 0 ?buf = CHR ''*'' # show_nat (length argv) @ crlf @ (concat (map enc_bulk argv) @ rest)"
    by (simp add: enc_request_def)
  note hdr = bulk_hdr_show_nat [OF b _ n]
  have "drop (length (show_nat (length argv)) + 3) ?buf = concat (map enc_bulk argv) @ rest"
    by (simp add: enc_request_def eval_nat_numeral)
  from parse_bulks_enc [OF this, of 1 "[]"] assms(1)
  have "parse_bulks (\<lambda>_. True) ?buf (length argv) (length (show_nat (length argv)) + 3) 1 [] =
      Some (RESP_PARSE_OK argv (length (enc_request argv)))"
    by (simp add: request_ok_def enc_request_def)
  moreover have "?buf \<noteq> []" "hd ?buf = CHR ''*''" by (simp_all add: enc_request_def)
  ultimately show ?thesis
    using hdr assms pos by (simp add: resp_parse_def parse_multibulk_step request_ok_def eval_nat_numeral)
qed

section \<open>A command that has not arrived completely\<close>

text \<open>A header line that is cut short has no line end yet.\<close>

lemma find_crlf_short:
  assumes "drop pos buf = take k (line @ crlf)" and "CR \<notin> set line" and "k < length line + 2"
  shows "find_crlf buf pos = None"
proof (rule find_crlf_cut)
  have "butlast (drop pos buf) = take (k - 1) (line @ crlf)"
    unfolding assms(1) by (rule butlast_take) (use assms(3) in simp)
  also have "\<dots> = take (k - 1) line @ take (k - 1 - length line) crlf" by simp
  also have "k - 1 - length line = 0" using assms(3) by simp
  finally show "CR \<notin> set (butlast (drop pos buf))" using assms(2) by (auto dest: in_set_takeD)
qed

lemma length_show_nat_30: "n \<le> 2 ^ 30 \<Longrightarrow> length (show_nat n) \<le> 10"
  using length_show_nat [of n 9] by simp

lemma parse_bulks_cut:
  assumes "drop pos buf = take k (enc_bulk a)" and "k < length (enc_bulk a)"
    and "int (length a) \<le> RESP_MAX_BULK_LEN" and "pos \<le> length buf"
  shows "parse_bulks mem buf (Suc left) pos m argv = Some RESP_PARSE_INCOMPLETE"
proof -
  have n: "length a \<le> 2 ^ 30" using assms(3) by (simp add: RESP_MAX_BULK_LEN_def)
  let ?line = "CHR ''$'' # show_nat (length a)"
  have lb: "length buf = pos + k" using arg_cong [OF assms(1), of length] assms(2,4) by simp
  show ?thesis
  proof (cases "k < length ?line + 2")
    case True
    then have "drop pos buf = take k (?line @ crlf)" using assms(1) by (simp add: enc_bulk_def take_Cons' split: if_splits)
    then have "find_crlf buf pos = None" by (rule find_crlf_short) (use True in simp_all)
    moreover have "\<not> length buf - pos > RESP_MAX_INLINE_LEN"
      using True lb length_show_nat_30 [OF n] by (simp add: RESP_MAX_INLINE_LEN_def)
    ultimately show ?thesis using assms(4) by (simp add: parse_bulks_step)
  next
    case False
    let ?rest = "take (k - (length ?line + 2)) (a @ crlf)"
    have e: "enc_bulk a = (?line @ crlf) @ a @ crlf" by (simp add: enc_bulk_def)
    have b: "drop pos buf = CHR ''$'' # show_nat (length a) @ crlf @ ?rest"
      using False unfolding assms(1) e by (simp only: take_append) simp
    have "buf ! pos = CHR ''$''" using drop_nth_append [of pos buf "''$''" _ 0] b by simp
    moreover have "length buf < pos + length (show_nat (length a)) + 1 + 2 + length a + 2"
      using assms(2) lb by (simp add: enc_bulk_def)
    ultimately show ?thesis
      using bulk_hdr_show_nat [OF b _ n] assms(3,4) by (simp add: parse_bulks_step)
  qed
qed

lemma parse_bulks_prefix:
  assumes "drop pos buf = take k (concat (map enc_bulk args))" and "k < length (concat (map enc_bulk args))"
    and "list_all (\<lambda>a. int (length a) \<le> RESP_MAX_BULK_LEN) args" and "pos \<le> length buf"
  shows "parse_bulks (\<lambda>_. True) buf (length args) pos m argv = Some RESP_PARSE_INCOMPLETE"
  using assms
proof (induction args arbitrary: pos k m argv)
  case Nil
  then show ?case by simp
next
  case (Cons a args)
  show ?case
  proof (cases "k < length (enc_bulk a)")
    case True
    then show ?thesis using Cons.prems by (simp add: parse_bulks_cut)
  next
    case False
    let ?k = "k - length (enc_bulk a)"
    have d: "drop pos buf = enc_bulk a @ take ?k (concat (map enc_bulk args))" using Cons.prems(1) False by simp
    have p: "pos + length (enc_bulk a) \<le> length buf" using arg_cong [OF d, of length] Cons.prems(4) by simp
    show ?thesis
      using parse_bulks_enc_step [OF d, of "length args" m argv] Cons.prems(2,3) False
        Cons.IH [OF drop_prefix [OF d] _ _ p, of "m + 1" "argv @ [a]"] by simp
  qed
qed

text \<open>Every proper prefix of an encoded command asks for more bytes.\<close>

lemma resp_parse_prefix:
  assumes "request_ok argv" and "k < length (enc_request argv)"
  shows "resp_parse (\<lambda>_. True) (take k (enc_request argv)) = Some RESP_PARSE_INCOMPLETE"
proof (cases "k = 0")
  case True
  then show ?thesis by (simp add: resp_parse_def)
next
  case False
  let ?buf = "take k (enc_request argv)" and ?line = "CHR ''*'' # show_nat (length argv)"
  have n: "length argv \<le> 2 ^ 30" and pos: "0 < length argv"
    using assms(1) by (auto simp: request_ok_def RESP_MAX_ARGC_def)
  have e: "enc_request argv = (?line @ crlf) @ concat (map enc_bulk argv)" by (simp add: enc_request_def)
  have hd: "?buf \<noteq> []" "hd ?buf = CHR ''*''" using False by (auto simp: e take_Cons')
  show ?thesis
  proof (cases "k < length ?line + 2")
    case True
    then have b: "drop 0 ?buf = take k (?line @ crlf)" by (simp add: e take_Cons' split: if_splits)
    have "find_crlf ?buf 0 = None" by (rule find_crlf_short [OF b]) (use True in simp_all)
    moreover have "\<not> length ?buf > RESP_MAX_INLINE_LEN"
      using True length_show_nat_30 [OF n] by (simp add: RESP_MAX_INLINE_LEN_def)
    ultimately show ?thesis using hd by (simp add: resp_parse_def parse_multibulk_step)
  next
    case False
    let ?k = "k - (length ?line + 2)"
    have t: "?buf = (?line @ crlf) @ take ?k (concat (map enc_bulk argv))"
      using False unfolding e by (simp only: take_append) simp
    then have b: "drop 0 ?buf = CHR ''*'' # show_nat (length argv) @ crlf @ take ?k (concat (map enc_bulk argv))"
      by simp
    have d: "drop (length (show_nat (length argv)) + 1 + 2) ?buf = take ?k (concat (map enc_bulk argv))"
      using drop_prefix [of 0 ?buf "?line @ crlf"] t by (simp add: eval_nat_numeral)
    have "?k < length (concat (map enc_bulk argv))" using assms(2) False by (simp add: e)
    moreover have "length (show_nat (length argv)) + 1 + 2 \<le> length ?buf" using False assms(2) by simp
    ultimately have "parse_bulks (\<lambda>_. True) ?buf (length argv) (length (show_nat (length argv)) + 1 + 2) 1 [] =
        Some RESP_PARSE_INCOMPLETE"
      using parse_bulks_prefix [OF d] assms(1) by (simp add: request_ok_def)
    then show ?thesis
      using bulk_hdr_show_nat [OF b _ n] hd assms(1) pos
      by (simp add: resp_parse_def parse_multibulk_step request_ok_def)
  qed
qed

section \<open>Inline requests are split at white space\<close>

text \<open>The reference: the maximal runs of characters that are not white space, in order.\<close>

function words :: "bytes \<Rightarrow> bytes list" where
  "words s =
     (let s' = dropWhile isspace s in
      if s' = [] then [] else takeWhile (\<lambda>c. \<not> isspace c) s' # words (dropWhile (\<lambda>c. \<not> isspace c) s'))"
  by pat_completeness auto
termination
proof (relation "measure length", goal_cases)
  case (2 s s')
  have "\<not> isspace (hd s')" using 2 hd_dropWhile [of isspace s] by simp
  then have "length (dropWhile (\<lambda>c. \<not> isspace c) s') < length s'"
    using 2(2) by (cases s') (simp_all add: length_dropWhile_le less_Suc_eq_le)
  also have "length s' \<le> length s" using 2 by (simp add: length_dropWhile_le)
  finally show ?case by simp
qed simp

declare words.simps [simp del]

lemma drop_length_takeWhile: "drop (length (takeWhile P xs)) xs = dropWhile P xs"
  by (metis append_eq_conv_conj takeWhile_dropWhile_id)

lemma tok_words:
  assumes "n \<le> length buf" and "p \<le> n"
  defines "s \<equiv> drop p (take n buf)"
  shows "tok_start buf n p = p + length (takeWhile isspace s)"
    "drop (tok_start buf n p) (take n buf) = dropWhile isspace s"
    "tok_start buf n p \<le> n"
    "tok_end buf n p = tok_start buf n p + length (takeWhile (\<lambda>c. \<not> isspace c) (dropWhile isspace s))"
    "drop (tok_end buf n p) (take n buf) = dropWhile (\<lambda>c. \<not> isspace c) (dropWhile isspace s)"
    "tok_start buf n p < n \<longleftrightarrow> dropWhile isspace s \<noteq> []"
proof -
  show st: "tok_start buf n p = p + length (takeWhile isspace s)"
    using assms(1,2) by (simp add: tok_start_def scan_while_takeWhile s_def)
  have "drop (tok_start buf n p) (take n buf) = drop (length (takeWhile isspace s)) s"
    by (simp add: st s_def add.commute)
  then show d: "drop (tok_start buf n p) (take n buf) = dropWhile isspace s" by (simp add: drop_length_takeWhile)
  show le: "tok_start buf n p \<le> n"
    using assms(2) by (simp add: tok_start_def scan_while_le)
  show e: "tok_end buf n p = tok_start buf n p + length (takeWhile (\<lambda>c. \<not> isspace c) (dropWhile isspace s))"
    using assms(1) le by (simp add: tok_end_def scan_while_takeWhile d)
  have "drop (tok_end buf n p) (take n buf) =
      drop (length (takeWhile (\<lambda>c. \<not> isspace c) (dropWhile isspace s))) (dropWhile isspace s)"
    by (simp add: e d [symmetric] add.commute)
  then show "drop (tok_end buf n p) (take n buf) = dropWhile (\<lambda>c. \<not> isspace c) (dropWhile isspace s)"
    by (simp add: drop_length_takeWhile)
  show "tok_start buf n p < n \<longleftrightarrow> dropWhile isspace s \<noteq> []"
    unfolding d [symmetric] using assms(1) le by auto
qed

lemma tokenize_words:
  assumes "n \<le> length buf" and "p \<le> n"
  shows "tokenize (\<lambda>_. True) buf n p cap m argv = Some (Some (argv @ words (drop p (take n buf))))"
  using assms(2)
proof (induction "n - p" arbitrary: p cap m argv rule: less_induct)
  case less
  let ?s = "drop p (take n buf)"
  note tok = tok_words [OF assms(1) less.prems]
  show ?case
  proof (cases "tok_start buf n p < n")
    case True
    note b = tok_bounds [OF True]
    have m: "n - tok_end buf n p < n - p" using b by linarith
    have "take (tok_end buf n p - tok_start buf n p) (drop (tok_start buf n p) buf) =
        take (tok_end buf n p - tok_start buf n p) (drop (tok_start buf n p) (take n buf))"
      using b by (simp add: drop_take min_def)
    also have "\<dots> = takeWhile (\<lambda>c. \<not> isspace c) (dropWhile isspace ?s)"
      by (simp add: tok(2) tok(4) takeWhile_eq_take [symmetric])
    finally have a: "take (tok_end buf n p - tok_start buf n p) (drop (tok_start buf n p) buf) =
      takeWhile (\<lambda>c. \<not> isspace c) (dropWhile isspace ?s)" .
    have "words ?s = takeWhile (\<lambda>c. \<not> isspace c) (dropWhile isspace ?s) # words (drop (tok_end buf n p) (take n buf))"
      using True tok(5,6) by (subst words.simps) (simp add: Let_def)
    moreover have "p < n" using True b by linarith
    ultimately show ?thesis
      using True less.hyps [OF m b(4)] by (subst tokenize_step [OF assms(1)]) (simp add: a Let_def)
  next
    case False
    then have "words ?s = []" using tok(6) by (subst words.simps) (simp add: Let_def)
    with False show ?thesis by (subst tokenize_step [OF assms(1)]) simp
  qed
qed

text \<open>The line of an inline request: up to LF, less one CR before it.\<close>

definition strip_cr :: "bytes \<Rightarrow> bytes" where
  "strip_cr l = (if l \<noteq> [] \<and> last l = CR then butlast l else l)"

lemma resp_parse_inline_line:
  assumes "LF \<notin> set line" and "line = [] \<or> hd line \<noteq> CHR ''*''"
  shows "resp_parse (\<lambda>_. True) (line @ LF # rest) =
    Some (RESP_PARSE_OK (words (strip_cr line)) (length line + 1))"
proof -
  let ?buf = "line @ LF # rest"
  have tw: "takeWhile (\<lambda>c. c \<noteq> LF) ?buf = line"
    using assms(1) by (subst takeWhile_append2) auto
  have ie: "inline_end ?buf = length line" by (simp add: inline_end_def tw)
  have "line \<noteq> [] \<Longrightarrow> ?buf ! (length line - 1) = last line"
    by (simp add: nth_append last_conv_nth)
  then have "take (inline_len ?buf) ?buf = strip_cr line" and "inline_len ?buf \<le> length ?buf"
    by (auto simp: inline_len_def ie strip_cr_def butlast_conv_take)
  then have "tokenize (\<lambda>_. True) ?buf (inline_len ?buf) 0 8 1 [] = Some (Some (words (strip_cr line)))"
    using tokenize_words [of "inline_len ?buf" ?buf 0 8 1 "[]"] by simp
  then have "parse_inline (\<lambda>_. True) ?buf = Some (RESP_PARSE_OK (words (strip_cr line)) (length line + 1))"
    by (simp add: parse_inline_alt ie)
  moreover have "hd ?buf \<noteq> CHR ''*''" using assms(2) by (cases line) auto
  ultimately show ?thesis by (simp add: resp_parse_def)
qed

section \<open>Draining an input buffer\<close>

text \<open>
  What both servers do with a buffer: parse commands from its front until one is incomplete or
  malformed. The result lists the commands, the bytes that remain and the error, if any.
\<close>

function drain :: "(bytes \<Rightarrow> resp_status option) \<Rightarrow> bytes \<Rightarrow> bytes list list \<times> bytes \<times> bytes option" where
  "drain parse buf =
     (case parse buf of
        Some (RESP_PARSE_OK argv n) \<Rightarrow>
          if 0 < n \<and> n \<le> length buf
          then (let (cs, r, e) = drain parse (drop n buf) in (argv # cs, r, e))
          else ([], buf, None)
      | Some (RESP_PARSE_ERROR e) \<Rightarrow> ([], buf, Some e)
      | _ \<Rightarrow> ([], buf, None))"
  by pat_completeness auto
termination by (relation "measure (\<lambda>(parse, buf). length buf)") auto

declare drain.simps [simp del]

text \<open>What a server loop relies on of the parser.\<close>

locale request_parser =
  fixes parse :: "bytes \<Rightarrow> resp_status option"
  assumes parse_defined: "parse buf \<noteq> None"
    and parse_empty: "parse [] = Some RESP_PARSE_INCOMPLETE"
    and parse_progress: "parse buf = Some (RESP_PARSE_OK argv n) \<Longrightarrow> 0 < n \<and> n \<le> length buf"
    and parse_local: "parse buf = Some (RESP_PARSE_OK argv n) \<Longrightarrow> n \<le> length buf' \<Longrightarrow>
      take n buf' = take n buf \<Longrightarrow> parse buf' = Some (RESP_PARSE_OK argv n)"
begin

lemma parse_append: "parse buf = Some (RESP_PARSE_OK argv n) \<Longrightarrow> parse (buf @ rest) = Some (RESP_PARSE_OK argv n)"
  using parse_progress [of buf argv n] by (auto elim: parse_local)

lemma drain_ok:
  assumes "parse buf = Some (RESP_PARSE_OK argv n)"
  shows "drain parse buf = (let (cs, r, e) = drain parse (drop n buf) in (argv # cs, r, e))"
  using assms parse_progress [OF assms] by (subst drain.simps) simp

text \<open>
  When the first part of a stream ends in an incomplete command, draining it and then the rest with
  the bytes left over gives the same commands, in the same order, as draining the whole stream.
\<close>

lemma drain_append:
  assumes "drain parse a = (cs, r, None)"
  shows "drain parse (a @ b) = (let (cs', r', e) = drain parse (r @ b) in (cs @ cs', r', e))"
  using assms
proof (induction "length a" arbitrary: a cs rule: less_induct)
  case less
  obtain st where st: "parse a = Some st" using parse_defined [of a] by blast
  show ?case
  proof (cases st)
    case (RESP_PARSE_OK argv n)
    with st have ok: "parse a = Some (RESP_PARSE_OK argv n)" by simp
    note p = parse_progress [OF ok]
    obtain cs1 where cs1: "drain parse (drop n a) = (cs1, r, None)" "cs = argv # cs1"
      using less.prems unfolding drain_ok [OF ok] by (auto simp: Let_def split: prod.splits)
    have "drain parse (drop n a @ b) = (let (cs', r', e) = drain parse (r @ b) in (cs1 @ cs', r', e))"
      by (rule less.hyps [OF _ cs1(1)]) (use p in auto)
    moreover have "drop n (a @ b) = drop n a @ b" using p by simp
    ultimately show ?thesis
      unfolding drain_ok [OF parse_append [OF ok]] cs1(2) by (simp add: Let_def split: prod.splits)
  next
    case RESP_PARSE_INCOMPLETE
    with st less.prems have "cs = [] \<and> r = a" by (subst (asm) drain.simps) simp
    then show ?thesis by (simp add: Let_def)
  next
    case (RESP_PARSE_ERROR e)
    with st less.prems show ?thesis by (subst (asm) drain.simps) simp
  qed
qed

text \<open>What is left over is a suffix of the input, and the commands consumed the rest.\<close>

lemma drain_suffix: "drain parse buf = (cs, r, e) \<Longrightarrow> \<exists>k \<le> length buf. r = drop k buf"
proof (induction "length buf" arbitrary: buf cs rule: less_induct)
  case less
  show ?case
  proof (cases "\<exists>argv n. parse buf = Some (RESP_PARSE_OK argv n)")
    case True
    then obtain argv n where ok: "parse buf = Some (RESP_PARSE_OK argv n)" by blast
    note p = parse_progress [OF ok]
    from less.prems obtain cs1 where cs1: "drain parse (drop n buf) = (cs1, r, e)"
      unfolding drain_ok [OF ok] by (auto simp: Let_def split: prod.splits)
    have "\<exists>k \<le> length (drop n buf). r = drop k (drop n buf)"
      by (rule less.hyps [OF _ cs1]) (use p in auto)
    then obtain k where "k \<le> length (drop n buf)" "r = drop k (drop n buf)" by blast
    then show ?thesis using p by (intro exI [of _ "k + n"]) auto
  next
    case False
    then have "r = buf" using less.prems
      by (subst (asm) drain.simps) (auto split: option.splits resp_status.splits)
    then show ?thesis by (intro exI [of _ 0]) simp
  qed
qed

end

interpretation resp: request_parser "resp_parse mem" for mem
proof
  show "resp_parse mem buf \<noteq> None" for buf
    using parse_multibulk_defined [of buf mem] parse_inline_defined [of mem buf]
    by (simp add: resp_parse_def del: not_None_eq)
  show "resp_parse mem [] = Some RESP_PARSE_INCOMPLETE" by (simp add: resp_parse_def)
  show "0 < n \<and> n \<le> length buf" if "resp_parse mem buf = Some (RESP_PARSE_OK argv n)" for buf argv n
    using resp_parse_agree [OF that] by simp
  show "resp_parse mem buf' = Some (RESP_PARSE_OK argv n)"
    if "resp_parse mem buf = Some (RESP_PARSE_OK argv n)" "n \<le> length buf'" "take n buf' = take n buf"
    for buf buf' argv n
    using resp_parse_agree [OF that(1)] that(2,3) by simp
qed

text \<open>A pipeline of encoded commands, the last one perhaps cut short, drains to the complete ones.\<close>

lemma drain_requests:
  assumes "list_all request_ok reqs" and "request_ok q" and "k < length (enc_request q)"
  shows "drain (resp_parse (\<lambda>_. True)) (concat (map enc_request reqs) @ take k (enc_request q)) =
    (reqs, take k (enc_request q), None)"
  using assms(1)
proof (induction reqs)
  case Nil
  then show ?case using resp_parse_prefix [OF assms(2,3)] by (subst drain.simps) simp
next
  case (Cons c reqs)
  have "resp_parse (\<lambda>_. True) (concat (map enc_request (c # reqs)) @ take k (enc_request q)) =
      Some (RESP_PARSE_OK c (length (enc_request c)))"
    using resp_parse_enc [of c "concat (map enc_request reqs) @ take k (enc_request q)"] Cons.prems by simp
  from resp.drain_ok [OF this] Cons show ?case by simp
qed

text \<open>The texts of the parser's errors are one-line strings.\<close>

definition line_text :: "bytes \<Rightarrow> bool" where
  "line_text s \<longleftrightarrow> NUL \<notin> set s \<and> CR \<notin> set s \<and> LF \<notin> set s"

lemma parse_bulks_error_text:
  "pos \<le> length buf \<Longrightarrow> parse_bulks mem buf left pos m argv = Some (RESP_PARSE_ERROR e) \<Longrightarrow> line_text e"
proof (induction left arbitrary: pos m argv)
  case 0
  then show ?case by simp
next
  case (Suc left)
  have IH: "line_text e" if "\<not> length buf < n" "parse_bulks mem buf left n m' argv' = Some (RESP_PARSE_ERROR e)" for n m' argv'
    using Suc.IH [of n m' argv'] that by simp
  show ?case
    using Suc.prems(2) unfolding parse_bulks_step [OF Suc.prems(1)]
    by (auto split: option.splits if_splits dest: IH simp: line_text_def [of "_ # _"])
qed

lemma resp_parse_error_text:
  assumes "resp_parse mem buf = Some (RESP_PARSE_ERROR e)"
  shows "line_text e"
proof -
  have ne: "buf \<noteq> []" using assms by (auto simp: resp_parse_def)
  show ?thesis
  proof (cases "hd buf = CHR ''*''")
    case True
    with ne assms have p: "parse_multibulk mem buf = Some (RESP_PARSE_ERROR e)" by (simp add: resp_parse_def)
    have "h + 2 \<le> length buf" if "find_crlf buf 0 = Some h" for h
      using find_crlf_Some(2) [OF that] by simp
    with p show ?thesis
      unfolding parse_multibulk_step [OF ne True]
      by (auto split: option.splits if_splits dest: parse_bulks_error_text simp: line_text_def [of "_ # _"])
  next
    case False
    with ne assms have "parse_inline mem buf = Some (RESP_PARSE_ERROR e)" by (simp add: resp_parse_def)
    then show ?thesis
      unfolding parse_inline_alt
      by (auto split: option.splits if_splits bind_splits simp: line_text_def)
  qed
qed

text \<open>A command has at most \<open>RESP_MAX_ARGC\<close> arguments or as many as its line has bytes.\<close>

lemma tokenize_length:
  "n \<le> length buf \<Longrightarrow> tokenize mem buf n p cap m argv = Some (Some r) \<Longrightarrow> length r \<le> length argv + (n - p)"
proof (induction "n - p" arbitrary: p cap m argv rule: less_induct)
  case less
  show ?case
  proof (cases "p < n \<and> tok_start buf n p < n")
    case True
    then have l: "n - tok_end buf n p < n - p" using tok_bounds [of buf n p] by linarith
    from less.prems(2) True obtain cap' m' d where
      "tokenize mem buf n (tok_end buf n p) cap' m' (argv @ [d]) = Some (Some r)"
      by (subst (asm) tokenize_step [OF less.prems(1)]) (auto simp: Let_def split: if_splits)
    from less.hyps [OF l less.prems(1) this] l show ?thesis by simp
  next
    case False
    with less.prems(2) show ?thesis by (subst (asm) tokenize_step [OF less.prems(1)]) (auto split: if_splits)
  qed
qed

lemma resp_parse_argc:
  assumes "resp_parse mem buf = Some (RESP_PARSE_OK argv n)"
  shows "int (length argv) \<le> max RESP_MAX_ARGC (int (length buf))"
proof -
  have ne: "buf \<noteq> []" using assms by (auto simp: resp_parse_def)
  show ?thesis
  proof (cases "hd buf = CHR ''*''")
    case True
    with ne assms have "parse_multibulk mem buf = Some (RESP_PARSE_OK argv n)" by (simp add: resp_parse_def)
    from parse_multibulk_agree [OF ne True this] have "int (length argv) \<le> RESP_MAX_ARGC" by blast
    then show ?thesis by linarith
  next
    case False
    with ne assms have "parse_inline mem buf = Some (RESP_PARSE_OK argv n)" by (simp add: resp_parse_def)
    then have "tokenize mem buf (inline_len buf) 0 8 1 [] = Some (Some argv)"
      unfolding parse_inline_alt by (auto split: option.splits if_splits bind_splits)
    moreover have "inline_len buf \<le> length buf" using inline_len_le inline_end_le le_trans by blast
    ultimately show ?thesis using tokenize_length [of "inline_len buf" buf mem 0 8 1 "[]" argv] by simp
  qed
qed

section \<open>Limits\<close>

lemma parse_bulks_args:
  assumes "parse_bulks mem buf left pos m argv = Some (RESP_PARSE_OK argv' n)" and "pos \<le> length buf"
    and "list_all (\<lambda>a. int (length a) \<le> RESP_MAX_BULK_LEN) argv" and "sum_list (map length argv) \<le> pos"
  shows "list_all (\<lambda>a. int (length a) \<le> RESP_MAX_BULK_LEN) argv' \<and> sum_list (map length argv') \<le> n"
  using assms
proof (induction left arbitrary: pos m argv)
  case 0
  then show ?case by simp
next
  case (Suc left)
  note step = Suc.prems(1) [unfolded parse_bulks_step [OF Suc.prems(2)]]
  from step obtain h blen where h: "find_crlf buf pos = Some h" and b: "bulk_hdr buf pos h = Some blen"
    by (auto split: option.splits if_splits)
  let ?e = "h + 2 + nat blen + 2" and ?a = "take (nat blen) (drop (h + 2) buf)"
  from step h b have c: "0 \<le> blen" "blen \<le> RESP_MAX_BULK_LEN" "?e \<le> length buf"
    and r: "parse_bulks mem buf left ?e (m + 1) (argv @ [?a]) = Some (RESP_PARSE_OK argv' n)"
    by (auto split: if_splits)
  have "int (length ?a) \<le> RESP_MAX_BULK_LEN" "length ?a \<le> nat blen" using c by auto
  then show ?case
    using Suc.prems(3,4) find_crlf_Some(1) [OF h] by (intro Suc.IH [OF r c(3)]) auto
qed

section \<open>Properties\<close>


text \<open>
  C23: parse after print: the multibulk encoding of any command within the limits parses to exactly its
  arguments, byte for byte, and consumes exactly the encoding, whatever follows it in the buffer.
\<close>

theorem request_roundtrip:
  assumes "request_ok argv"
  shows "resp_parse (\<lambda>_. True) (enc_request argv @ rest) = Some (RESP_PARSE_OK argv (length (enc_request argv)))"
  using assms by (rule resp_parse_enc)

theorem request_roundtrip_witness:
  "resp_parse (\<lambda>_. True) (enc_request [''GET'', [CR, LF, NUL]] @ ''*1'') =
     Some (RESP_PARSE_OK [''GET'', [CR, LF, NUL]] (length (enc_request [''GET'', [CR, LF, NUL]])))"
  by (rule request_roundtrip) (simp add: request_ok_def resp_limits)

text \<open>
  C24: every proper prefix of an encoded command is \<open>RESP_PARSE_INCOMPLETE\<close>: no client that sends
  whole commands is ever answered with a protocol error because of where its bytes were split.
\<close>

theorem request_prefix_incomplete:
  assumes "request_ok argv" and "k < length (enc_request argv)"
  shows "resp_parse (\<lambda>_. True) (take k (enc_request argv)) = Some RESP_PARSE_INCOMPLETE"
  using assms by (rule resp_parse_prefix)

theorem request_prefix_incomplete_witness:
  "resp_parse (\<lambda>_. True) (take 7 (enc_request [''PING''])) = Some RESP_PARSE_INCOMPLETE"
  by (rule request_prefix_incomplete) (simp_all add: request_ok_def resp_limits enc_request_def enc_bulk_def)

text \<open>
  The outcome of a complete parse depends only on the bytes it consumes: any buffer that starts with
  those bytes gives the same arguments and the same count.
\<close>

theorem resp_parse_local:
  assumes "resp_parse mem buf = Some (RESP_PARSE_OK argv n)"
    and "n \<le> length buf'" and "take n buf' = take n buf"
  shows "resp_parse mem buf' = Some (RESP_PARSE_OK argv n)"
  using assms by (rule resp.parse_local)

theorem resp_parse_local_witness:
  "resp_parse (\<lambda>_. True) (''PING'' @ [LF] @ ''GE'') = Some (RESP_PARSE_OK [''PING''] 5)"
proof (rule resp_parse_local)
  have "words ''PING'' = [''PING'']" by code_simp
  then show "resp_parse (\<lambda>_. True) (''PING'' @ LF # []) = Some (RESP_PARSE_OK [''PING''] 5)"
    using resp_parse_inline_line [of "''PING''" "[]"] by (simp add: strip_cr_def)
qed simp_all

text \<open>
  How a stream is cut into reads does not matter: if the first part drains without a protocol error,
  then draining it and later its leftover with the second part yields the same commands in the same
  order, the same leftover and the same error as draining everything at once.
\<close>

theorem drain_split:
  assumes "drain (resp_parse mem) a = (cs, r, None)"
  shows "drain (resp_parse mem) (a @ b) =
    (let (cs', r', e) = drain (resp_parse mem) (r @ b) in (cs @ cs', r', e))"
  using assms by (rule resp.drain_append)

theorem drain_split_witness:
  "drain (resp_parse (\<lambda>_. True)) (take 5 (enc_request [''PING'']) @ drop 5 (enc_request [''PING''])) =
   (let (cs', r', e) = drain (resp_parse (\<lambda>_. True)) (take 5 (enc_request [''PING'']) @ drop 5 (enc_request [''PING'']))
    in ([] @ cs', r', e))"
  by (rule drain_split, rule drain_requests [of "[]", simplified])
    (simp_all add: request_ok_def resp_limits enc_request_def enc_bulk_def)

text \<open>
  C25: a line without \<open>*\<close> in front is split at white space: the arguments are the maximal runs of
  other characters, in order, of the line before LF (and before one CR), a blank line has none, and
  exactly the line is consumed.
\<close>

theorem inline_tokens:
  assumes "LF \<notin> set line" and "line = [] \<or> hd line \<noteq> CHR ''*''"
  shows "resp_parse (\<lambda>_. True) (line @ LF # rest) =
    Some (RESP_PARSE_OK (words (strip_cr line)) (length line + 1))"
  using assms by (rule resp_parse_inline_line)

theorem inline_tokens_witness:
  "resp_parse (\<lambda>_. True) ('' SET  k v'' @ [CR] @ LF # ''x'') = Some (RESP_PARSE_OK [''SET'', ''k'', ''v''] 11)"
proof -
  have "words (strip_cr ('' SET  k v'' @ [CR])) = [''SET'', ''k'', ''v'']" by code_simp
  then show ?thesis using inline_tokens [of "'' SET  k v'' @ [CR]" "''x''"] by simp
qed

text \<open>
  What a multibulk request can make the server allocate is bounded before it is trusted: at most
  \<open>RESP_MAX_ARGC\<close> arguments, each of at most \<open>RESP_MAX_BULK_LEN\<close> bytes, and together no more bytes
  than the request itself had.
\<close>

theorem multibulk_limits:
  assumes "resp_parse mem buf = Some (RESP_PARSE_OK argv n)" and "buf \<noteq> []" and "hd buf = CHR ''*''"
  shows "0 < length argv \<and> int (length argv) \<le> RESP_MAX_ARGC \<and>
    list_all (\<lambda>a. int (length a) \<le> RESP_MAX_BULK_LEN) argv \<and> sum_list (map length argv) \<le> n"
proof -
  from assms have p: "parse_multibulk mem buf = Some (RESP_PARSE_OK argv n)" by (simp add: resp_parse_def)
  from p obtain h argc where h: "find_crlf buf 0 = Some h"
    and r: "parse_bulks mem buf (nat argc) (h + 2) 1 [] = Some (RESP_PARSE_OK argv n)"
    unfolding parse_multibulk_step [OF assms(2,3)] by (auto split: option.splits if_splits)
  have "h + 2 \<le> length buf" using find_crlf_Some(2) [OF h] by simp
  from parse_bulks_args [OF r this] parse_multibulk_agree [OF assms(2,3) p] show ?thesis by simp
qed

theorem multibulk_limits_witness:
  "0 < length [''PING''] \<and> int (length [''PING'']) \<le> RESP_MAX_ARGC \<and>
    list_all (\<lambda>a. int (length a) \<le> RESP_MAX_BULK_LEN) [''PING''] \<and>
    sum_list (map length [''PING'']) \<le> length (enc_request [''PING''])"
proof (rule multibulk_limits)
  show "resp_parse (\<lambda>_. True) (enc_request [''PING'']) =
      Some (RESP_PARSE_OK [''PING''] (length (enc_request [''PING''])))"
    using resp_parse_enc [of "[''PING'']" "[]"] by (simp add: request_ok_def resp_limits)
qed (simp_all add: enc_request_def)

text \<open>
  Each reply function appends exactly the encoding of its reply to the output buffer, with no write
  outside it and no read past a formatting array, whatever the buffer held.
\<close>

theorem replies_append_encoding:
  "appends (resp_reply_simple_string s) (enc_reply (Simple (cstr s))) \<and>
   appends (resp_reply_error s) (enc_reply (Err (cstr s))) \<and>
   (int64_ok v \<longrightarrow> appends (resp_reply_integer v) (enc_reply (Integer v))) \<and>
   appends (resp_reply_bulk_string d) (enc_reply (Bulk d)) \<and>
   appends resp_reply_null_bulk (enc_reply Null_Bulk) \<and>
   appends resp_reply_null_array (enc_reply Null_Array) \<and>
   appends (resp_reply_array_header n) (''*'' @ show_size n @ crlf)"
  by (intro conjI impI) (simp_all only: reply_simps)

theorem replies_append_encoding_witness:
  "appends (resp_reply_integer (- 42)) (enc_reply (Integer (- 42)))"
  using replies_append_encoding [of "[]" "- 42" "[]" 0] by (simp add: int64_defs)



text \<open>
  The limit on inline lines depends on how the line arrives: a line longer than
  \<open>RESP_MAX_INLINE_LEN\<close> is a protocol error when its LF has not been read yet, and an ordinary
  command when it has, so a prefix of an accepted command can be an error.
\<close>

theorem inline_limit_depends_on_arrival:
  assumes "LF \<notin> set line" and "hd line \<noteq> CHR ''*''" and "length line > RESP_MAX_INLINE_LEN"
  shows "resp_parse (\<lambda>_. True) line = Some (RESP_PARSE_ERROR ''ERR Protocol error: too big inline request'') \<and>
    resp_parse (\<lambda>_. True) (line @ [LF]) = Some (RESP_PARSE_OK (words (strip_cr line)) (length line + 1))"
  using assms resp_parse_inline_line [of line "[]"] by (auto simp: resp_parse_def parse_inline_alt)

theorem inline_limit_depends_on_arrival_witness:
  "resp_parse (\<lambda>_. True) (replicate 65537 (CHR ''a'')) =
    Some (RESP_PARSE_ERROR ''ERR Protocol error: too big inline request'')"
  using inline_limit_depends_on_arrival [of "replicate 65537 (CHR ''a'')"] by (simp add: resp_limits)

end
