(* ===== verification/KV_Spec.thy ===== *)
theory KV_Spec
  imports CLib
begin

text \<open>
  What \<open>include/store.h\<close> promises, without tables or chains: a store is a finite map from keys to a
  value and an absolute expiry time in milliseconds (0 for none). The locales state the contract
  of the operations over an abstraction function and an invariant; \<open>Store\<close> interprets them with
  the hash table, and the clients of the store (\<open>Cmd\<close>, \<open>Persist\<close>) prove their loops from them.
\<close>

type_synonym kv = "bytes \<rightharpoonup> bytes \<times> int"

text \<open>An entry is expired at \<open>now\<close> when it has an expiry and that is not in the future.\<close>

definition expired :: "int \<Rightarrow> int \<Rightarrow> bool" where
  "expired now x \<longleftrightarrow> x \<noteq> 0 \<and> x \<le> now"

definition live :: "int \<Rightarrow> kv \<Rightarrow> kv" where
  "live now m k = (case m k of None \<Rightarrow> None | Some (v, x) \<Rightarrow> if expired now x then None else Some (v, x))"

text \<open>The map after a lookup of \<open>k\<close>: an expired entry of \<open>k\<close> is gone, nothing else changes.\<close>

definition touch :: "int \<Rightarrow> kv \<Rightarrow> bytes \<Rightarrow> kv" where
  "touch now m k = m(k := live now m k)"

lemma live_empty [simp]: "live now Map.empty = Map.empty"
  by (rule ext) (simp add: live_def)

lemma touch_same [simp]: "touch now m k k = live now m k"
  by (simp add: touch_def)

lemma touch_other [simp]: "k' \<noteq> k \<Longrightarrow> touch now m k k' = m k'"
  by (simp add: touch_def)

lemma touch_live: "live now m k = m k \<Longrightarrow> touch now m k = m"
  by (simp add: touch_def fun_upd_idem)

lemma live_idem [simp]: "live now (live now m) = live now m"
  by (rule ext) (simp add: live_def split: option.splits)

lemma live_touch [simp]: "live now (touch now m k) = live now m"
  by (rule ext) (simp add: live_def touch_def split: option.splits)

lemma live_SomeD: "live now m k = Some (v, x) \<Longrightarrow> m k = Some (v, x) \<and> \<not> expired now x"
  by (auto simp: live_def split: option.splits if_splits)

lemma live_update [simp]:
  "live now (m(k \<mapsto> (v, x))) = (live now m)(k := if expired now x then None else Some (v, x))"
  by (rule ext) (simp add: live_def)

lemma live_delete [simp]: "live now (m(k := None)) = (live now m)(k := None)"
  by (rule ext) (simp add: live_def)

text \<open>A lookup is invisible to every later reading of the clock.\<close>

lemma live_touch_later: "now \<le> now' \<Longrightarrow> live now' (touch now m k) = live now' m"
  by (rule ext) (auto simp: live_def touch_def expired_def split: option.splits)

text \<open>Time only removes entries from the live part.\<close>

lemma live_later: "now \<le> now' \<Longrightarrow> live now' m \<subseteq>\<^sub>m live now m"
  by (auto simp: map_le_def live_def expired_def dom_def split: option.splits if_splits)

text \<open>A lookup of several keys, the i-th at the i-th reading of the clock.\<close>

fun touches :: "(nat \<Rightarrow> int) \<Rightarrow> nat \<Rightarrow> bytes list \<Rightarrow> kv \<Rightarrow> kv" where
  "touches clk i [] m = m"
| "touches clk i (k # ks) m = touches clk (i + 1) ks (touch (clk i) m k)"

fun lookups :: "(nat \<Rightarrow> int) \<Rightarrow> nat \<Rightarrow> bytes list \<Rightarrow> kv \<Rightarrow> bytes option list" where
  "lookups clk i [] m = []"
| "lookups clk i (k # ks) m = map_option fst (live (clk i) m k) # lookups clk (i + 1) ks (touch (clk i) m k)"

lemma length_lookups [simp]: "length (lookups clk i ks m) = length ks"
  by (induction ks arbitrary: i m) simp_all

text \<open>When the clock does not run backwards, each lookup sees the original map.\<close>

lemma lookups_mono:
  assumes "mono clk"
  shows "lookups clk i ks m = map (\<lambda>(j, k). map_option fst (live (clk j) m k)) (enumerate i ks)"
proof -
  have "lookups clk i ks m' = map (\<lambda>(j, k). map_option fst (live (clk j) m k)) (enumerate i ks)"
    if "\<And>j. i \<le> j \<Longrightarrow> live (clk j) m' = live (clk j) m" for m'
    using that
  proof (induction ks arbitrary: i m')
    case Nil
    then show ?case by simp
  next
    case (Cons k ks)
    have "live (clk j) (touch (clk i) m' k) = live (clk j) m" if "i + 1 \<le> j" for j
      using live_touch_later [OF monoD [OF assms, of i j]] Cons.prems [of j] that by simp
    from Cons.IH [OF this] Cons.prems [of i] show ?case by simp
  qed
  then show ?thesis by simp
qed

locale kv_store =
  fixes invar :: "'s \<Rightarrow> bool"
    and absm :: "'s \<Rightarrow> kv"
    and new :: 's
    and count :: "'s \<Rightarrow> nat"
    and set_op :: "'s \<Rightarrow> bytes \<Rightarrow> bytes \<Rightarrow> int \<Rightarrow> int \<times> 's"
    and get_op :: "int \<Rightarrow> 's \<Rightarrow> bytes \<Rightarrow> bytes option \<times> 's"
    and exists_op :: "int \<Rightarrow> 's \<Rightarrow> bytes \<Rightarrow> int \<times> 's"
    and del_op :: "'s \<Rightarrow> bytes \<Rightarrow> int \<times> 's"
  assumes new_invar: "invar new"
    and new_abs: "absm new = Map.empty"
    and count_abs: "invar s \<Longrightarrow> count s = card (dom (absm s))"
    and finite_abs: "invar s \<Longrightarrow> finite (dom (absm s))"
    and set_invar: "invar s \<Longrightarrow> invar (snd (set_op s k v x))"
    and set_abs: "invar s \<Longrightarrow> absm (snd (set_op s k v x)) = (absm s)(k \<mapsto> (v, x))"
    and set_ret: "invar s \<Longrightarrow> fst (set_op s k v x) = (if k \<in> dom (absm s) then 0 else 1)"
    and get_invar: "invar s \<Longrightarrow> invar (snd (get_op now s k))"
    and get_abs: "invar s \<Longrightarrow> absm (snd (get_op now s k)) = touch now (absm s) k"
    and get_ret: "invar s \<Longrightarrow> fst (get_op now s k) = map_option fst (live now (absm s) k)"
    and exists_invar: "invar s \<Longrightarrow> invar (snd (exists_op now s k))"
    and exists_abs: "invar s \<Longrightarrow> absm (snd (exists_op now s k)) = touch now (absm s) k"
    and exists_ret: "invar s \<Longrightarrow> fst (exists_op now s k) = (if k \<in> dom (live now (absm s)) then 1 else 0)"
    and del_invar: "invar s \<Longrightarrow> invar (snd (del_op s k))"
    and del_abs: "invar s \<Longrightarrow> absm (snd (del_op s k)) = (absm s)(k := None)"
    and del_ret: "invar s \<Longrightarrow> fst (del_op s k) = (if k \<in> dom (absm s) then 1 else 0)"
begin

lemmas set_laws = set_invar set_abs set_ret
lemmas get_laws = get_invar get_abs get_ret
lemmas exists_laws = exists_invar exists_abs exists_ret
lemmas del_laws = del_invar del_abs del_ret

text \<open>Reading a key back after a write, and reading another key.\<close>

lemma get_after_set:
  assumes "invar s"
  shows "fst (get_op now (snd (set_op s k v x)) k) = (if expired now x then None else Some v)"
  using assms by (simp add: set_laws get_laws)

lemma get_other_after_set:
  assumes "invar s" and "k' \<noteq> k"
  shows "fst (get_op now (snd (set_op s k v x)) k') = fst (get_op now s k')"
  using assms by (simp add: set_laws get_laws)

lemma get_after_del:
  assumes "invar s"
  shows "fst (get_op now (snd (del_op s k)) k) = None"
  using assms by (simp add: del_laws get_laws)

text \<open>A lookup changes the answer of no later lookup at the same or a later time.\<close>

lemma get_stable:
  assumes "invar s" and "now \<le> now'"
  shows "fst (get_op now' (snd (get_op now s k)) k') = fst (get_op now' s k')"
proof -
  have "live now' (touch now (absm s) k) k' = live now' (absm s) k'"
    using assms(2) by (cases "k' = k") (auto simp: live_def touch_def expired_def split: option.splits)
  then show ?thesis using assms(1) by (simp add: get_laws)
qed

text \<open>A whole list of writes is the list of map updates, in order.\<close>

lemma set_many:
  assumes "invar s"
  shows "invar (fold (\<lambda>(k, v, x) s. snd (set_op s k v x)) es s) \<and>
         absm (fold (\<lambda>(k, v, x) s. snd (set_op s k v x)) es s) = absm s ++ map_of (rev es)"
  using assms
proof (induction es arbitrary: s)
  case Nil
  then show ?case by simp
next
  case (Cons e es)
  obtain k v x where e: "e = (k, v, x)" by (cases e)
  from Cons.prems have "invar (snd (set_op s k v x))" by (rule set_invar)
  from Cons.IH [OF this] Cons.prems show ?case by (simp add: e set_abs map_add_upd_left map_add_def)
     (auto simp: fun_eq_iff map_add_def split: option.splits)
qed

end

end
