(* ===== verification/Store.thy ===== *)
theory Store
  imports KV_Spec
begin

text \<open>
  The storage engine, \<open>src/store.c\<close> and \<open>include/store.h\<close>: a separate-chaining hash table with
  power-of-two sizes, two tables while a rehash is in progress, lazy expiry and INCR/DECR.

  A chain of \<open>store_entry_t\<close> linked through \<open>next\<close> is the list of its entries; \<open>key\<close> with
  \<open>key_len\<close> (and \<open>val\<close> with \<open>val_len\<close>) is one byte list. A slot (the \<open>store_entry_t **\<close> of the
  code) is the pair of a bucket index and a position in that bucket's chain. The counters of
  objects in memory (\<open>size\<close>, \<open>mask\<close>, \<open>used\<close>) are natural numbers, since a table cannot hold
  \<open>2 ^ 64\<close> entries; the hash and the masking with \<open>mask\<close> are 64-bit words. Every reading of the clock
  is an argument. Allocation succeeds, as the code does not test it.
\<close>

section \<open>Data\<close>

record store_entry =
  e_key :: bytes
  e_val :: bytes
  e_expire_at_ms :: int

record store_table =
  t_buckets :: "store_entry list list"
  t_size :: nat
  t_mask :: nat
  t_used :: nat

record store =
  ht0 :: store_table
  ht1 :: store_table
  rehash_idx :: int

datatype table_id = HT0 | HT1

type_synonym slot = "nat \<times> nat"

datatype store_incr_status = STORE_INCR_OK | STORE_INCR_NOT_INTEGER | STORE_INCR_OVERFLOW

definition STORE_INITIAL_SIZE :: nat where "STORE_INITIAL_SIZE = 4"
definition REHASH_EMPTY_VISITS_LIMIT :: nat where "REHASH_EMPTY_VISITS_LIMIT = 10"
definition STORE_TTL_NO_KEY :: int where "STORE_TTL_NO_KEY = - 2"
definition STORE_TTL_NO_EXPIRY :: int where "STORE_TTL_NO_EXPIRY = - 1"

section \<open>Small helpers\<close>

definition fnv1a_hash :: "bytes \<Rightarrow> u64" where
  "fnv1a_hash d = foldl (\<lambda>h c. (h XOR of_char c) * 0x100000001b3) 0xcbf29ce484222325 d"

definition next_pow2 :: "nat \<Rightarrow> nat" where
  "next_pow2 n = double_until n 1"

definition table_init :: "nat \<Rightarrow> store_table" where
  "table_init n = \<lparr>t_buckets = replicate n [], t_size = n,
     t_mask = (if n \<noteq> 0 then n - 1 else 0), t_used = 0\<rparr>"

definition is_rehashing :: "store \<Rightarrow> bool" where
  "is_rehashing s \<longleftrightarrow> rehash_idx s \<noteq> - 1"

text \<open>The index expression \<open>h & t->mask\<close>.\<close>

definition bucket_ix :: "store_table \<Rightarrow> u64 \<Rightarrow> nat" where
  "bucket_ix t h = unat (h AND of_nat (t_mask t))"

text \<open>The walk along one chain: key lengths are compared first, then the bytes.\<close>

fun find_in_chain :: "bytes \<Rightarrow> nat \<Rightarrow> store_entry list \<Rightarrow> nat option" where
  "find_in_chain k i [] = None"
| "find_in_chain k i (e # es) =
     (if length (e_key e) = length k \<and> e_key e = k then Some i else find_in_chain k (Suc i) es)"

definition find_in_table :: "store_table \<Rightarrow> bytes \<Rightarrow> u64 \<Rightarrow> slot option" where
  "find_in_table t k h =
     (if t_size t = 0 then None
      else map_option (Pair (bucket_ix t h)) (find_in_chain k 0 (t_buckets t ! bucket_ix t h)))"

definition find_slot_either :: "store \<Rightarrow> bytes \<Rightarrow> u64 \<Rightarrow> (table_id \<times> slot) option" where
  "find_slot_either s k h =
     (case find_in_table (ht0 s) k h of
        Some sl \<Rightarrow> Some (HT0, sl)
      | None \<Rightarrow> if is_rehashing s then map_option (Pair HT1) (find_in_table (ht1 s) k h) else None)"

text \<open>Access through a slot: \<open>*slot\<close>, writing the entry's fields, and \<open>*slot = e->next\<close> with \<open>used--\<close>.\<close>

definition slot_entry :: "store_table \<Rightarrow> slot \<Rightarrow> store_entry" where
  "slot_entry t sl = t_buckets t ! fst sl ! snd sl"

definition slot_put :: "store_table \<Rightarrow> slot \<Rightarrow> store_entry \<Rightarrow> store_table" where
  "slot_put t sl e =
     t\<lparr>t_buckets := (t_buckets t)[fst sl := (t_buckets t ! fst sl)[snd sl := e]]\<rparr>"

definition slot_unlink :: "store_table \<Rightarrow> slot \<Rightarrow> store_table" where
  "slot_unlink t sl =
     (let chain = t_buckets t ! fst sl in
      t\<lparr>t_buckets := (t_buckets t)[fst sl := take (snd sl) chain @ drop (Suc (snd sl)) chain],
        t_used := t_used t - 1\<rparr>)"

fun the_ht :: "table_id \<Rightarrow> store \<Rightarrow> store_table" where
  "the_ht HT0 s = ht0 s"
| "the_ht HT1 s = ht1 s"

fun with_ht :: "table_id \<Rightarrow> store \<Rightarrow> store_table \<Rightarrow> store" where
  "with_ht HT0 s t = s\<lparr>ht0 := t\<rparr>"
| "with_ht HT1 s t = s\<lparr>ht1 := t\<rparr>"

text \<open>\<open>locate_live\<close>: the slot of a live entry, after unlinking the entry if it has expired.\<close>

definition locate_live :: "int \<Rightarrow> store \<Rightarrow> bytes \<Rightarrow> (table_id \<times> slot) option \<times> store" where
  "locate_live now s k =
     (case find_slot_either s k (fnv1a_hash k) of
        None \<Rightarrow> (None, s)
      | Some (t, sl) \<Rightarrow>
          let e = slot_entry (the_ht t s) sl in
          if e_expire_at_ms e \<noteq> 0 \<and> e_expire_at_ms e \<le> now
          then (None, with_ht t s (slot_unlink (the_ht t s) sl))
          else (Some (t, sl), s))"

section \<open>Incremental rehashing\<close>

text \<open>The link of a new or migrated entry at the head of its bucket, with \<open>used++\<close>.\<close>

definition push_entry :: "store_table \<Rightarrow> u64 \<Rightarrow> store_entry \<Rightarrow> store_table" where
  "push_entry t h e =
     t\<lparr>t_buckets := (t_buckets t)[bucket_ix t h := e # t_buckets t ! bucket_ix t h],
       t_used := t_used t + 1\<rparr>"

fun migrate_chain :: "store_entry list \<Rightarrow> store_table \<times> store_table \<Rightarrow> store_table \<times> store_table" where
  "migrate_chain [] (src, dst) = (src, dst)"
| "migrate_chain (e # es) (src, dst) =
     migrate_chain es (src\<lparr>t_used := t_used src - 1\<rparr>, push_entry dst (fnv1a_hash (e_key e)) e)"

function rehash_scan :: "nat \<Rightarrow> store \<Rightarrow> store" where
  "rehash_scan empty_visits s =
     (if empty_visits < REHASH_EMPTY_VISITS_LIMIT \<and> nat (rehash_idx s) < t_size (ht0 s) then
        (let e = t_buckets (ht0 s) ! nat (rehash_idx s) in
         if e = [] then rehash_scan (Suc empty_visits) (s\<lparr>rehash_idx := rehash_idx s + 1\<rparr>)
         else
           (let (src, dst) = migrate_chain e (ht0 s, ht1 s) in
            s\<lparr>ht0 := src\<lparr>t_buckets := (t_buckets src)[nat (rehash_idx s) := []]\<rparr>,
              ht1 := dst, rehash_idx := rehash_idx s + 1\<rparr>))
      else s)"
  by pat_completeness auto
termination
  by (relation "measure (\<lambda>(v, s). REHASH_EMPTY_VISITS_LIMIT - v)") auto

declare rehash_scan.simps [simp del]

definition rehash_step :: "store \<Rightarrow> store" where
  "rehash_step s =
     (if \<not> is_rehashing s then s
      else
        (let s1 = rehash_scan 0 s in
         if t_size (ht0 s1) \<le> nat (rehash_idx s1)
         then s1\<lparr>ht0 := ht1 s1, ht1 := table_init 0, rehash_idx := - 1\<rparr>
         else s1))"

definition maybe_start_rehash :: "store \<Rightarrow> store" where
  "maybe_start_rehash s =
     (if is_rehashing s then s
      else if t_used (ht0 s) < t_size (ht0 s) then s
      else s\<lparr>ht1 := table_init (next_pow2 (t_size (ht0 s) * 2)), rehash_idx := 0\<rparr>)"

section \<open>Public operations\<close>

definition store_create :: store where
  "store_create = \<lparr>ht0 = table_init STORE_INITIAL_SIZE, ht1 = table_init 0, rehash_idx = - 1\<rparr>"

text \<open>The entries handed to \<open>free_entry\<close>, in order.\<close>

definition table_free_entries :: "store_table \<Rightarrow> store_entry list" where
  "table_free_entries t = (if t_size t = 0 then [] else concat (take (t_size t) (t_buckets t)))"

definition store_destroy :: "store \<Rightarrow> store_entry list" where
  "store_destroy s = table_free_entries (ht0 s) @ table_free_entries (ht1 s)"

definition store_size :: "store \<Rightarrow> nat" where
  "store_size s = t_used (ht0 s) + t_used (ht1 s)"

definition store_is_rehashing :: "store \<Rightarrow> bool" where
  "store_is_rehashing s = is_rehashing s"

text \<open>The insertion branch of \<open>store_set\<close>: link into the table inserts go to, then perhaps grow.\<close>

definition store_insert :: "store \<Rightarrow> u64 \<Rightarrow> store_entry \<Rightarrow> store" where
  "store_insert s h e =
     (let target = (if is_rehashing s then HT1 else HT0);
          s' = with_ht target s (push_entry (the_ht target s) h e)
      in if \<not> is_rehashing s' then maybe_start_rehash s' else s')"

definition store_set :: "store \<Rightarrow> bytes \<Rightarrow> bytes \<Rightarrow> int \<Rightarrow> int \<times> store" where
  "store_set s0 k v expire_at_ms =
     (let s = rehash_step s0;
          h = fnv1a_hash k
      in case find_slot_either s k h of
           Some (t, sl) \<Rightarrow>
             (0, with_ht t s (slot_put (the_ht t s) sl
                   ((slot_entry (the_ht t s) sl)\<lparr>e_val := v, e_expire_at_ms := expire_at_ms\<rparr>)))
         | None \<Rightarrow>
             (1, store_insert s h \<lparr>e_key = k, e_val = v, e_expire_at_ms = expire_at_ms\<rparr>))"

definition store_get :: "int \<Rightarrow> store \<Rightarrow> bytes \<Rightarrow> bytes option \<times> store" where
  "store_get now s k =
     (case locate_live now (rehash_step s) k of
        (None, s') \<Rightarrow> (None, s')
      | (Some (t, sl), s') \<Rightarrow> (Some (e_val (slot_entry (the_ht t s') sl)), s'))"

definition store_exists :: "int \<Rightarrow> store \<Rightarrow> bytes \<Rightarrow> int \<times> store" where
  "store_exists now s k =
     (case locate_live now (rehash_step s) k of
        (None, s') \<Rightarrow> (0, s')
      | (Some _, s') \<Rightarrow> (1, s'))"

definition store_del :: "store \<Rightarrow> bytes \<Rightarrow> int \<times> store" where
  "store_del s0 k =
     (let s = rehash_step s0 in
      case find_slot_either s k (fnv1a_hash k) of
        None \<Rightarrow> (0, s)
      | Some (t, sl) \<Rightarrow> (1, with_ht t s (slot_unlink (the_ht t s) sl)))"

definition store_expire :: "int \<Rightarrow> store \<Rightarrow> bytes \<Rightarrow> int \<Rightarrow> int \<times> store" where
  "store_expire now s k expire_at_ms =
     (case locate_live now (rehash_step s) k of
        (None, s') \<Rightarrow> (0, s')
      | (Some (t, sl), s') \<Rightarrow>
          (1, with_ht t s' (slot_put (the_ht t s') sl
                ((slot_entry (the_ht t s') sl)\<lparr>e_expire_at_ms := expire_at_ms\<rparr>))))"

text \<open>
  \<open>store_ttl_ms\<close> reads the clock twice: \<open>now\<close> in \<open>locate_live\<close> and \<open>now'\<close> for the difference, a
  signed subtraction.
\<close>

definition store_ttl_ms :: "int \<Rightarrow> int \<Rightarrow> store \<Rightarrow> bytes \<Rightarrow> (int \<times> store) option" where
  "store_ttl_ms now now' s k =
     (case locate_live now (rehash_step s) k of
        (None, s') \<Rightarrow> Some (STORE_TTL_NO_KEY, s')
      | (Some (t, sl), s') \<Rightarrow>
          let e = slot_entry (the_ht t s') sl in
          if e_expire_at_ms e = 0 then Some (STORE_TTL_NO_EXPIRY, s')
          else do {
            remaining \<leftarrow> i64 (e_expire_at_ms e - now');
            Some (if remaining > 0 then remaining else 0, s')
          })"

definition parse_strict_ll :: "bytes \<Rightarrow> int option" where
  "parse_strict_ll s =
     (if length s = 0 \<or> length s > 20 then None
      else
        (let buf = s @ [NUL] in
         if isspace (hd buf) then None
         else case strtoll buf of (v, endptr, erange) \<Rightarrow>
           if erange then None
           else if endptr \<noteq> length s then None
           else Some v))"

definition store_incrby ::
    "int \<Rightarrow> store \<Rightarrow> bytes \<Rightarrow> int \<Rightarrow> (store_incr_status \<times> int \<times> store) option" where
  "store_incrby now s0 k delta =
     (case locate_live now (rehash_step s0) k of (found, s) \<Rightarrow>
      (case (case found of
               None \<Rightarrow> Some 0
             | Some (t, sl) \<Rightarrow> parse_strict_ll (e_val (slot_entry (the_ht t s) sl))) of
         None \<Rightarrow> Some (STORE_INCR_NOT_INTEGER, 0, s)
       | Some current \<Rightarrow>
           if (delta > 0 \<and> current > INT64_MAX - delta) \<or> (delta < 0 \<and> current < INT64_MIN - delta)
           then Some (STORE_INCR_OVERFLOW, 0, s)
           else do {
             result \<leftarrow> i64 (current + delta);
             let buf = snprintf 32 (show_int result);
             Some (STORE_INCR_OK, result,
               (case found of
                  Some (t, sl) \<Rightarrow>
                    with_ht t s (slot_put (the_ht t s) sl ((slot_entry (the_ht t s) sl)\<lparr>e_val := buf\<rparr>))
                | None \<Rightarrow> snd (store_set s k buf 0)))
           }))"

section \<open>Bulk operations\<close>

definition store_flush :: "store \<Rightarrow> nat \<times> store" where
  "store_flush s =
     (store_size s, s\<lparr>ht0 := table_init STORE_INITIAL_SIZE, ht1 := table_init 0, rehash_idx := - 1\<rparr>)"

fun visit_chain ::
    "int \<Rightarrow> (bytes \<Rightarrow> bytes \<Rightarrow> int \<Rightarrow> 'u \<Rightarrow> 'u) \<Rightarrow> store_entry list \<Rightarrow> 'u \<Rightarrow> 'u" where
  "visit_chain now f [] ud = ud"
| "visit_chain now f (e # es) ud =
     visit_chain now f es
       (if e_expire_at_ms e = 0 \<or> e_expire_at_ms e > now
        then f (e_key e) (e_val e) (e_expire_at_ms e) ud else ud)"

definition visit_table ::
    "int \<Rightarrow> (bytes \<Rightarrow> bytes \<Rightarrow> int \<Rightarrow> 'u \<Rightarrow> 'u) \<Rightarrow> store_table \<Rightarrow> 'u \<Rightarrow> 'u" where
  "visit_table now f t ud = fold (\<lambda>i. visit_chain now f (t_buckets t ! i)) [0..<t_size t] ud"

definition store_foreach ::
    "int \<Rightarrow> store \<Rightarrow> (bytes \<Rightarrow> bytes \<Rightarrow> int \<Rightarrow> 'u \<Rightarrow> 'u) \<Rightarrow> 'u \<Rightarrow> 'u" where
  "store_foreach now s f ud = visit_table now f (ht1 s) (visit_table now f (ht0 s) ud)"

section \<open>Abstraction and invariant\<close>

definition table_entries :: "store_table \<Rightarrow> store_entry list" where
  "table_entries t = concat (t_buckets t)"

definition store_entries :: "store \<Rightarrow> store_entry list" where
  "store_entries s = table_entries (ht0 s) @ table_entries (ht1 s)"

definition entry_kv :: "store_entry \<Rightarrow> bytes \<times> bytes \<times> int" where
  "entry_kv e = (e_key e, e_val e, e_expire_at_ms e)"

definition entries_map :: "store_entry list \<Rightarrow> kv" where
  "entries_map es = map_of (map entry_kv es)"

definition store_abs :: "store \<Rightarrow> kv" where
  "store_abs s = entries_map (store_entries s)"

text \<open>
  One table: the array has \<open>size\<close> buckets, \<open>size\<close> is a power of two and \<open>mask\<close> is \<open>size - 1\<close>, \<open>used\<close>
  counts the entries, and every entry hangs in the bucket its hash selects.
\<close>

definition table_inv :: "store_table \<Rightarrow> bool" where
  "table_inv t \<longleftrightarrow>
     length (t_buckets t) = t_size t \<and> (\<exists>j. t_size t = 2 ^ j) \<and> t_mask t = t_size t - 1 \<and>
     t_used t = length (table_entries t) \<and>
     (\<forall>i < t_size t. \<forall>e \<in> set (t_buckets t ! i). bucket_ix t (fnv1a_hash (e_key e)) = i)"

text \<open>
  While rehashing: both tables are well formed, the new one is twice the old one, the buckets
  below the cursor are empty, and no key occurs twice over both tables.
\<close>

definition rehash_inv :: "store \<Rightarrow> bool" where
  "rehash_inv s \<longleftrightarrow>
     table_inv (ht0 s) \<and> table_inv (ht1 s) \<and> distinct (map e_key (store_entries s)) \<and>
     0 \<le> rehash_idx s \<and> nat (rehash_idx s) \<le> t_size (ht0 s) \<and>
     t_size (ht1 s) = 2 * t_size (ht0 s) \<and>
     (\<forall>i < nat (rehash_idx s). t_buckets (ht0 s) ! i = [])"

text \<open>
  The invariant between public calls. Outside a rehash the table is not full; during one the
  number of entries is at most the old size plus the cursor, which is what bounds the load of the
  new table once the cursor arrives.
\<close>

definition store_inv :: "store \<Rightarrow> bool" where
  "store_inv s \<longleftrightarrow>
     (if is_rehashing s
      then rehash_inv s \<and> nat (rehash_idx s) < t_size (ht0 s) \<and>
           length (store_entries s) \<le> t_size (ht0 s) + nat (rehash_idx s)
      else table_inv (ht0 s) \<and> ht1 s = table_init 0 \<and> distinct (map e_key (store_entries s)) \<and>
           length (store_entries s) < t_size (ht0 s))"

text \<open>The room one more entry needs; \<open>rehash_step\<close> makes it.\<close>

definition store_room :: "store \<Rightarrow> bool" where
  "store_room s \<longleftrightarrow>
     length (store_entries s) < t_size (ht0 s) + (if is_rehashing s then nat (rehash_idx s) else 0)"

section \<open>Entry lists as maps\<close>

lemma fst_entry_kv [simp]: "fst (entry_kv e) = e_key e"
  by (simp add: entry_kv_def)

lemma entry_kv_comp [simp]: "fst \<circ> entry_kv = e_key"
  by (rule ext) simp

lemma snd_entry_kv [simp]: "snd (entry_kv e) = (e_val e, e_expire_at_ms e)"
  by (simp add: entry_kv_def)

lemma entries_map_None: "entries_map es k = None \<longleftrightarrow> k \<notin> e_key ` set es"
  by (auto simp: entries_map_def map_of_eq_None_iff image_image)

lemma dom_entries_map: "dom (entries_map es) = e_key ` set es"
  by (simp add: entries_map_def dom_map_of_conv_image_fst image_image)

lemma entries_map_Nil [simp]: "entries_map [] = Map.empty"
  by (simp add: entries_map_def)

lemma entries_map_Cons [simp]:
  "entries_map (e # es) = (entries_map es)(e_key e \<mapsto> (e_val e, e_expire_at_ms e))"
  by (simp add: entries_map_def entry_kv_def)

lemma entries_map_append [simp]: "entries_map (A @ B) = entries_map B ++ entries_map A"
  by (simp add: entries_map_def)

lemma entries_map_mset_cong:
  assumes "mset es = mset es'" and "distinct (map e_key es)"
  shows "entries_map es = entries_map es'"
proof -
  have "set (map entry_kv es) = set (map entry_kv es')"
    using assms(1) by (metis mset_map set_mset_mset)
  moreover have "distinct (map e_key es')"
    using assms distinct_map_mset_cong by blast
  ultimately show ?thesis using assms(2)
    by (simp add: entries_map_def map_of_inject_set del: set_map)
qed

lemma entries_map_remove:
  assumes "distinct (map e_key (A @ e # B))"
  shows "entries_map (A @ B) = (entries_map (A @ e # B))(e_key e := None)"
proof -
  have "entries_map A (e_key e) = None" "entries_map B (e_key e) = None"
    using assms by (auto simp: entries_map_None)
  then show ?thesis by (auto simp: fun_eq_iff map_add_def split: option.splits)
qed

lemma entries_map_insert:
  assumes "e_key e \<notin> e_key ` set (A @ B)"
  shows "entries_map (A @ e # B) = (entries_map (A @ B))(e_key e \<mapsto> (e_val e, e_expire_at_ms e))"
proof -
  have "entries_map A (e_key e) = None" using assms by (auto simp: entries_map_None)
  then show ?thesis by (auto simp: fun_eq_iff map_add_def split: option.splits)
qed

lemma entries_map_replace:
  assumes "distinct (map e_key (A @ e # B))" and "e_key e' = e_key e"
  shows "entries_map (A @ e' # B) = (entries_map (A @ e # B))(e_key e \<mapsto> (e_val e', e_expire_at_ms e'))"
proof -
  have "e_key e' \<notin> e_key ` set (A @ B)" using assms by auto
  from entries_map_insert [OF this] entries_map_remove [OF assms(1)] assms(2)
  show ?thesis by (simp del: entries_map_append)
qed

lemma entries_map_at:
  assumes "distinct (map e_key (A @ e # B))"
  shows "entries_map (A @ e # B) (e_key e) = Some (e_val e, e_expire_at_ms e)"
  using entries_map_replace [OF assms refl] by (metis fun_upd_same)

section \<open>One table\<close>

lemma table_invD:
  assumes "table_inv t"
  shows table_inv_length: "length (t_buckets t) = t_size t"
    and table_inv_mask: "t_mask t = t_size t - 1"
    and table_inv_used: "t_used t = length (table_entries t)"
    and table_inv_bucket: "i < t_size t \<Longrightarrow> e \<in> set (t_buckets t ! i) \<Longrightarrow> bucket_ix t (fnv1a_hash (e_key e)) = i"
    and table_inv_pos: "0 < t_size t"
  using assms by (auto simp: table_inv_def)

lemma bucket_ix_mod: "table_inv t \<Longrightarrow> bucket_ix t h = unat h mod t_size t"
  unfolding bucket_ix_def using and_mask_mod [of h] by (metis table_inv_def)

lemma bucket_ix_less [simp]: "table_inv t \<Longrightarrow> bucket_ix t h < t_size t"
  by (simp add: bucket_ix_mod table_inv_pos)

lemma bucket_ix_mask_cong: "t_mask t = t_mask t' \<Longrightarrow> bucket_ix t = bucket_ix t'"
  by (rule ext) (simp add: bucket_ix_def)

lemma table_entries_init [simp]: "table_entries (table_init n) = []"
  by (simp add: table_entries_def table_init_def)

lemma t_used_init [simp]: "t_used (table_init n) = 0" and t_size_init [simp]: "t_size (table_init n) = n"
  by (simp_all add: table_init_def)

lemma table_inv_init: "table_inv (table_init (2 ^ j))"
  by (auto simp: table_inv_def table_init_def table_entries_def)

lemma find_in_chain_None: "find_in_chain k i es = None \<longleftrightarrow> k \<notin> e_key ` set es"
  by (induction es arbitrary: i) auto

lemma find_in_chain_Some:
  "find_in_chain k i es = Some j \<Longrightarrow> i \<le> j \<and> j - i < length es \<and> e_key (es ! (j - i)) = k"
proof (induction es arbitrary: i)
  case Nil
  then show ?case by simp
next
  case (Cons e es)
  show ?case
  proof (cases "e_key e = k")
    case True
    with Cons.prems show ?thesis by simp
  next
    case False
    with Cons.prems have "find_in_chain k (Suc i) es = Some j" by simp
    from Cons.IH [OF this] show ?thesis by (auto simp: Suc_le_eq nth_Cons' less_diff_conv)
  qed
qed

text \<open>A key of the table is in the chain its hash selects, so searching that chain is enough.\<close>

lemma in_table_entries_bucket:
  assumes "table_inv t" and "e \<in> set (table_entries t)"
  shows "e \<in> set (t_buckets t ! bucket_ix t (fnv1a_hash (e_key e)))"
proof -
  from assms(2) obtain c where "c \<in> set (t_buckets t)" "e \<in> set c" by (auto simp: table_entries_def)
  then obtain i where i: "i < t_size t" "e \<in> set (t_buckets t ! i)"
    using table_inv_length [OF assms(1)] by (auto simp: in_set_conv_nth)
  with table_inv_bucket [OF assms(1)] show ?thesis by auto
qed

lemma find_in_table_None:
  assumes "table_inv t"
  shows "find_in_table t k (fnv1a_hash k) = None \<longleftrightarrow> k \<notin> e_key ` set (table_entries t)"
proof -
  let ?c = "t_buckets t ! bucket_ix t (fnv1a_hash k)"
  have "?c \<in> set (t_buckets t)" using assms by (simp add: table_inv_length)
  then have "set ?c \<subseteq> set (table_entries t)" by (auto simp: table_entries_def)
  then have "k \<in> e_key ` set ?c \<longleftrightarrow> k \<in> e_key ` set (table_entries t)"
    using in_table_entries_bucket [OF assms] by auto
  then show ?thesis using table_inv_pos [OF assms]
    by (simp add: find_in_table_def find_in_chain_None)
qed

text \<open>
  A slot the search returned: its entry has the key, and unlinking or overwriting through the slot
  changes exactly that entry and keeps the table well formed.
\<close>

lemma find_in_table_Some:
  assumes inv: "table_inv t" and f: "find_in_table t k (fnv1a_hash k) = Some sl"
  shows "fst sl = bucket_ix t (fnv1a_hash k) \<and> fst sl < t_size t \<and>
    snd sl < length (t_buckets t ! fst sl) \<and> e_key (slot_entry t sl) = k"
proof -
  from f obtain i where sl: "sl = (bucket_ix t (fnv1a_hash k), i)"
    and i: "find_in_chain k 0 (t_buckets t ! bucket_ix t (fnv1a_hash k)) = Some i"
    by (auto simp: find_in_table_def split: if_splits)
  from find_in_chain_Some [OF i] inv show ?thesis by (simp add: sl slot_entry_def)
qed

lemma slot_entries:
  assumes inv: "table_inv t" and f: "find_in_table t k (fnv1a_hash k) = Some sl"
  obtains A B where "table_entries t = A @ slot_entry t sl # B"
    "table_entries (slot_unlink t sl) = A @ B"
    "\<And>e. table_entries (slot_put t sl e) = A @ e # B"
proof -
  let ?bs = "t_buckets t" and ?b = "fst sl" and ?i = "snd sl"
  from find_in_table_Some [OF inv f]
  have b: "?b < length ?bs" and i: "?i < length (?bs ! ?b)" by (auto simp: table_inv_length [OF inv])
  let ?A = "concat (take ?b ?bs) @ take ?i (?bs ! ?b)"
  let ?B = "drop (Suc ?i) (?bs ! ?b) @ concat (drop (Suc ?b) ?bs)"
  show thesis
  proof
    have "concat ?bs = concat (take ?b ?bs) @ (take ?i (?bs ! ?b) @ ?bs ! ?b ! ?i # drop (Suc ?i) (?bs ! ?b))
            @ concat (drop (Suc ?b) ?bs)"
      by (simp only: list_split_nth [OF i, symmetric] concat_split_nth [OF b, symmetric])
    then show "table_entries t = ?A @ slot_entry t sl # ?B"
      by (simp add: table_entries_def slot_entry_def)
    show "table_entries (slot_unlink t sl) = ?A @ ?B"
      using b by (simp add: table_entries_def slot_unlink_def Let_def concat_list_update)
    show "table_entries (slot_put t sl e) = ?A @ e # ?B" for e
      using b i by (simp add: table_entries_def slot_put_def concat_list_update upd_conv_take_nth_drop)
  qed
qed

lemma table_inv_change:
  assumes inv: "table_inv t"
    and frame: "t_size t' = t_size t" "t_mask t' = t_mask t" "length (t_buckets t') = length (t_buckets t)"
    and used: "t_used t' = length (table_entries t')"
    and bucket: "\<And>i e. i < t_size t \<Longrightarrow> e \<in> set (t_buckets t' ! i) \<Longrightarrow>
      e \<in> set (t_buckets t ! i) \<or> bucket_ix t (fnv1a_hash (e_key e)) = i"
  shows "table_inv t'"
proof -
  have m: "bucket_ix t' = bucket_ix t" using frame(2) by (rule bucket_ix_mask_cong)
  have "bucket_ix t (fnv1a_hash (e_key e)) = i" if "i < t_size t" "e \<in> set (t_buckets t' ! i)" for i e
    using bucket [OF that] table_inv_bucket [OF inv that(1)] by blast
  with inv frame used show ?thesis by (simp add: table_inv_def m)
qed

lemma slot_unlink_inv:
  assumes inv: "table_inv t" and f: "find_in_table t k (fnv1a_hash k) = Some sl"
  shows "table_inv (slot_unlink t sl)"
proof (rule table_inv_change [OF inv])
  obtain A B where e: "table_entries t = A @ slot_entry t sl # B" "table_entries (slot_unlink t sl) = A @ B"
    using slot_entries [OF inv f] by blast
  then show "t_used (slot_unlink t sl) = length (table_entries (slot_unlink t sl))"
    using table_inv_used [OF inv] by (simp add: slot_unlink_def Let_def)
next
  fix i e
  assume "e \<in> set (t_buckets (slot_unlink t sl) ! i)" "i < t_size t"
  then have "e \<in> set (t_buckets t ! i)"
    using table_inv_length [OF inv]
    by (cases "i = fst sl") (auto simp: slot_unlink_def Let_def dest: in_set_takeD in_set_dropD)
  then show "e \<in> set (t_buckets t ! i) \<or> bucket_ix t (fnv1a_hash (e_key e)) = i" ..
qed (simp_all add: slot_unlink_def Let_def)

lemma slot_put_inv:
  assumes inv: "table_inv t" and f: "find_in_table t k (fnv1a_hash k) = Some sl" and k: "e_key e = k"
  shows "table_inv (slot_put t sl e)"
proof (rule table_inv_change [OF inv])
  obtain A B where e: "table_entries t = A @ slot_entry t sl # B" "table_entries (slot_put t sl e) = A @ e # B"
    using slot_entries [OF inv f] by metis
  then show "t_used (slot_put t sl e) = length (table_entries (slot_put t sl e))"
    using table_inv_used [OF inv] by (simp add: slot_put_def)
next
  fix i e'
  assume "e' \<in> set (t_buckets (slot_put t sl e) ! i)" "i < t_size t"
  moreover have "bucket_ix t (fnv1a_hash (e_key e)) = fst sl"
    using find_in_table_Some [OF inv f] k by simp
  ultimately show "e' \<in> set (t_buckets t ! i) \<or> bucket_ix t (fnv1a_hash (e_key e')) = i"
    using table_inv_length [OF inv]
    by (cases "i = fst sl") (auto simp: slot_put_def dest: set_update_subset_insert [THEN subsetD])
qed (simp_all add: slot_put_def)

lemma push_entry_entries:
  assumes "table_inv t"
  obtains A B where "table_entries t = A @ B" "table_entries (push_entry t h e) = A @ e # B"
proof -
  let ?b = "bucket_ix t h"
  have b: "?b < length (t_buckets t)" using assms by (simp add: table_inv_length)
  show thesis
    by (rule that [of "concat (take ?b (t_buckets t))" "t_buckets t ! ?b @ concat (drop (Suc ?b) (t_buckets t))"])
      (simp_all add: table_entries_def push_entry_def concat_split_nth [OF b] concat_list_update [OF b])
qed

lemma push_entry_inv:
  assumes inv: "table_inv t" and h: "h = fnv1a_hash (e_key e)"
  shows "table_inv (push_entry t h e)"
proof (rule table_inv_change [OF inv])
  obtain A B where "table_entries t = A @ B" "table_entries (push_entry t h e) = A @ e # B"
    using push_entry_entries [OF inv] by blast
  then show "t_used (push_entry t h e) = length (table_entries (push_entry t h e))"
    using table_inv_used [OF inv] by (simp add: push_entry_def)
next
  fix i e'
  assume "e' \<in> set (t_buckets (push_entry t h e) ! i)" "i < t_size t"
  then show "e' \<in> set (t_buckets t ! i) \<or> bucket_ix t (fnv1a_hash (e_key e')) = i"
    using table_inv_length [OF inv] h by (cases "i = bucket_ix t h") (auto simp: push_entry_def)
qed (simp_all add: push_entry_def)

section \<open>Rehashing\<close>

text \<open>Migrating a chain pushes its entries into the target and takes them off the source's count.\<close>

lemma migrate_chain_props:
  assumes "table_inv dst" and "migrate_chain es (src, dst) = (src', dst')"
  shows "table_inv dst' \<and> t_size dst' = t_size dst \<and>
    mset (table_entries dst') = mset es + mset (table_entries dst) \<and>
    src' = src\<lparr>t_used := t_used src - length es\<rparr>"
  using assms
proof (induction es arbitrary: src dst)
  case Nil
  then show ?case by simp
next
  case (Cons e es)
  let ?d = "push_entry dst (fnv1a_hash (e_key e)) e"
  have inv: "table_inv ?d" using Cons.prems(1) by (simp add: push_entry_inv)
  obtain A B where "table_entries dst = A @ B" "table_entries ?d = A @ e # B"
    using push_entry_entries [OF Cons.prems(1)] by blast
  moreover have "t_size ?d = t_size dst" by (simp add: push_entry_def)
  ultimately show ?case using Cons.IH [OF inv] Cons.prems(2) by (force simp: algebra_simps)
qed

text \<open>What a scan of the old table does: the cursor moves on, and no entry is lost or copied.\<close>

definition scan_ok :: "store \<Rightarrow> store \<Rightarrow> bool" where
  "scan_ok s s' \<longleftrightarrow> rehash_inv s' \<and> mset (store_entries s') = mset (store_entries s) \<and>
     t_size (ht0 s') = t_size (ht0 s) \<and> rehash_idx s < rehash_idx s'"

lemma scan_skip:
  assumes inv: "rehash_inv s" and lt: "nat (rehash_idx s) < t_size (ht0 s)"
    and e: "t_buckets (ht0 s) ! nat (rehash_idx s) = []"
  shows "scan_ok s (s\<lparr>rehash_idx := rehash_idx s + 1\<rparr>)"
proof -
  have "\<forall>i < nat (rehash_idx s + 1). t_buckets (ht0 s) ! i = []"
    using inv e by (auto simp: rehash_inv_def nat_add_distrib less_Suc_eq)
  with inv lt show ?thesis by (simp add: scan_ok_def rehash_inv_def store_entries_def nat_add_distrib)
qed

lemma scan_migrate:
  assumes inv: "rehash_inv s" and lt: "nat (rehash_idx s) < t_size (ht0 s)"
    and m: "migrate_chain (t_buckets (ht0 s) ! nat (rehash_idx s)) (ht0 s, ht1 s) = (src, dst)"
  shows "scan_ok s (s\<lparr>ht0 := src\<lparr>t_buckets := (t_buckets src)[nat (rehash_idx s) := []]\<rparr>,
           ht1 := dst, rehash_idx := rehash_idx s + 1\<rparr>)"
proof -
  let ?i = "nat (rehash_idx s)" let ?bs = "t_buckets (ht0 s)" let ?c = "?bs ! ?i"
  from inv have t0: "table_inv (ht0 s)" and t1: "table_inv (ht1 s)" by (simp_all add: rehash_inv_def)
  note d = migrate_chain_props [OF t1 m]
  define t where "t = src\<lparr>t_buckets := (t_buckets src)[?i := []]\<rparr>"
  have b: "?i < length ?bs" using lt by (simp add: table_inv_length [OF t0])
  have t_eq: "t = (ht0 s)\<lparr>t_used := t_used (ht0 s) - length ?c, t_buckets := ?bs[?i := []]\<rparr>"
    using d by (simp add: t_def)
  have me: "mset (table_entries t) + mset ?c = mset (table_entries (ht0 s))"
    using mset_concat_list_update [OF b, of "[]"] by (simp add: t_eq table_entries_def)
  have tinv: "table_inv t"
  proof (rule table_inv_change [OF t0])
    show "t_used t = length (table_entries t)"
      using arg_cong [OF me, of size] table_inv_used [OF t0] by (simp add: t_eq)
  next
    fix i e assume "e \<in> set (t_buckets t ! i)" "i < t_size (ht0 s)"
    then show "e \<in> set (?bs ! i) \<or> bucket_ix (ht0 s) (fnv1a_hash (e_key e)) = i"
      using b by (cases "i = ?i") (auto simp: t_eq)
  qed (simp_all add: t_eq)
  define s' where "s' = s\<lparr>ht0 := t, ht1 := dst, rehash_idx := rehash_idx s + 1\<rparr>"
  have ms: "mset (store_entries s') = mset (store_entries s)"
    using d me by (simp add: store_entries_def s'_def algebra_simps)
  have "\<forall>i < nat (rehash_idx s + 1). t_buckets t ! i = []"
    using inv b by (auto simp: rehash_inv_def nat_add_distrib less_Suc_eq t_eq)
  moreover have "distinct (map e_key (store_entries s'))"
    using inv distinct_map_mset_cong [OF ms, of e_key] by (simp add: rehash_inv_def)
  ultimately have "rehash_inv s'"
    using inv tinv d lt by (simp add: rehash_inv_def s'_def t_eq nat_add_distrib)
  then show ?thesis using ms by (simp add: scan_ok_def s'_def t_def [symmetric]) (simp add: t_eq)
qed

lemma rehash_scan_ok:
  assumes "rehash_inv s" and "nat (rehash_idx s) < t_size (ht0 s)" and "v < REHASH_EMPTY_VISITS_LIMIT"
  shows "scan_ok s (rehash_scan v s)"
  using assms
proof (induction v s rule: rehash_scan.induct)
  case (1 v s)
  let ?s = "s\<lparr>rehash_idx := rehash_idx s + 1\<rparr>"
  show ?case
  proof (cases "t_buckets (ht0 s) ! nat (rehash_idx s) = []")
    case False
    with scan_migrate [OF "1.prems"(1,2)] "1.prems" show ?thesis
      by (subst rehash_scan.simps) (auto simp: Let_def split: prod.splits)
  next
    case True
    have sk: "scan_ok s ?s" using scan_skip [OF "1.prems"(1,2) True] .
    have eq: "rehash_scan v s = rehash_scan (Suc v) ?s"
      using "1.prems" True by (subst rehash_scan.simps) simp
    show ?thesis
    proof (cases "nat (rehash_idx ?s) < t_size (ht0 ?s) \<and> Suc v < REHASH_EMPTY_VISITS_LIMIT")
      case True
      with "1.IH" [of "t_buckets (ht0 s) ! nat (rehash_idx s)"] sk \<open>t_buckets (ht0 s) ! _ = []\<close> "1.prems"
      have "scan_ok ?s (rehash_scan (Suc v) ?s)" by (simp add: scan_ok_def)
      with sk eq show ?thesis by (simp add: scan_ok_def)
    next
      case False
      then have "rehash_scan (Suc v) ?s = ?s" by (subst rehash_scan.simps) auto
      with sk eq show ?thesis by simp
    qed
  qed
qed

lemma store_invD:
  assumes "store_inv s"
  shows store_inv_ht0: "table_inv (ht0 s)"
    and store_inv_ht1: "is_rehashing s \<Longrightarrow> table_inv (ht1 s)"
    and store_inv_distinct: "distinct (map e_key (store_entries s))"
    and store_inv_idle: "\<not> is_rehashing s \<Longrightarrow> ht1 s = table_init 0"
    and store_inv_rehash: "is_rehashing s \<Longrightarrow> rehash_inv s"
  using assms by (auto simp: store_inv_def rehash_inv_def split: if_splits)

lemma rehash_step_ok:
  assumes inv: "store_inv s"
  shows "store_inv (rehash_step s) \<and> store_room (rehash_step s) \<and>
    mset (store_entries (rehash_step s)) = mset (store_entries s)"
proof (cases "is_rehashing s")
  case False
  with inv show ?thesis by (simp add: rehash_step_def store_room_def store_inv_def)
next
  case True
  define s1 where "s1 = rehash_scan 0 s"
  from inv True have r: "rehash_inv s" and lt: "nat (rehash_idx s) < t_size (ht0 s)"
    and ld: "length (store_entries s) \<le> t_size (ht0 s) + nat (rehash_idx s)"
    by (simp_all add: store_inv_def)
  have ok: "scan_ok s s1" unfolding s1_def
    by (rule rehash_scan_ok [OF r lt]) (simp add: REHASH_EMPTY_VISITS_LIMIT_def)
  then have r1: "rehash_inv s1" and ms: "mset (store_entries s1) = mset (store_entries s)"
    and sz: "t_size (ht0 s1) = t_size (ht0 s)" and ix: "rehash_idx s < rehash_idx s1"
    by (simp_all add: scan_ok_def)
  from r ix have pos: "is_rehashing s1" by (simp add: rehash_inv_def is_rehashing_def)
  from r ix ld have ld1: "length (store_entries s) < t_size (ht0 s) + nat (rehash_idx s1)"
    unfolding rehash_inv_def by linarith
  from ms have len: "length (store_entries s1) = length (store_entries s)" by (rule mset_eq_length)
  show ?thesis
  proof (cases "t_size (ht0 s1) \<le> nat (rehash_idx s1)")
    case False
    have "rehash_step s = s1" using True False by (simp add: rehash_step_def s1_def Let_def)
    with False r1 ms len ld1 sz pos show ?thesis by (simp add: store_inv_def store_room_def)
  next
    case fin: True
    let ?s = "s1\<lparr>ht0 := ht1 s1, ht1 := table_init 0, rehash_idx := - 1\<rparr>"
    have eq: "rehash_step s = ?s" using True fin by (simp add: rehash_step_def s1_def Let_def)
    from r1 fin have full: "nat (rehash_idx s1) = t_size (ht0 s1)" by (simp add: rehash_inv_def)
    with r1 have "table_entries (ht0 s1) = []" unfolding table_entries_def
      by (intro concat_all_Nil) (simp add: rehash_inv_def table_inv_length)
    then have es: "store_entries ?s = store_entries s1" by (simp add: store_entries_def)
    from full sz ld1 have "length (store_entries ?s) < t_size (ht1 s1)"
      using r1 by (simp add: es len rehash_inv_def)
    moreover have "\<not> is_rehashing ?s" by (simp add: is_rehashing_def)
    moreover have "distinct (map e_key (store_entries ?s))" using r1 es by (simp add: rehash_inv_def)
    ultimately show ?thesis using r1 es ms eq
      by (simp add: store_inv_def store_room_def) (simp add: rehash_inv_def)
  qed
qed

lemmas rehash_step_inv = rehash_step_ok [THEN conjunct1]
lemmas rehash_step_room = rehash_step_ok [THEN conjunct2, THEN conjunct1]
lemmas rehash_step_mset = rehash_step_ok [THEN conjunct2, THEN conjunct2]

lemma rehash_step_abs: "store_inv s \<Longrightarrow> store_abs (rehash_step s) = store_abs s"
  unfolding store_abs_def
  by (rule entries_map_mset_cong [OF rehash_step_mset])
    (simp_all add: rehash_step_inv store_inv_distinct)

section \<open>Slots of a store\<close>

lemma store_entries_idle: "store_inv s \<Longrightarrow> \<not> is_rehashing s \<Longrightarrow> store_entries s = table_entries (ht0 s)"
  by (simp add: store_entries_def store_inv_idle)

lemma find_slot_either_None:
  assumes "store_inv s"
  shows "find_slot_either s k (fnv1a_hash k) = None \<longleftrightarrow> store_abs s k = None"
proof -
  have "find_slot_either s k (fnv1a_hash k) = None \<longleftrightarrow>
      find_in_table (ht0 s) k (fnv1a_hash k) = None \<and>
      (is_rehashing s \<longrightarrow> find_in_table (ht1 s) k (fnv1a_hash k) = None)"
    by (auto simp: find_slot_either_def split: option.splits)
  also have "\<dots> \<longleftrightarrow> k \<notin> e_key ` set (store_entries s)"
    using assms store_inv_idle [OF assms]
    by (auto simp: find_in_table_None store_inv_ht0 store_inv_ht1 store_entries_def)
  finally show ?thesis by (simp add: store_abs_def entries_map_None)
qed

lemma find_slot_either_Some:
  assumes inv: "store_inv s" and f: "find_slot_either s k (fnv1a_hash k) = Some (t, sl)"
  shows "table_inv (the_ht t s) \<and> find_in_table (the_ht t s) k (fnv1a_hash k) = Some sl \<and>
    (t = HT1 \<longrightarrow> is_rehashing s)"
  using f inv by (auto simp: find_slot_either_def store_inv_ht0 store_inv_ht1 split: option.splits if_splits)

text \<open>
  Replacing the table a slot lives in by one with the same size, the same number of entries or
  fewer, and no key twice, keeps the store's invariant, provided untouched empty buckets stay
  empty.
\<close>

lemma with_ht_inv:
  assumes inv: "store_inv s" and t': "table_inv t'" "t_size t' = t_size (the_ht t s)"
    and ht1: "t = HT1 \<longrightarrow> is_rehashing s"
    and len: "length (table_entries t') \<le> length (table_entries (the_ht t s))"
    and dis: "distinct (map e_key (store_entries (with_ht t s t')))"
    and em: "\<And>i. t_buckets (the_ht t s) ! i = [] \<Longrightarrow> t_buckets t' ! i = []"
  shows "store_inv (with_ht t s t')"
  using assms
  by (cases t) (auto simp: store_inv_def rehash_inv_def is_rehashing_def store_entries_def split: if_splits)

lemma slot_keeps_empty:
  assumes "table_inv t" and "find_in_table t k (fnv1a_hash k) = Some sl" and "t_buckets t ! i = []"
  shows "t_buckets (slot_unlink t sl) ! i = []" and "t_buckets (slot_put t sl e) ! i = []"
  using find_in_table_Some [OF assms(1,2)] assms(3)
  by (cases "i = fst sl"; auto simp: slot_unlink_def slot_put_def Let_def)+

text \<open>The two writes through a slot, at the level of the store.\<close>

lemma store_slot:
  assumes inv: "store_inv s" and f: "find_slot_either s k (fnv1a_hash k) = Some (t, sl)"
  obtains A B where "store_entries s = A @ slot_entry (the_ht t s) sl # B"
    "store_entries (with_ht t s (slot_unlink (the_ht t s) sl)) = A @ B"
    "\<And>e. store_entries (with_ht t s (slot_put (the_ht t s) sl e)) = A @ e # B"
proof -
  from find_slot_either_Some [OF inv f] have tinv: "table_inv (the_ht t s)"
    and ft: "find_in_table (the_ht t s) k (fnv1a_hash k) = Some sl" by simp_all
  obtain A B where ab: "table_entries (the_ht t s) = A @ slot_entry (the_ht t s) sl # B"
    "table_entries (slot_unlink (the_ht t s) sl) = A @ B"
    "\<And>e. table_entries (slot_put (the_ht t s) sl e) = A @ e # B"
    using slot_entries [OF tinv ft] by metis
  show thesis
  proof (cases t)
    case HT0
    with ab show thesis by (intro that [of A "B @ table_entries (ht1 s)"]) (simp_all add: store_entries_def)
  next
    case HT1
    with ab show thesis by (intro that [of "table_entries (ht0 s) @ A" B]) (simp_all add: store_entries_def)
  qed
qed

lemma store_slot_unlink:
  assumes inv: "store_inv s" and f: "find_slot_either s k (fnv1a_hash k) = Some (t, sl)"
  defines "s' \<equiv> with_ht t s (slot_unlink (the_ht t s) sl)"
  shows "store_inv s'" and "store_abs s' = (store_abs s)(k := None)"
proof -
  note fs = find_slot_either_Some [OF inv f]
  then have tinv: "table_inv (the_ht t s)" and ft: "find_in_table (the_ht t s) k (fnv1a_hash k) = Some sl"
    by simp_all
  obtain A B where ab: "store_entries s = A @ slot_entry (the_ht t s) sl # B" "store_entries s' = A @ B"
    using store_slot [OF inv f] unfolding s'_def by metis
  have dis: "distinct (map e_key (A @ slot_entry (the_ht t s) sl # B))"
    using store_inv_distinct [OF inv] ab(1) by simp
  obtain A' B' where "table_entries (the_ht t s) = A' @ slot_entry (the_ht t s) sl # B'"
    "table_entries (slot_unlink (the_ht t s) sl) = A' @ B'" using slot_entries [OF tinv ft] by blast
  then show "store_inv s'" unfolding s'_def
    using fs slot_keeps_empty(1) [OF tinv ft] slot_unlink_inv [OF tinv ft] dis ab(2)
    by (intro with_ht_inv [OF inv]) (auto simp: slot_unlink_def Let_def s'_def)
  show "store_abs s' = (store_abs s)(k := None)"
    using entries_map_remove [OF dis] find_in_table_Some [OF tinv ft] ab
    by (simp add: store_abs_def del: entries_map_append)
qed

lemma store_slot_put:
  assumes inv: "store_inv s" and f: "find_slot_either s k (fnv1a_hash k) = Some (t, sl)" and k: "e_key e = k"
  defines "s' \<equiv> with_ht t s (slot_put (the_ht t s) sl e)"
  shows "store_inv s'" and "store_abs s' = (store_abs s)(k \<mapsto> (e_val e, e_expire_at_ms e))"
proof -
  note fs = find_slot_either_Some [OF inv f]
  then have tinv: "table_inv (the_ht t s)" and ft: "find_in_table (the_ht t s) k (fnv1a_hash k) = Some sl"
    by simp_all
  note key = find_in_table_Some [OF tinv ft]
  obtain A B where ab: "store_entries s = A @ slot_entry (the_ht t s) sl # B" "store_entries s' = A @ e # B"
    using store_slot [OF inv f] unfolding s'_def by metis
  have dis: "distinct (map e_key (A @ slot_entry (the_ht t s) sl # B))"
    using store_inv_distinct [OF inv] ab(1) by simp
  obtain A' B' where "table_entries (the_ht t s) = A' @ slot_entry (the_ht t s) sl # B'"
    "table_entries (slot_put (the_ht t s) sl e) = A' @ e # B'" using slot_entries [OF tinv ft] by metis
  then show "store_inv s'" unfolding s'_def
    using fs slot_keeps_empty(2) [OF tinv ft] slot_put_inv [OF tinv ft k] dis ab(2) k key
    by (intro with_ht_inv [OF inv]) (auto simp: slot_put_def s'_def)
  show "store_abs s' = (store_abs s)(k \<mapsto> (e_val e, e_expire_at_ms e))"
    using entries_map_replace [OF dis, of e] key ab k
    by (simp add: store_abs_def del: entries_map_append)
qed

lemma store_slot_entry:
  assumes inv: "store_inv s" and f: "find_slot_either s k (fnv1a_hash k) = Some (t, sl)"
  defines "e \<equiv> slot_entry (the_ht t s) sl"
  shows "e_key e = k" and "store_abs s k = Some (e_val e, e_expire_at_ms e)"
proof -
  from find_slot_either_Some [OF inv f]
  have ft: "table_inv (the_ht t s)" "find_in_table (the_ht t s) k (fnv1a_hash k) = Some sl" by simp_all
  show k: "e_key e = k" using find_in_table_Some [OF ft] by (simp add: e_def)
  obtain A B where ab: "store_entries s = A @ e # B"
    using store_slot [OF inv f] unfolding e_def by metis
  then have "distinct (map e_key (A @ e # B))" using store_inv_distinct [OF inv] by simp
  from entries_map_at [OF this] k ab
  show "store_abs s k = Some (e_val e, e_expire_at_ms e)"
    by (simp add: store_abs_def del: entries_map_append)
qed

section \<open>Inserting an entry\<close>

lemma next_pow2_power: "next_pow2 (2 ^ j) = 2 ^ j"
proof -
  obtain i where i: "next_pow2 (2 ^ j) = 2 ^ i"
    using double_until_pow2 [of 1 "2 ^ j"] by (auto simp: next_pow2_def)
  have ge: "(2::nat) ^ j \<le> 2 ^ i" using double_until_ge [of 1 "2 ^ j"] i by (simp add: next_pow2_def)
  have "i = 0 \<or> (2::nat) ^ i < 2 ^ Suc j"
    using double_until_le [of 1 "2 ^ j"] i by (auto simp: next_pow2_def)
  then have "i \<le> j" using power_less_imp_less_exp [of "2::nat" i "Suc j"] by auto
  moreover have "j \<le> i" using ge by (simp add: power_increasing_iff)
  ultimately show ?thesis using i by simp
qed

lemma maybe_start_rehash_ok:
  assumes idle: "\<not> is_rehashing s" and t0: "table_inv (ht0 s)" and t1: "ht1 s = table_init 0"
    and dis: "distinct (map e_key (store_entries s))" and le: "length (store_entries s) \<le> t_size (ht0 s)"
  shows "store_inv (maybe_start_rehash s) \<and> store_entries (maybe_start_rehash s) = store_entries s"
proof -
  have es: "store_entries s = table_entries (ht0 s)" using t1 by (simp add: store_entries_def)
  have u: "t_used (ht0 s) = length (store_entries s)" using table_inv_used [OF t0] es by simp
  show ?thesis
  proof (cases "t_used (ht0 s) < t_size (ht0 s)")
    case True
    with assms u show ?thesis by (simp add: maybe_start_rehash_def store_inv_def)
  next
    case False
    obtain j where j: "t_size (ht0 s) = 2 ^ j" using t0 by (auto simp: table_inv_def)
    have n: "next_pow2 (t_size (ht0 s) * 2) = 2 ^ Suc j" using next_pow2_power [of "Suc j"] j by (simp add: mult.commute)
    have "table_inv (table_init (2 ^ Suc j))" by (rule table_inv_init)
    with False assms u n j es show ?thesis
      by (auto simp: maybe_start_rehash_def store_inv_def rehash_inv_def is_rehashing_def store_entries_def)
  qed
qed

lemma insert_entry_ok:
  assumes inv: "store_inv s" and room: "store_room s" and new: "store_abs s (e_key e) = None"
  defines "s' \<equiv> store_insert s (fnv1a_hash (e_key e)) e"
  shows "store_inv s'" and "store_abs s' = (store_abs s)(e_key e \<mapsto> (e_val e, e_expire_at_ms e))"
proof -
  define target where "target = (if is_rehashing s then HT1 else HT0)"
  define s1 where "s1 = with_ht target s (push_entry (the_ht target s) (fnv1a_hash (e_key e)) e)"
  have s': "s' = (if \<not> is_rehashing s1 then maybe_start_rehash s1 else s1)"
    by (simp add: s'_def store_insert_def Let_def target_def s1_def)
  have new': "e_key e \<notin> e_key ` set (store_entries s)"
    using new by (simp add: store_abs_def entries_map_None)
  have tinv: "table_inv (the_ht target s)" using inv by (simp add: target_def store_inv_ht0 store_inv_ht1)
  obtain A0 B0 where ab0: "table_entries (the_ht target s) = A0 @ B0"
    "table_entries (push_entry (the_ht target s) (fnv1a_hash (e_key e)) e) = A0 @ e # B0"
    using push_entry_entries [OF tinv] by blast
  obtain A B where ab: "store_entries s = A @ B" "store_entries s1 = A @ e # B"
  proof (cases "is_rehashing s")
    case True
    with ab0 show ?thesis
      by (intro that [of "table_entries (ht0 s) @ A0" B0]) (simp_all add: store_entries_def s1_def target_def)
  next
    case False
    with ab0 show ?thesis
      by (intro that [of A0 "B0 @ table_entries (ht1 s)"]) (simp_all add: store_entries_def s1_def target_def)
  qed
  have dis: "distinct (map e_key (store_entries s1))"
    using store_inv_distinct [OF inv] new' by (auto simp: ab)
  have pinv: "table_inv (push_entry (the_ht target s) (fnv1a_hash (e_key e)) e)"
    using tinv by (simp add: push_entry_inv)
  have main: "store_inv s' \<and> store_entries s' = store_entries s1"
  proof (cases "is_rehashing s")
    case True
    then have "s' = s1" by (simp add: s' s1_def target_def is_rehashing_def)
    with True inv room pinv dis ab show ?thesis
      by (auto simp: store_inv_def rehash_inv_def store_room_def s1_def target_def is_rehashing_def push_entry_def)
  next
    case False
    then have i1: "\<not> is_rehashing s1" by (simp add: s1_def target_def is_rehashing_def)
    have "store_inv (maybe_start_rehash s1) \<and> store_entries (maybe_start_rehash s1) = store_entries s1"
      using False inv room pinv dis ab
      by (intro maybe_start_rehash_ok i1) (auto simp: s1_def target_def store_inv_idle store_room_def push_entry_def)
    with i1 show ?thesis by (simp add: s')
  qed
  then show "store_inv s'" by blast
  from main show "store_abs s' = (store_abs s)(e_key e \<mapsto> (e_val e, e_expire_at_ms e))"
    using entries_map_insert [of e A B] new' by (simp add: store_abs_def ab del: entries_map_append)
qed

section \<open>The operations implement the contract\<close>

lemma locate_live_ok:
  assumes inv: "store_inv s" and l: "locate_live now s k = (f, s')"
  shows "store_inv s' \<and> store_abs s' = touch now (store_abs s) k \<and>
    (case f of
       None \<Rightarrow> live now (store_abs s) k = None
     | Some (t, sl) \<Rightarrow> find_slot_either s' k (fnv1a_hash k) = Some (t, sl) \<and>
         e_key (slot_entry (the_ht t s') sl) = k \<and>
         live now (store_abs s) k =
           Some (e_val (slot_entry (the_ht t s') sl), e_expire_at_ms (slot_entry (the_ht t s') sl)))"
proof (cases "find_slot_either s k (fnv1a_hash k)")
  case None
  then have "store_abs s k = None" by (simp add: find_slot_either_None [OF inv])
  with None l inv show ?thesis by (auto simp: locate_live_def live_def touch_def)
next
  case (Some p)
  obtain t sl where p: "p = (t, sl)" by (cases p)
  note f = Some [unfolded p]
  note e = store_slot_entry [OF inv f]
  show ?thesis
  proof (cases "expired now (e_expire_at_ms (slot_entry (the_ht t s) sl))")
    case True
    with e(2) have "live now (store_abs s) k = None" by (simp add: live_def)
    moreover have "f = None" "s' = with_ht t s (slot_unlink (the_ht t s) sl)"
      using l f True by (auto simp: locate_live_def expired_def Let_def)
    ultimately show ?thesis using store_slot_unlink [OF inv f] by (simp add: touch_def)
  next
    case False
    with e(2) have lv: "live now (store_abs s) k = store_abs s k" by (simp add: live_def)
    moreover have "f = Some (t, sl)" "s' = s"
      using l f False by (auto simp: locate_live_def expired_def Let_def)
    ultimately show ?thesis using inv f e touch_live [OF lv] by simp
  qed
qed

text \<open>How every lookup of the public interface starts: one rehash step, then \<open>locate_live\<close>.\<close>

lemma lookup_cases:
  assumes "store_inv s"
  obtains
    (absent) s' where "locate_live now (rehash_step s) k = (None, s')" "store_inv s'"
      "store_abs s' = touch now (store_abs s) k" "live now (store_abs s) k = None"
  | (present) t sl s' e where "locate_live now (rehash_step s) k = (Some (t, sl), s')" "store_inv s'"
      "store_abs s' = touch now (store_abs s) k" "find_slot_either s' k (fnv1a_hash k) = Some (t, sl)"
      "slot_entry (the_ht t s') sl = e" "e_key e = k"
      "live now (store_abs s) k = Some (e_val e, e_expire_at_ms e)"
proof -
  obtain f s' where l: "locate_live now (rehash_step s) k = (f, s')" by fastforce
  from locate_live_ok [OF rehash_step_inv [OF assms] l] rehash_step_abs [OF assms] l that
  show thesis by (cases f) auto
qed

lemmas store_step_simps = rehash_step_inv rehash_step_abs

lemma store_set_ok:
  assumes inv: "store_inv s"
  shows "store_inv (snd (store_set s k v x))"
    and "store_abs (snd (store_set s k v x)) = (store_abs s)(k \<mapsto> (v, x))"
    and "fst (store_set s k v x) = (if k \<in> dom (store_abs s) then 0 else 1)"
proof -
  let ?s = "rehash_step s"
  have inv': "store_inv ?s" and abs': "store_abs ?s = store_abs s" using inv by (simp_all add: store_step_simps)
  have "store_inv (snd (store_set s k v x)) \<and>
    store_abs (snd (store_set s k v x)) = (store_abs s)(k \<mapsto> (v, x)) \<and>
    fst (store_set s k v x) = (if k \<in> dom (store_abs s) then 0 else 1)"
  proof (cases "find_slot_either ?s k (fnv1a_hash k)")
    case None
    let ?e = "\<lparr>e_key = k, e_val = v, e_expire_at_ms = x\<rparr>"
    from None have new: "store_abs ?s (e_key ?e) = None" by (simp add: find_slot_either_None [OF inv'])
    from insert_entry_ok [OF inv' rehash_step_room [OF inv] new] None new abs' show ?thesis
      by (simp add: store_set_def Let_def domIff)
  next
    case (Some p)
    obtain t sl where p: "p = (t, sl)" by (cases p)
    note f = Some [unfolded p]
    note e = store_slot_entry [OF inv' f]
    from e(2) abs' have "k \<in> dom (store_abs s)" by auto
    with store_slot_put [OF inv' f, of "(slot_entry (the_ht t ?s) sl)\<lparr>e_val := v, e_expire_at_ms := x\<rparr>"]
      e(1) f abs' show ?thesis by (simp add: store_set_def Let_def)
  qed
  then show "store_inv (snd (store_set s k v x))"
    and "store_abs (snd (store_set s k v x)) = (store_abs s)(k \<mapsto> (v, x))"
    and "fst (store_set s k v x) = (if k \<in> dom (store_abs s) then 0 else 1)" by blast+
qed

lemma store_get_ok:
  assumes inv: "store_inv s"
  shows "store_inv (snd (store_get now s k)) \<and>
    store_abs (snd (store_get now s k)) = touch now (store_abs s) k \<and>
    fst (store_get now s k) = map_option fst (live now (store_abs s) k)"
  using inv by (cases rule: lookup_cases [where now = now and k = k]) (auto simp: store_get_def)

lemma store_exists_ok:
  assumes inv: "store_inv s"
  shows "store_inv (snd (store_exists now s k)) \<and>
    store_abs (snd (store_exists now s k)) = touch now (store_abs s) k \<and>
    fst (store_exists now s k) = (if k \<in> dom (live now (store_abs s)) then 1 else 0)"
  using inv by (cases rule: lookup_cases [where now = now and k = k]) (auto simp: store_exists_def)

lemma store_del_ok:
  assumes inv: "store_inv s"
  shows "store_inv (snd (store_del s k)) \<and>
    store_abs (snd (store_del s k)) = (store_abs s)(k := None) \<and>
    fst (store_del s k) = (if k \<in> dom (store_abs s) then 1 else 0)"
proof (cases "find_slot_either (rehash_step s) k (fnv1a_hash k)")
  case None
  then have "store_abs s k = None"
    using find_slot_either_None [OF rehash_step_inv [OF inv]] rehash_step_abs [OF inv] by simp
  with None inv show ?thesis by (auto simp: store_del_def Let_def store_step_simps)
next
  case (Some p)
  obtain t sl where p: "p = (t, sl)" by (cases p)
  note f = Some [unfolded p]
  from store_slot_unlink [OF rehash_step_inv [OF inv] f] store_slot_entry(2) [OF rehash_step_inv [OF inv] f]
    rehash_step_abs [OF inv] f show ?thesis by (auto simp: store_del_def Let_def)
qed

lemma store_create_inv: "store_inv store_create"
  using table_inv_init [of 2]
  by (simp add: store_inv_def store_create_def is_rehashing_def store_entries_def STORE_INITIAL_SIZE_def)

lemma store_create_abs: "store_abs store_create = Map.empty"
  by (simp add: store_abs_def store_create_def store_entries_def)

lemma store_size_entries: "store_inv s \<Longrightarrow> store_size s = length (store_entries s)"
  by (cases "is_rehashing s")
    (simp_all add: store_size_def store_entries_def table_inv_used store_inv_ht0 store_inv_ht1 store_inv_idle)

lemma store_size_card: "store_inv s \<Longrightarrow> store_size s = card (dom (store_abs s))"
  using distinct_card [OF store_inv_distinct]
  by (simp add: store_size_entries store_abs_def dom_entries_map del: entries_map_append)

interpretation st: kv_store store_inv store_abs store_create store_size store_set store_get store_exists store_del
proof
  fix s k v x now
  show "store_inv store_create" by (rule store_create_inv)
  show "store_abs store_create = Map.empty" by (rule store_create_abs)
  assume inv: "store_inv s"
  then show "store_size s = card (dom (store_abs s))" by (rule store_size_card)
  show "finite (dom (store_abs s))" by (simp add: store_abs_def dom_entries_map del: entries_map_append)
  show "store_inv (snd (store_set s k v x))"
    "store_abs (snd (store_set s k v x)) = (store_abs s)(k \<mapsto> (v, x))"
    "fst (store_set s k v x) = (if k \<in> dom (store_abs s) then 0 else 1)"
    using inv by (rule store_set_ok)+
qed (simp_all add: store_get_ok store_exists_ok store_del_ok)

lemma store_expire_ok:
  assumes inv: "store_inv s"
  shows "store_inv (snd (store_expire now s k x)) \<and>
    store_abs (snd (store_expire now s k x)) =
      (case live now (store_abs s) k of
         None \<Rightarrow> touch now (store_abs s) k
       | Some (v, _) \<Rightarrow> (store_abs s)(k \<mapsto> (v, x))) \<and>
    fst (store_expire now s k x) = (if k \<in> dom (live now (store_abs s)) then 1 else 0)"
  using inv
proof (cases rule: lookup_cases [where now = now and k = k])
  case (absent s')
  then show ?thesis by (auto simp: store_expire_def)
next
  case (present t sl s' e)
  with store_slot_put [OF present(2,4), of "e\<lparr>e_expire_at_ms := x\<rparr>"]
  show ?thesis by (auto simp: store_expire_def touch_def)
qed

lemma store_ttl_ms_ok:
  assumes inv: "store_inv s"
  obtains s' where "store_inv s'" "store_abs s' = touch now (store_abs s) k"
    "store_ttl_ms now now' s k =
       (case live now (store_abs s) k of
          None \<Rightarrow> Some (STORE_TTL_NO_KEY, s')
        | Some (_, x) \<Rightarrow>
            if x = 0 then Some (STORE_TTL_NO_EXPIRY, s')
            else do { r \<leftarrow> i64 (x - now'); Some (max 0 r, s') })"
  using inv
proof (cases rule: lookup_cases [where now = now and k = k])
  case (absent s')
  then show thesis by (intro that [of s']) (simp_all add: store_ttl_ms_def)
next
  case (present t sl s' e)
  then show thesis
    by (intro that [of s'])
      (auto simp: store_ttl_ms_def max_def Let_def split: Option.bind_split)
qed

text \<open>The parser INCR uses: every accepted value is an int64, and what INCR writes is read back.\<close>

lemma parse_strict_ll_range: "parse_strict_ll s = Some v \<Longrightarrow> int64_ok v"
  by (auto simp: parse_strict_ll_def Let_def dest: strtoll_in_range split: if_splits prod.splits)

lemma parse_strict_ll_show_int: "int64_ok x \<Longrightarrow> parse_strict_ll (show_int x) = Some x"
  using length_show_int [of x] hd_show_int_not_space [of x]
  by (simp add: parse_strict_ll_def strtoll_show_int)

text \<open>What INCR means on the abstract map, with the TTL of the key kept.\<close>

definition incr_spec :: "int \<Rightarrow> kv \<Rightarrow> bytes \<Rightarrow> int \<Rightarrow> store_incr_status \<times> int \<times> kv" where
  "incr_spec now m k delta =
     (case (case live now m k of None \<Rightarrow> Some 0 | Some (v, _) \<Rightarrow> parse_strict_ll v) of
        None \<Rightarrow> (STORE_INCR_NOT_INTEGER, 0, touch now m k)
      | Some c \<Rightarrow>
          if int64_ok (c + delta)
          then (STORE_INCR_OK, c + delta,
                m(k \<mapsto> (show_int (c + delta), case live now m k of None \<Rightarrow> 0 | Some (_, x) \<Rightarrow> x)))
          else (STORE_INCR_OVERFLOW, 0, touch now m k))"

lemma incr_guard_exact:
  assumes "int64_ok c" and "int64_ok d"
  shows "(d > 0 \<and> c > INT64_MAX - d) \<or> (d < 0 \<and> c < INT64_MIN - d) \<longleftrightarrow> \<not> int64_ok (c + d)"
  using assms by (auto simp: int64_ok_def)

lemma store_incrby_ok:
  assumes inv: "store_inv s" and d: "int64_ok delta"
  obtains st v s' where "store_incrby now s k delta = Some (st, v, s')" "store_inv s'"
    "(st, v, store_abs s') = incr_spec now (store_abs s) k delta"
  using inv
proof (cases rule: lookup_cases [where now = now and k = k])
  case (absent s')
  have g: "\<not> (delta > 0 \<and> 0 > INT64_MAX - delta) \<and> \<not> (delta < 0 \<and> 0 < INT64_MIN - delta)"
    using incr_guard_exact [of 0 delta] d by auto
  have sn: "snprintf 32 (show_int delta) = show_int delta"
    using length_show_int [OF d] by (simp add: snprintf_id)
  show thesis
    using absent g d sn store_set_ok [OF absent(2), of k "show_int delta" 0]
    by (intro that [of STORE_INCR_OK delta "snd (store_set s' k (show_int delta) 0)"])
      (auto simp: store_incrby_def incr_spec_def touch_def)
next
  case (present t sl s' e)
  show thesis
  proof (cases "parse_strict_ll (e_val e)")
    case None
    with present show thesis
      by (intro that [of STORE_INCR_NOT_INTEGER 0 s']) (auto simp: store_incrby_def incr_spec_def)
  next
    case (Some c)
    note g = incr_guard_exact [OF parse_strict_ll_range [OF Some] d]
    show thesis
    proof (cases "int64_ok (c + delta)")
      case False
      with present Some g show thesis
        by (intro that [of STORE_INCR_OVERFLOW 0 s']) (auto simp: store_incrby_def incr_spec_def)
    next
      case True
      have sn: "snprintf 32 (show_int (c + delta)) = show_int (c + delta)"
        using length_show_int [OF True] by (simp add: snprintf_id)
      let ?s = "with_ht t s' (slot_put (the_ht t s') sl (e\<lparr>e_val := show_int (c + delta)\<rparr>))"
      have eq: "store_incrby now s k delta = Some (STORE_INCR_OK, c + delta, ?s)"
        using present Some g True sn by (auto simp: store_incrby_def)
      show thesis
        using present Some True store_slot_put [OF present(2,4), of "e\<lparr>e_val := show_int (c + delta)\<rparr>"]
        by (intro that [OF eq]) (auto simp: incr_spec_def touch_def)
    qed
  qed
qed

section \<open>Iteration, flushing and destruction\<close>

lemma visit_chain_fold:
  "visit_chain now f es ud =
     fold (\<lambda>e. f (e_key e) (e_val e) (e_expire_at_ms e)) (filter (\<lambda>e. \<not> expired now (e_expire_at_ms e)) es) ud"
  by (induction es arbitrary: ud) (auto simp: expired_def)

lemma fold_nth_concat: "fold (\<lambda>i. fold g (filter P (bs ! i))) [0..<length bs] ud = fold g (filter P (concat bs)) ud"
proof (induction bs rule: rev_induct)
  case Nil
  then show ?case by simp
next
  case (snoc c bs)
  have "fold (\<lambda>i. fold g (filter P ((bs @ [c]) ! i))) [0..<length bs] ud =
        fold (\<lambda>i. fold g (filter P (bs ! i))) [0..<length bs] ud"
    by (rule fold_cong) (auto simp: nth_append)
  with snoc show ?case by simp
qed

lemma visit_table_fold:
  assumes "length (t_buckets t) = t_size t"
  shows "visit_table now f t ud =
     fold (\<lambda>e. f (e_key e) (e_val e) (e_expire_at_ms e))
       (filter (\<lambda>e. \<not> expired now (e_expire_at_ms e)) (table_entries t)) ud"
  unfolding visit_table_def visit_chain_fold table_entries_def assms [symmetric] by (rule fold_nth_concat)

text \<open>The entries \<open>store_foreach\<close> hands to its callback, in order.\<close>

definition live_entries :: "int \<Rightarrow> store \<Rightarrow> store_entry list" where
  "live_entries now s = filter (\<lambda>e. \<not> expired now (e_expire_at_ms e)) (store_entries s)"

lemma store_foreach_fold:
  assumes "store_inv s"
  shows "store_foreach now s f ud = fold (\<lambda>e. f (e_key e) (e_val e) (e_expire_at_ms e)) (live_entries now s) ud"
proof -
  have "length (t_buckets (ht1 s)) = t_size (ht1 s)"
    using assms by (cases "is_rehashing s") (simp_all add: table_inv_length store_inv_ht1 store_inv_idle table_init_def)
  then show ?thesis using assms
    by (simp add: store_foreach_def visit_table_fold table_inv_length store_inv_ht0 live_entries_def store_entries_def)
qed

lemma live_entries_distinct: "store_inv s \<Longrightarrow> distinct (map e_key (live_entries now s))"
  by (simp add: live_entries_def distinct_map_filter store_inv_distinct)

lemma entries_map_filter:
  assumes "distinct (map e_key es)"
  shows "entries_map (filter (\<lambda>e. \<not> expired now (e_expire_at_ms e)) es) = live now (entries_map es)"
  using assms
proof (induction es)
  case Nil
  then show ?case by simp
next
  case (Cons e es)
  then have n: "entries_map es (e_key e) = None" by (simp add: entries_map_None)
  show ?case
  proof
    fix k
    show "entries_map (filter (\<lambda>e. \<not> expired now (e_expire_at_ms e)) (e # es)) k =
        live now (entries_map (e # es)) k"
      using Cons n by (cases "k = e_key e") (simp_all add: live_def)
  qed
qed

lemma live_entries_map: "store_inv s \<Longrightarrow> entries_map (live_entries now s) = live now (store_abs s)"
  by (simp add: live_entries_def store_abs_def entries_map_filter store_inv_distinct)

lemma store_flush_ok:
  assumes "store_inv s"
  shows "store_flush s = (card (dom (store_abs s)), store_create)"
  using assms by (simp add: store_flush_def store_size_card store_create_def)

lemma store_destroy_all:
  assumes "store_inv s"
  shows "store_destroy s = store_entries s"
proof -
  have "length (t_buckets (ht1 s)) = t_size (ht1 s)"
    using assms by (cases "is_rehashing s") (simp_all add: table_inv_length store_inv_ht1 store_inv_idle table_init_def)
  then show ?thesis using table_inv_length [OF store_inv_ht0 [OF assms]]
    by (auto simp: store_destroy_def table_free_entries_def store_entries_def table_entries_def)
qed

section \<open>Progress and cost of a rehash\<close>

text \<open>The buckets a rehash has left; 0 outside a rehash.\<close>

definition rehash_left :: "store \<Rightarrow> nat" where
  "rehash_left s = (if is_rehashing s then t_size (ht0 s) - nat (rehash_idx s) else 0)"

lemma rehash_left_0: "store_inv s \<Longrightarrow> rehash_left s = 0 \<longleftrightarrow> \<not> is_rehashing s"
  by (auto simp: rehash_left_def store_inv_def)

lemma rehash_step_progress:
  assumes inv: "store_inv s"
  shows "rehash_left (rehash_step s) \<le> rehash_left s - 1"
proof (cases "is_rehashing s")
  case False
  then show ?thesis by (simp add: rehash_step_def rehash_left_def)
next
  case True
  have lt: "nat (rehash_idx s) < t_size (ht0 s)" using inv True by (simp add: store_inv_def)
  have "scan_ok s (rehash_scan 0 s)"
    by (rule rehash_scan_ok [OF store_inv_rehash [OF inv True] lt]) (simp add: REHASH_EMPTY_VISITS_LIMIT_def)
  with store_inv_rehash [OF inv True] have "nat (rehash_idx s) < nat (rehash_idx (rehash_scan 0 s))"
    "t_size (ht0 (rehash_scan 0 s)) = t_size (ht0 s)" by (simp_all add: scan_ok_def rehash_inv_def)
  with True lt show ?thesis by (auto simp: rehash_step_def rehash_left_def Let_def is_rehashing_def)
qed

lemma locate_live_rehash:
  "rehash_left (snd (locate_live now s k)) = rehash_left s"
proof -
  have "is_rehashing (with_ht t s (slot_unlink (the_ht t s) sl)) = is_rehashing s \<and>
    t_size (ht0 (with_ht t s (slot_unlink (the_ht t s) sl))) = t_size (ht0 s) \<and>
    rehash_idx (with_ht t s (slot_unlink (the_ht t s) sl)) = rehash_idx s" for t sl
    by (cases t) (simp_all add: is_rehashing_def slot_unlink_def Let_def)
  then show ?thesis by (auto simp: locate_live_def rehash_left_def Let_def split: option.splits)
qed

lemma store_get_rehash:
  assumes "store_inv s"
  shows "rehash_left (snd (store_get now s k)) \<le> rehash_left s - 1"
proof -
  have "snd (store_get now s k) = snd (locate_live now (rehash_step s) k)"
    by (auto simp: store_get_def split: prod.splits option.splits)
  then show ?thesis using rehash_step_progress [OF assms] by (simp add: locate_live_rehash)
qed

lemma migrate_chain_src:
  "migrate_chain es (src, dst) = (src', dst') \<Longrightarrow> t_buckets src' = t_buckets src"
  by (induction es arbitrary: src dst) auto

lemma rehash_scan_cost:
  assumes "v \<le> REHASH_EMPTY_VISITS_LIMIT" and "0 \<le> rehash_idx s"
  shows "rehash_idx (rehash_scan v s) \<le> rehash_idx s + int (REHASH_EMPTY_VISITS_LIMIT - v) \<and>
    (\<exists>b. \<forall>i. i \<noteq> b \<longrightarrow> t_buckets (ht0 (rehash_scan v s)) ! i = t_buckets (ht0 s) ! i)"
  using assms
proof (induction v s rule: rehash_scan.induct)
  case (1 v s)
  let ?c = "t_buckets (ht0 s) ! nat (rehash_idx s)" and ?s = "s\<lparr>rehash_idx := rehash_idx s + 1\<rparr>"
  consider (stop) "\<not> (v < REHASH_EMPTY_VISITS_LIMIT \<and> nat (rehash_idx s) < t_size (ht0 s))"
    | (skip) "v < REHASH_EMPTY_VISITS_LIMIT" "nat (rehash_idx s) < t_size (ht0 s)" "?c = []"
    | (move) "v < REHASH_EMPTY_VISITS_LIMIT" "nat (rehash_idx s) < t_size (ht0 s)" "?c \<noteq> []" by blast
  then show ?case
  proof cases
    case stop
    then show ?thesis by (subst (1 2) rehash_scan.simps) (simp only: if_False, simp)
  next
    case skip
    then have eq: "rehash_scan v s = rehash_scan (Suc v) ?s" by (subst rehash_scan.simps) simp
    from "1.IH" [of ?c] skip "1.prems" show ?thesis unfolding eq by (auto simp: of_nat_diff)
  next
    case move
    obtain src dst where m: "migrate_chain ?c (ht0 s, ht1 s) = (src, dst)" by fastforce
    have "t_buckets src = t_buckets (ht0 s)" using migrate_chain_src [OF m] by simp
    with move m "1.prems" show ?thesis
      by (subst (1 2) rehash_scan.simps) (auto intro!: exI [of _ "nat (rehash_idx s)"])
  qed
qed

section \<open>Reachable stores\<close>

text \<open>Every expiry time fits its \<open>int64_t\<close> field.\<close>

definition expires_ok :: "kv \<Rightarrow> bool" where
  "expires_ok m \<longleftrightarrow> (\<forall>k v x. m k = Some (v, x) \<longrightarrow> int64_ok x)"

lemma expires_ok_update: "expires_ok m \<Longrightarrow> int64_ok x \<Longrightarrow> expires_ok (m(k \<mapsto> (v, x)))"
  by (auto simp: expires_ok_def)

lemma expires_ok_delete: "expires_ok m \<Longrightarrow> expires_ok (m(k := None))"
  by (auto simp: expires_ok_def)

lemma expires_ok_touch: "expires_ok m \<Longrightarrow> expires_ok (touch now m k)"
  by (auto simp: expires_ok_def touch_def dest: live_SomeD)

lemma expires_ok_empty: "expires_ok Map.empty"
  by (simp add: expires_ok_def)

lemma expires_ok_live: "expires_ok m \<Longrightarrow> live now m k = Some (v, x) \<Longrightarrow> int64_ok x"
  by (auto simp: expires_ok_def dest: live_SomeD)

lemmas expires_ok_intros = expires_ok_update expires_ok_delete expires_ok_touch expires_ok_empty

lemma incr_spec_expires:
  "expires_ok m \<Longrightarrow> incr_spec now m k d = (st, v, m') \<Longrightarrow> expires_ok m'"
  by (auto simp: incr_spec_def intro!: expires_ok_intros dest: expires_ok_live
      split: option.splits if_splits)

text \<open>One public call that can change the store; the \<open>int64_t\<close> arguments are in range.\<close>

inductive store_call :: "store \<Rightarrow> store \<Rightarrow> bool" where
  set: "int64_ok x \<Longrightarrow> store_call s (snd (store_set s k v x))"
| get: "store_call s (snd (store_get now s k))"
| exists: "store_call s (snd (store_exists now s k))"
| del: "store_call s (snd (store_del s k))"
| expire: "int64_ok x \<Longrightarrow> store_call s (snd (store_expire now s k x))"
| ttl: "store_ttl_ms now now' s k = Some (r, s') \<Longrightarrow> store_call s s'"
| incr: "int64_ok d \<Longrightarrow> store_incrby now s k d = Some (st, r, s') \<Longrightarrow> store_call s s'"
| flush: "store_call s (snd (store_flush s))"

inductive store_reachable :: "store \<Rightarrow> bool" where
  create: "store_reachable store_create"
| call: "store_reachable s \<Longrightarrow> store_call s s' \<Longrightarrow> store_reachable s'"

lemma store_call_inv:
  assumes "store_call s s'" and "store_inv s" and "expires_ok (store_abs s)"
  shows "store_inv s' \<and> expires_ok (store_abs s')"
  using assms
proof (induction rule: store_call.induct)
  case (set x s k v)
  then show ?case by (metis store_set_ok(1,2) expires_ok_update)
next
  case (get s now k)
  then show ?case by (simp add: store_get_ok expires_ok_intros)
next
  case (exists s now k)
  then show ?case by (simp add: store_exists_ok expires_ok_intros)
next
  case (del s k)
  then show ?case by (metis store_del_ok expires_ok_delete)
next
  case (expire x s now k)
  then show ?case by (simp add: store_expire_ok expires_ok_intros split: option.split)
next
  case (ttl now now' s k r s')
  obtain s'' where "store_inv s''" "store_abs s'' = touch now (store_abs s) k"
    "store_ttl_ms now now' s k =
       (case live now (store_abs s) k of
          None \<Rightarrow> Some (STORE_TTL_NO_KEY, s'')
        | Some (_, x) \<Rightarrow>
            if x = 0 then Some (STORE_TTL_NO_EXPIRY, s'')
            else do { r \<leftarrow> i64 (x - now'); Some (max 0 r, s'') })"
    using store_ttl_ms_ok [OF ttl.prems(1)] by blast
  with ttl show ?case
    by (auto simp: expires_ok_intros split: option.splits if_splits Option.bind_splits)
next
  case (incr d now s k st r s')
  obtain st' v s'' where "store_incrby now s k d = Some (st', v, s'')" "store_inv s''"
    "(st', v, store_abs s'') = incr_spec now (store_abs s) k d"
    using store_incrby_ok [OF incr.prems(1) incr.hyps(1)] by metis
  with incr show ?case by (metis incr_spec_expires option.inject prod.inject)
next
  case (flush s)
  then show ?case by (simp add: store_flush_ok store_create_inv store_create_abs expires_ok_empty)
qed

lemma store_reachable_inv: "store_reachable s \<Longrightarrow> store_inv s \<and> expires_ok (store_abs s)"
  by (induction rule: store_reachable.induct)
    (auto simp: store_create_inv store_create_abs expires_ok_empty dest: store_call_inv)

section \<open>Properties\<close>

text \<open>A store in the middle of a rehash, for the witnesses: four keys fill the initial table.\<close>

definition demo_store :: store where
  "demo_store = fold (\<lambda>k s. snd (store_set s k k 0)) [''a'', ''b'', ''c'', ''d''] store_create"

lemma demo_store_inv: "store_inv demo_store"
  by (simp add: demo_store_def store_set_ok store_create_inv)

lemma demo_store_reachable: "store_reachable demo_store"
proof -
  have "store_reachable (snd (store_set s k v 0))" if "store_reachable s" for s k v
    using store_reachable.call [OF that store_call.set] by (simp add: int64_defs)
  then show ?thesis by (simp add: demo_store_def store_reachable.create)
qed

lemma demo_store_abs: "store_abs demo_store =
    [''a'' \<mapsto> (''a'', 0), ''b'' \<mapsto> (''b'', 0), ''c'' \<mapsto> (''c'', 0), ''d'' \<mapsto> (''d'', 0)]"
  by (simp add: demo_store_def store_set_ok store_create_inv store_create_abs)

lemma fnv1a_hash_letters:
  "fnv1a_hash ''a'' = 0xaf63dc4c8601ec8c" "fnv1a_hash ''b'' = 0xaf63df4c8601f1a5"
  "fnv1a_hash ''c'' = 0xaf63de4c8601eff2" "fnv1a_hash ''d'' = 0xaf63d94c8601e773"
  by (simp_all add: fnv1a_hash_def)

lemmas store_eval = store_set_def store_create_def rehash_step_def is_rehashing_def
  find_slot_either_def find_in_table_def bucket_ix_def table_init_def STORE_INITIAL_SIZE_def
  store_insert_def push_entry_def maybe_start_rehash_def next_pow2_def double_until_def while_unfold
  Let_def fnv1a_hash_letters

lemma demo_store_rehashing: "is_rehashing demo_store" "t_size (ht0 demo_store) = 4"
  by (simp_all add: demo_store_def store_eval)

text \<open>
  C20: every store the public calls can produce from \<open>store_create\<close>, in any order and at any clock
  readings, is well formed: power-of-two tables, exact \<open>used\<close> counters, every entry in the bucket its
  hash selects, no key twice over the two tables, empty buckets below the rehash cursor, and expiry
  times within \<open>int64_t\<close>.
\<close>

theorem store_reachable_wf:
  assumes "store_reachable s"
  shows "store_inv s \<and> expires_ok (store_abs s)"
  using assms by (rule store_reachable_inv)

theorem store_reachable_wf_witness:
  "store_reachable demo_store \<and> is_rehashing demo_store \<and> store_inv demo_store"
  using store_reachable_wf [OF demo_store_reachable] demo_store_reachable demo_store_rehashing by simp

text \<open>
  C5: \<open>store_set\<close> is the map update, in the middle of a rehash as outside one: the key gets the value
  and exactly the given expiry, no other key changes, and the result is 1 for a new key and 0 for an
  overwritten one.
\<close>

theorem store_set_refines:
  assumes "store_inv s"
  shows "store_inv (snd (store_set s k v x)) \<and>
    store_abs (snd (store_set s k v x)) = (store_abs s)(k \<mapsto> (v, x)) \<and>
    fst (store_set s k v x) = (if k \<in> dom (store_abs s) then 0 else 1)"
  using st.set_laws [OF assms] by blast

theorem store_set_refines_witness:
  "is_rehashing demo_store \<and> fst (store_set demo_store ''b'' ''new'' 7) = 0 \<and>
   store_abs (snd (store_set demo_store ''b'' ''new'' 7)) ''b'' = Some (''new'', 7)"
  using store_set_refines [OF demo_store_inv, of "''b''" "''new''" 7] demo_store_rehashing
  by (simp add: demo_store_abs)

text \<open>
  C6: \<open>store_get\<close> returns the value of a key exactly when the key is present and not expired at the
  clock reading, removes the entry when it is expired, and changes no other key.
\<close>

theorem store_get_refines:
  assumes "store_inv s"
  shows "store_inv (snd (store_get now s k)) \<and>
    fst (store_get now s k) = map_option fst (live now (store_abs s) k) \<and>
    store_abs (snd (store_get now s k)) = (store_abs s)(k := live now (store_abs s) k)"
  using st.get_laws [OF assms] by (simp add: touch_def)

theorem store_get_refines_witness:
  "fst (store_get 100 (snd (store_set demo_store ''b'' ''new'' 7)) ''b'') = None \<and>
   fst (store_get 5 (snd (store_set demo_store ''b'' ''new'' 7)) ''b'') = Some ''new''"
  using store_get_refines [OF store_set_ok(1) [OF demo_store_inv], of 100 "''b''" "''new''" 7 "''b''"]
    store_get_refines [OF store_set_ok(1) [OF demo_store_inv], of 5 "''b''" "''new''" 7 "''b''"]
  by (simp add: store_set_ok demo_store_inv expired_def)

text \<open>
  C32: \<open>store_del\<close> removes exactly the given key and reports whether an entry was stored under it; a
  later \<open>store_get\<close> or \<open>store_exists\<close> of the key finds nothing.
\<close>

theorem store_del_refines:
  assumes "store_inv s"
  shows "store_inv (snd (store_del s k)) \<and>
    store_abs (snd (store_del s k)) = (store_abs s)(k := None) \<and>
    fst (store_del s k) = (if k \<in> dom (store_abs s) then 1 else 0) \<and>
    fst (store_get now (snd (store_del s k)) k) = None \<and>
    fst (store_exists now (snd (store_del s k)) k) = 0"
  using st.del_laws [OF assms, of k] st.get_after_del [OF assms]
    st.exists_ret [OF st.del_invar [OF assms], of now k k] by simp

theorem store_del_refines_witness:
  "fst (store_del demo_store ''c'') = 1 \<and> fst (store_get 0 (snd (store_del demo_store ''c'')) ''c'') = None"
  using store_del_refines [OF demo_store_inv, of "''c''" 0] by (simp add: demo_store_abs)

text \<open>
  \<open>store_expire\<close> on a key that is live at the clock reading stores the new expiry and keeps the
  value; on any other key it returns 0 and at most drops that key's expired entry.
\<close>

theorem store_expire_refines:
  assumes "store_inv s"
  shows "store_inv (snd (store_expire now s k x)) \<and>
    (case live now (store_abs s) k of
       None \<Rightarrow> fst (store_expire now s k x) = 0 \<and>
         store_abs (snd (store_expire now s k x)) = (store_abs s)(k := None)
     | Some (v, _) \<Rightarrow> fst (store_expire now s k x) = 1 \<and>
         store_abs (snd (store_expire now s k x)) = (store_abs s)(k \<mapsto> (v, x)))"
  using store_expire_ok [OF assms, of now k x] by (auto simp: touch_def split: option.splits)

theorem store_expire_refines_witness:
  "fst (store_expire 1 demo_store ''a'' 50) = 1 \<and>
   store_abs (snd (store_expire 1 demo_store ''a'' 50)) ''a'' = Some (''a'', 50)"
  using store_expire_refines [OF demo_store_inv, of 1 "''a''" 50]
  by (simp add: demo_store_abs live_def expired_def)

text \<open>
  With clock readings that are not before 1970 and an expiry time in range, \<open>store_ttl_ms\<close> has no signed
  overflow; it answers -2 for an absent or expired key, -1 for a key without expiry, and otherwise the
  remaining time at its second clock reading, never negative.
\<close>

theorem store_ttl_ms_spec:
  assumes "store_inv s" and "expires_ok (store_abs s)" and "0 \<le> now" and "0 \<le> now'" and "int64_ok now'"
  shows "\<exists>s'. store_inv s' \<and> store_abs s' = (store_abs s)(k := live now (store_abs s) k) \<and>
    store_ttl_ms now now' s k =
      Some (case live now (store_abs s) k of
              None \<Rightarrow> - 2
            | Some (_, x) \<Rightarrow> if x = 0 then - 1 else max 0 (x - now'), s')"
proof -
  obtain s' where s': "store_inv s'" "store_abs s' = touch now (store_abs s) k"
    "store_ttl_ms now now' s k =
       (case live now (store_abs s) k of
          None \<Rightarrow> Some (STORE_TTL_NO_KEY, s')
        | Some (_, x) \<Rightarrow>
            if x = 0 then Some (STORE_TTL_NO_EXPIRY, s')
            else do { r \<leftarrow> i64 (x - now'); Some (max 0 r, s') })"
    using store_ttl_ms_ok [OF assms(1)] by blast
  have "int64_ok (x - now')" if "live now (store_abs s) k = Some (v, x)" "x \<noteq> 0" for v x
    using live_SomeD [OF that(1)] expires_ok_live [OF assms(2) that(1)] that(2) assms(3,4,5)
    by (auto simp: expired_def int64_defs)
  with s' show ?thesis
    by (intro exI [of _ s'])
      (auto simp: touch_def STORE_TTL_NO_KEY_def STORE_TTL_NO_EXPIRY_def split: option.splits)
qed

theorem store_ttl_ms_spec_witness:
  "\<exists>s'. store_ttl_ms 10 11 (snd (store_set demo_store ''b'' ''new'' 70)) ''b'' = Some (59, s')"
proof -
  have "expires_ok (store_abs demo_store)" by (simp add: store_reachable_inv demo_store_reachable)
  then have "expires_ok (store_abs (snd (store_set demo_store ''b'' ''new'' 70)))"
    by (auto simp: store_set_ok demo_store_inv expires_ok_def int64_defs)
  from store_ttl_ms_spec [OF store_set_ok(1) [OF demo_store_inv] this, of 10 11 "''b''"] show ?thesis
    by (auto simp: store_set_ok demo_store_inv expired_def int64_defs)
qed



text \<open>
  C34: the load factor stays at most 1: in every reachable store the number of keys is at most the
  number of buckets of the table inserts go to, although no growth is started while a rehash runs.
\<close>

theorem store_load_bounded:
  assumes "store_reachable s"
  shows "store_size s \<le> t_size (if is_rehashing s then ht1 s else ht0 s)"
proof -
  have inv: "store_inv s" using store_reachable_inv [OF assms] by simp
  then show ?thesis
    by (auto simp: store_size_entries store_inv_def rehash_inv_def split: if_splits)
qed

theorem store_load_bounded_witness:
  "store_size demo_store \<le> t_size (if is_rehashing demo_store then ht1 demo_store else ht0 demo_store)"
  using store_load_bounded [OF demo_store_reachable] .

text \<open>
  C36: a rehash always completes: after as many lookups as the old table has buckets, whatever the keys
  and clock readings, no rehash is in progress.
\<close>

theorem rehash_completes:
  assumes "store_inv s" and "t_size (ht0 s) \<le> length ops"
  shows "\<not> is_rehashing (fold (\<lambda>(now, k) s. snd (store_get now s k)) ops s)"
proof -
  have left: "store_inv (fold (\<lambda>(now, k) s. snd (store_get now s k)) ops s) \<and>
      rehash_left (fold (\<lambda>(now, k) s. snd (store_get now s k)) ops s) \<le> rehash_left s - length ops"
    using assms(1)
  proof (induction ops arbitrary: s)
    case Nil
    then show ?case by simp
  next
    case (Cons op ops)
    obtain now k where op: "op = (now, k)" by (cases op)
    from Cons.IH [of "snd (store_get now s k)"] store_get_rehash [OF Cons.prems, of now k]
      store_get_ok [OF Cons.prems, of now k]
    show ?case by (simp add: op) linarith
  qed
  have "rehash_left s \<le> t_size (ht0 s)" by (simp add: rehash_left_def)
  with left assms(2) have "rehash_left (fold (\<lambda>(now, k) s. snd (store_get now s k)) ops s) = 0" by linarith
  with left show ?thesis using rehash_left_0 by blast
qed

theorem rehash_completes_witness:
  "is_rehashing demo_store \<and>
   \<not> is_rehashing (fold (\<lambda>(now, k) s. snd (store_get now s k)) [(0, ''a''), (1, ''b''), (2, ''a''), (3, ''z'')] demo_store)"
  using rehash_completes [OF demo_store_inv, of "[(0, ''a''), (1, ''b''), (2, ''a''), (3, ''z'')]"]
  by (simp add: demo_store_rehashing del: fold_simps)

text \<open>
  A single \<open>rehash_step\<close> is bounded work that changes no key: it keeps the stored entries as a
  multiset, and its scan empties at most one bucket of the old table and moves the cursor by at most
  \<open>REHASH_EMPTY_VISITS_LIMIT\<close> and, when a rehash is running, by at least one bucket.
\<close>

theorem rehash_step_bounded:
  assumes "store_inv s"
  shows "mset (store_entries (rehash_step s)) = mset (store_entries s) \<and>
    store_abs (rehash_step s) = store_abs s \<and>
    (is_rehashing s \<longrightarrow>
      rehash_idx s < rehash_idx (rehash_scan 0 s) \<and> rehash_idx (rehash_scan 0 s) \<le> rehash_idx s + 10 \<and>
      (\<exists>b. \<forall>i. i \<noteq> b \<longrightarrow> t_buckets (ht0 (rehash_scan 0 s)) ! i = t_buckets (ht0 s) ! i))"
proof -
  have "rehash_idx s < rehash_idx (rehash_scan 0 s) \<and> rehash_idx (rehash_scan 0 s) \<le> rehash_idx s + 10 \<and>
      (\<exists>b. \<forall>i. i \<noteq> b \<longrightarrow> t_buckets (ht0 (rehash_scan 0 s)) ! i = t_buckets (ht0 s) ! i)" if r: "is_rehashing s"
  proof -
    have lt: "nat (rehash_idx s) < t_size (ht0 s)" using assms r by (simp add: store_inv_def)
    have nn: "0 \<le> rehash_idx s" using store_inv_rehash [OF assms r] by (simp add: rehash_inv_def)
    have "scan_ok s (rehash_scan 0 s)"
      by (rule rehash_scan_ok [OF store_inv_rehash [OF assms r] lt]) (simp add: REHASH_EMPTY_VISITS_LIMIT_def)
    with rehash_scan_cost [of 0 s, OF _ nn] show ?thesis
      by (simp add: scan_ok_def REHASH_EMPTY_VISITS_LIMIT_def)
  qed
  with rehash_step_mset [OF assms] rehash_step_abs [OF assms] show ?thesis by blast
qed

theorem rehash_step_bounded_witness:
  "is_rehashing demo_store \<and> rehash_idx demo_store < rehash_idx (rehash_scan 0 demo_store) \<and>
   rehash_idx (rehash_scan 0 demo_store) \<le> rehash_idx demo_store + 10"
  using rehash_step_bounded [OF demo_store_inv] demo_store_rehashing(1) by simp

text \<open>
  Masking the 64-bit hash with \<open>mask\<close> is the remainder modulo the table size, and the index stays
  inside the bucket array, for both tables of a well-formed store.
\<close>

theorem bucket_index_safe:
  assumes "store_inv s" and "t = ht0 s \<or> (is_rehashing s \<and> t = ht1 s)"
  shows "bucket_ix t h = unat h mod t_size t \<and> bucket_ix t h < length (t_buckets t)"
proof -
  have "table_inv t" using assms by (auto simp: store_inv_ht0 store_inv_ht1)
  then show ?thesis by (simp add: bucket_ix_mod table_inv_length table_inv_pos)
qed

theorem bucket_index_safe_witness:
  "bucket_ix (ht1 demo_store) 0xaf63dc4c8601ec8c = unat (0xaf63dc4c8601ec8c :: u64) mod t_size (ht1 demo_store)
    \<and> bucket_ix (ht1 demo_store) 0xaf63dc4c8601ec8c < length (t_buckets (ht1 demo_store))"
  using bucket_index_safe [OF demo_store_inv, of "ht1 demo_store" "0xaf63dc4c8601ec8c"] demo_store_rehashing(1)
  by blast

text \<open>
  \<open>store_foreach\<close> calls its visitor exactly once for every key that is live at the clock reading,
  with that key's value and expiry, and never for an expired entry, also in the middle of a rehash.
\<close>

theorem store_foreach_visits_live:
  assumes "store_inv s"
  shows "distinct (map fst (store_foreach now s (\<lambda>k v x acc. acc @ [(k, v, x)]) [])) \<and>
    map_of (store_foreach now s (\<lambda>k v x acc. acc @ [(k, v, x)]) []) = live now (store_abs s)"
proof -
  let ?visited = "store_foreach now s (\<lambda>k v x acc. acc @ [(k, v, x)]) []"
  have "fold (\<lambda>e acc. acc @ [(e_key e, e_val e, e_expire_at_ms e)]) es acc = acc @ map entry_kv es" for es acc
    by (induction es arbitrary: acc) (simp_all add: entry_kv_def)
  then have v: "?visited = map entry_kv (live_entries now s)"
    by (simp add: store_foreach_fold [OF assms])
  have "map fst ?visited = map e_key (live_entries now s)" by (simp add: v)
  moreover have "map_of ?visited = entries_map (live_entries now s)" by (simp add: v entries_map_def)
  ultimately show ?thesis
    using live_entries_distinct [OF assms, of now] live_entries_map [OF assms, of now] by simp
qed

theorem store_foreach_visits_live_witness:
  "map_of (store_foreach 3 demo_store (\<lambda>k v x acc. acc @ [(k, v, x)]) []) = store_abs demo_store"
  using store_foreach_visits_live [OF demo_store_inv, of 3]
  by (simp add: demo_store_abs expired_def del: live_update) (rule ext, simp add: live_def expired_def)

text \<open>
  C39: where the code departs from its interface comments: for a key whose TTL has passed but whose entry
  was not looked up yet, \<open>store_exists\<close> says 0, \<open>store_del\<close> still answers 1 and \<open>store_size\<close> still counts it.
\<close>

theorem store_del_size_count_expired:
  assumes "store_inv s" and "store_abs s k = Some (v, x)" and "expired now x"
  shows "fst (store_exists now s k) = 0 \<and> fst (store_del s k) = 1 \<and>
    store_size s = Suc (store_size (snd (store_exists now s k)))"
proof -
  have l: "live now (store_abs s) k = None" using assms(2,3) by (simp add: live_def)
  have "k \<in> dom (store_abs s)" using assms(2) by auto
  then have "card (dom (store_abs s)) = Suc (card (dom (store_abs s) - {k}))"
    using st.finite_abs [OF assms(1)] by (metis card_Suc_Diff1)
  moreover have "dom (touch now (store_abs s) k) = dom (store_abs s) - {k}" using l by (simp add: touch_def)
  ultimately show ?thesis
    using st.exists_laws [OF assms(1), of now k] st.del_ret [OF assms(1), of k] l
      st.count_abs [OF assms(1)] st.count_abs [OF st.exists_invar [OF assms(1)], of now k]
      assms(2)
    by (simp add: domIff)
qed

theorem store_del_size_count_expired_witness:
  "fst (store_exists 100 (snd (store_set demo_store ''b'' ''old'' 7)) ''b'') = 0 \<and>
   fst (store_del (snd (store_set demo_store ''b'' ''old'' 7)) ''b'') = 1"
  using store_del_size_count_expired [OF store_set_ok(1) [OF demo_store_inv], of "''b''" "''old''" 7 "''b''" "''old''" 7 100]
  by (simp add: store_set_ok demo_store_inv expired_def)

text \<open>
  \<open>store_flush\<close> reports the number of stored keys and leaves exactly the freshly created store, and
  \<open>store_destroy\<close> frees every entry of both tables, each key once.
\<close>

theorem store_flush_destroy:
  assumes "store_inv s"
  shows "store_flush s = (card (dom (store_abs s)), store_create) \<and>
    mset (store_destroy s) = mset (store_entries s) \<and> distinct (map e_key (store_destroy s))"
  using store_flush_ok [OF assms] store_destroy_all [OF assms] store_inv_distinct [OF assms] by simp

theorem store_flush_destroy_witness:
  "fst (store_flush demo_store) = 4 \<and> distinct (map e_key (store_destroy demo_store))"
  using store_flush_destroy [OF demo_store_inv] by (simp add: demo_store_abs)

end
