(* ===== verification/Persist.thy ===== *)
theory Persist
  imports Store Buf
begin

text \<open>
  Snapshots (\<open>src/persist.c\<close>, \<open>include/persist.h\<close>). The file system is a map from paths to contents.
  What the C library decides (does \<open>fopen\<close> succeed, how much does \<open>fwrite\<close> accept, does \<open>rename\<close>
  work) is in the oracles \<open>save_io\<close> and \<open>load_io\<close>. \<open>persist_save\<close> returns the file system
  after every change it makes, so that a crash at any point is one of these states.
  Positions and lengths of the loader are 64-bit words, with their wrap-around.
\<close>

datatype persist_status = PERSIST_OK | PERSIST_ERR_IO | PERSIST_ERR_FORMAT | PERSIST_ERR_CORRUPT

type_synonym fs = "bytes \<rightharpoonup> bytes"

section \<open>Wire helpers\<close>

fun write_le :: "nat \<Rightarrow> 'a :: len word \<Rightarrow> bytes" where
  "write_le 0 v = []"
| "write_le (Suc n) v = char_of (unat (v AND 0xff)) # write_le n (drop_bit 8 v)"

definition write_u64 :: "u64 \<Rightarrow> bytes" where
  "write_u64 v = write_le 8 v"

definition write_u32 :: "u32 \<Rightarrow> bytes" where
  "write_u32 v = write_le 4 v"

text \<open>The reading loops run from the last byte to the first.\<close>

definition read_u64 :: "bytes \<Rightarrow> u64" where
  "read_u64 p = foldr (\<lambda>c v. push_bit 8 v OR of_char c) p 0"

definition read_u32 :: "bytes \<Rightarrow> u32" where
  "read_u32 p = foldr (\<lambda>c v. push_bit 8 v OR of_char c) p 0"

definition checksum :: "bytes \<Rightarrow> u32" where
  "checksum buf = foldl (\<lambda>sum c. sum + of_char c) 0 buf"

definition MAGIC :: bytes where "MAGIC = ''KVSTORE1''"
definition MAGIC_LEN :: nat where "MAGIC_LEN = 8"

section \<open>Saving\<close>

text \<open>
  The growing image of the file. \<open>sc_reqs\<close> counts the calls of \<open>realloc\<close> so that the i-th one can be
  made to fail by \<open>mem i\<close>.
\<close>

record save_ctx =
  sc_buf :: gbuf
  sc_count :: nat
  sc_err :: bool
  sc_reqs :: nat

definition ctx_append :: "(nat \<Rightarrow> bool) \<Rightarrow> bytes \<Rightarrow> save_ctx \<Rightarrow> save_ctx option" where
  "ctx_append mem d ctx =
     (if sc_err ctx then Some ctx
      else
        (let b = sc_buf ctx; n = length d in
         if gb_len b + n > gb_cap b then
           (if \<not> mem (sc_reqs ctx) then Some (ctx\<lparr>sc_err := True, sc_reqs := sc_reqs ctx + 1\<rparr>)
            else do {
              b' \<leftarrow> gb_put (gb_grow 65536 (gb_len b + n) b) d;
              Some (ctx\<lparr>sc_buf := b', sc_reqs := sc_reqs ctx + 1\<rparr>)
            })
         else do {
           b' \<leftarrow> gb_put b d;
           Some (ctx\<lparr>sc_buf := b'\<rparr>)
         }))"

definition save_cb :: "(nat \<Rightarrow> bool) \<Rightarrow> bytes \<Rightarrow> bytes \<Rightarrow> int \<Rightarrow> save_ctx \<Rightarrow> save_ctx option" where
  "save_cb mem k v expire_at_ms ctx = do {
     ctx \<leftarrow> ctx_append mem (write_u64 (of_nat (length k))) ctx;
     ctx \<leftarrow> ctx_append mem k ctx;
     ctx \<leftarrow> ctx_append mem (write_u64 (of_nat (length v))) ctx;
     ctx \<leftarrow> ctx_append mem v ctx;
     ctx \<leftarrow> ctx_append mem (write_u64 (word_of_int expire_at_ms)) ctx;
     Some (ctx\<lparr>sc_count := sc_count ctx + 1\<rparr>)
   }"

text \<open>The outcome of the calls that write the file; \<open>io_kept\<close> bytes reach it when they do not all.\<close>

record save_io =
  io_tmpmem :: bool
  io_fopen :: bool
  io_fwrite :: nat
  io_fflush :: bool
  io_kept :: nat
  io_rename :: bool
  io_remove :: bool

text \<open>
  The write to \<open><path>.tmp\<close> and the rename: the status and the file system after each change. The
  content of the temporary file passes through its prefixes.
\<close>

definition write_atomically :: "save_io \<Rightarrow> bytes \<Rightarrow> bytes \<Rightarrow> fs \<Rightarrow> persist_status \<times> fs list" where
  "write_atomically io path img fs =
     (let tmppath = path @ ''.tmp'' in
      if \<not> io_tmpmem io then (PERSIST_ERR_IO, [fs])
      else if \<not> io_fopen io then (PERSIST_ERR_IO, [fs])
      else
        (let accepted = min (io_fwrite io) (length img);
             ok = (accepted = length img \<and> io_fflush io);
             reached = (if ok then length img else min (io_kept io) accepted);
             writing = map (\<lambda>i. fs(tmppath \<mapsto> take i img)) [0..<Suc reached];
             written = fs(tmppath \<mapsto> take reached img)
         in if ok \<and> io_rename io
            then (PERSIST_OK, fs # writing @ [(written(path := written tmppath))(tmppath := None)])
            else (PERSIST_ERR_IO, fs # writing @ (if io_remove io then [written(tmppath := None)] else []))))"

definition persist_save ::
    "int \<Rightarrow> (nat \<Rightarrow> bool) \<Rightarrow> save_io \<Rightarrow> store \<Rightarrow> bytes \<Rightarrow> fs \<Rightarrow> (persist_status \<times> fs list) option" where
  "persist_save now mem io s path fs = do {
     let ctx = \<lparr>sc_buf = gb_null, sc_count = 0, sc_err = False, sc_reqs = 0\<rparr>;
     ctx \<leftarrow> ctx_append mem (MAGIC @ replicate 8 NUL) ctx;
     ctx \<leftarrow> store_foreach now s (\<lambda>k v x ctx. ctx \<bind> save_cb mem k v x) (Some ctx);
     if sc_err ctx then Some (PERSIST_ERR_IO, [fs])
     else do {
       cells \<leftarrow> wr_span (gb_data (sc_buf ctx)) MAGIC_LEN (map Some (write_u64 (of_nat (sc_count ctx))));
       let ctx = ctx\<lparr>sc_buf := (sc_buf ctx)\<lparr>gb_data := cells\<rparr>\<rparr>;
       sofar \<leftarrow> gb_read (sc_buf ctx) 0 (gb_len (sc_buf ctx));
       ctx \<leftarrow> ctx_append mem (write_u32 (checksum sofar)) ctx;
       if sc_err ctx then Some (PERSIST_ERR_IO, [fs])
       else do {
         img \<leftarrow> gb_read (sc_buf ctx) 0 (gb_len (sc_buf ctx));
         Some (write_atomically io path img fs)
       }
     }
   }"

section \<open>Loading\<close>

definition read_u64_at :: "bytes \<Rightarrow> u64 \<Rightarrow> u64 option" where
  "read_u64_at data pos = do { p \<leftarrow> rd_span data (unat pos) 8; Some (read_u64 p) }"

text \<open>
  The loop over the entries, \<open>left\<close> of them to go. The key and the value are only pointers until
  \<open>store_set\<close> reads them.
\<close>

primrec load_entries ::
    "int \<Rightarrow> bytes \<Rightarrow> u64 \<Rightarrow> nat \<Rightarrow> u64 \<Rightarrow> store \<Rightarrow> (persist_status \<times> store) option" where
  "load_entries now data limit 0 pos s = Some (PERSIST_OK, s)"
| "load_entries now data limit (Suc left) pos s =
     (if pos + 8 > limit then Some (PERSIST_ERR_CORRUPT, s)
      else do {
        keylen \<leftarrow> read_u64_at data pos;
        let key = pos + 8;
        if key + keylen > limit then Some (PERSIST_ERR_CORRUPT, s)
        else do {
          let pos = key + keylen;
          if pos + 8 > limit then Some (PERSIST_ERR_CORRUPT, s)
          else do {
            vallen \<leftarrow> read_u64_at data pos;
            let val = pos + 8;
            if val + vallen > limit then Some (PERSIST_ERR_CORRUPT, s)
            else do {
              let pos = val + vallen;
              if pos + 8 > limit then Some (PERSIST_ERR_CORRUPT, s)
              else do {
                x \<leftarrow> read_u64_at data pos;
                let expire_at_ms = sint x;
                if expire_at_ms \<noteq> 0 \<and> expire_at_ms \<le> now
                then load_entries now data limit left (pos + 8) s
                else do {
                  k \<leftarrow> rd_span data (unat key) (unat keylen);
                  v \<leftarrow> rd_span data (unat val) (unat vallen);
                  load_entries now data limit left (pos + 8) (snd (store_set s k v expire_at_ms))
                }
              }
            }
          }
        }
      })"

declare load_entries.simps(2) [simp del]

text \<open>The outcome of the calls that read the file.\<close>

record load_io =
  io_open :: bool
  io_mem :: bool
  io_fread :: bool

definition persist_load :: "int \<Rightarrow> load_io \<Rightarrow> fs \<Rightarrow> bytes \<Rightarrow> store \<Rightarrow> (persist_status \<times> store) option" where
  "persist_load now io fs path s =
     (case (if io_open io then fs path else None) of
        None \<Rightarrow> Some (PERSIST_ERR_IO, s)
      | Some data \<Rightarrow>
          let fsz = length data in
          if fsz < MAGIC_LEN + 8 + 4 then Some (PERSIST_ERR_FORMAT, s)
          else if \<not> io_mem io then Some (PERSIST_ERR_IO, s)
          else if \<not> io_fread io then Some (PERSIST_ERR_IO, s)
          else if take MAGIC_LEN data \<noteq> MAGIC then Some (PERSIST_ERR_FORMAT, s)
          else do {
            stored \<leftarrow> rd_span data (fsz - 4) 4;
            if read_u32 stored \<noteq> checksum (take (fsz - 4) data) then Some (PERSIST_ERR_CORRUPT, s)
            else do {
              count \<leftarrow> read_u64_at data (of_nat MAGIC_LEN);
              load_entries now data (of_nat fsz - 4) (unat count) (of_nat MAGIC_LEN + 8) s
            }
          })"

fun persist_strerror :: "persist_status \<Rightarrow> bytes" where
  "persist_strerror PERSIST_OK = ''OK''"
| "persist_strerror PERSIST_ERR_IO = ''I/O error''"
| "persist_strerror PERSIST_ERR_FORMAT = ''unrecognized file format''"
| "persist_strerror PERSIST_ERR_CORRUPT = ''checksum mismatch (file corrupted)''"

section \<open>Little-endian numbers\<close>

lemma of_char_less: "(of_char c :: nat) < 256"
  by (metis char_of_char mod_less_divisor of_char_of zero_less_numeral)

definition le_val :: "bytes \<Rightarrow> nat" where
  "le_val p = foldr (\<lambda>c n. n * 256 + of_char c) p 0"

lemma le_val_simps [simp]: "le_val [] = 0" "le_val (c # p) = le_val p * 256 + of_char c"
  by (simp_all add: le_val_def)

lemma le_val_less: "le_val p < 256 ^ length p"
proof (induction p)
  case (Cons c p)
  from Cons have "Suc (le_val p) * 256 \<le> 256 ^ length p * 256" by (intro mult_le_mono1) simp
  moreover have "le_val p * 256 + of_char c < Suc (le_val p) * 256"
    unfolding mult_Suc using of_char_less [of c] by linarith
  ultimately show ?case by (simp only: le_val_simps length_Cons power_Suc mult.commute)
qed simp

lemma le_val_inject: "length p = length q \<Longrightarrow> le_val p = le_val q \<Longrightarrow> p = q"
proof (induction p q rule: list_induct2)
  case (Cons c p d q)
  have "(of_char c :: nat) = of_char d"
    using arg_cong [OF Cons.prems, of "\<lambda>n. n mod 256"] of_char_less [of c] of_char_less [of d] by simp
  then have "c = d" by (metis char_of_char)
  then show ?case using Cons by simp
qed simp

lemma shift_or_byte: "push_bit 8 v OR of_char c = (v * 256 + of_char c :: 'a :: len word)"
proof -
  have b: "(of_char c :: 'a word) = of_nat (of_char c)" by (simp add: of_nat_of_char)
  have "\<not> bit (of_nat (of_char c) :: 'a word) n" if "8 \<le> n" for n
  proof -
    have "(of_char c :: nat) < 2 ^ n" by (rule less_le_trans [OF of_char_less]) (use power_increasing [OF that, of "2::nat"] in simp)
    then have "\<not> bit (of_char c :: nat) n" by (simp add: bit_iff_odd)
    then show ?thesis by (simp add: bit_of_nat_iff)
  qed
  then have "\<And>n. \<not> bit (push_bit 8 v) n \<or> \<not> bit (of_char c :: 'a word) n"
    unfolding b by (auto simp: bit_push_bit_iff)
  from disjunctive_add [OF this] show ?thesis by (simp add: push_bit_eq_mult)
qed

lemma read_words:
  "foldr (\<lambda>c v. push_bit 8 v OR of_char c) p (0 :: 'a :: len word) = of_nat (le_val p)"
  by (induction p) (simp_all add: shift_or_byte of_nat_of_char)

lemma le_val_write: "le_val (write_le n (v :: 'a :: len word)) = unat v mod 256 ^ n"
proof (induction n arbitrary: v)
  case 0
  then show ?case by simp
next
  case (Suc n)
  have "v AND 0xff = take_bit 8 v" by (simp add: take_bit_eq_mask mask_eq_exp_minus_1)
  then have "unat (v AND 0xff) = take_bit 8 (unat v)" by (simp only: unsigned_take_bit_eq)
  then have "unat (v AND 0xff) = unat v mod 256" by (simp add: take_bit_eq_mod)
  moreover have "unat (drop_bit 8 v) = unat v div 256"
    using unat_drop_bit_eq [of 8 v] by (simp add: drop_bit_eq_div [where 'a = nat])
  ultimately show ?case
    by (simp add: Suc mod_mult2_eq ac_simps)
qed

lemma length_write_le [simp]: "length (write_le n v) = n"
  by (induction n arbitrary: v) simp_all

lemma write_lengths [simp]: "length (write_u64 v) = 8" "length (write_u32 w) = 4"
  by (simp_all add: write_u64_def write_u32_def)

lemma read_write_u64 [simp]: "read_u64 (write_u64 v) = v"
proof -
  have "unat v < 2 ^ LENGTH(64)" by (rule unsigned_less)
  then show ?thesis by (simp add: read_u64_def read_words write_u64_def le_val_write)
qed

lemma read_write_u32 [simp]: "read_u32 (write_u32 v) = v"
proof -
  have "unat v < 2 ^ LENGTH(32)" by (rule unsigned_less)
  then show ?thesis by (simp add: read_u32_def read_words write_u32_def le_val_write)
qed

lemma read_u32_inject:
  assumes "length p = 4" and "length q = 4" and "read_u32 p = read_u32 q"
  shows "p = q"
proof (rule le_val_inject)
  have "le_val r < 2 ^ 32" if "length r = 4" for r using le_val_less [of r] that by simp
  then have "unat (read_u32 r) = le_val r" if "length r = 4" for r
    using that by (simp add: read_u32_def read_words unat_of_nat)
  then show "le_val p = le_val q" using assms by metis
qed (simp add: assms)

lemma write_read_u64:
  assumes "length p = 8"
  shows "write_u64 (read_u64 p) = p"
proof (rule le_val_inject)
  have "le_val p < 2 ^ 64" using le_val_less [of p] assms by simp
  then show "le_val (write_u64 (read_u64 p)) = le_val p"
    by (simp add: read_u64_def read_words write_u64_def le_val_write unat_of_nat)
qed (simp add: assms)

section \<open>The checksum\<close>

lemma checksum_sum: "checksum xs = of_nat (sum_list (map of_char xs))"
proof -
  have "foldl (\<lambda>sum c. sum + of_char c) (a :: u32) xs = a + of_nat (sum_list (map of_char xs))" for a
    by (induction xs arbitrary: a) (simp_all add: add.assoc of_nat_of_char)
  from this [of 0] show ?thesis by (simp add: checksum_def)
qed

lemma checksum_update:
  assumes "i < length xs" and "c \<noteq> xs ! i"
  shows "checksum (xs[i := c]) \<noteq> checksum xs"
proof -
  let ?r = "sum_list (map of_char (take i xs)) + sum_list (map of_char (drop (Suc i) xs)) :: nat"
  have a: "checksum (xs[i := c]) = of_nat ?r + of_char c"
    using assms(1) by (simp add: checksum_sum upd_conv_take_nth_drop of_nat_of_char)
  have "sum_list (map of_char xs) = ?r + (of_char (xs ! i) :: nat)"
    by (subst id_take_nth_drop [OF assms(1)]) simp
  then have b: "checksum xs = of_nat ?r + of_char (xs ! i)" by (simp add: checksum_sum of_nat_of_char)
  have "(of_char c :: u32) \<noteq> of_char (xs ! i)"
  proof
    assume "(of_char c :: u32) = of_char (xs ! i)"
    then have "unat (of_nat (of_char c) :: u32) = unat (of_nat (of_char (xs ! i)) :: u32)" by (simp add: of_nat_of_char)
    then have "(of_char c :: nat) = of_char (xs ! i)"
      using of_char_less [of c] of_char_less [of "xs ! i"] by (simp add: unat_of_nat)
    then show False using assms(2) by (metis char_of_char)
  qed
  with a b show ?thesis by simp
qed

section \<open>The image of a snapshot\<close>

definition ser_entry :: "bytes \<times> bytes \<times> int \<Rightarrow> bytes" where
  "ser_entry e = (case e of (k, v, x) \<Rightarrow>
     write_u64 (of_nat (length k)) @ k @ write_u64 (of_nat (length v)) @ v @ write_u64 (word_of_int x))"

definition snapshot_body :: "(bytes \<times> bytes \<times> int) list \<Rightarrow> bytes" where
  "snapshot_body es = MAGIC @ write_u64 (of_nat (length es)) @ concat (map ser_entry es)"

definition snapshot :: "(bytes \<times> bytes \<times> int) list \<Rightarrow> bytes" where
  "snapshot es = snapshot_body es @ write_u32 (checksum (snapshot_body es))"

text \<open>
  \<open>ctx_adds a f d n\<close>: on a well-formed context \<open>f\<close> is defined and, unless an allocation failed, appends
  \<open>d\<close> and counts \<open>n\<close> entries; a failure is never forgotten, and with \<open>a\<close> there is none.
\<close>

definition ctx_adds :: "bool \<Rightarrow> (save_ctx \<Rightarrow> save_ctx option) \<Rightarrow> bytes \<Rightarrow> nat \<Rightarrow> bool" where
  "ctx_adds a f d n \<longleftrightarrow> (\<forall>ctx. gb_wf (sc_buf ctx) \<longrightarrow> (\<exists>ctx'. f ctx = Some ctx' \<and> gb_wf (sc_buf ctx') \<and>
     (a \<longrightarrow> sc_err ctx' = sc_err ctx) \<and>
     (\<not> sc_err ctx' \<longrightarrow> \<not> sc_err ctx \<and> gb_bytes (sc_buf ctx') = gb_bytes (sc_buf ctx) @ d \<and>
        sc_count ctx' = sc_count ctx + n)))"

lemma ctx_addsE:
  assumes "ctx_adds a f d n" and "gb_wf (sc_buf ctx)"
  obtains ctx' where "f ctx = Some ctx'" and "gb_wf (sc_buf ctx')" and "a \<Longrightarrow> sc_err ctx' = sc_err ctx"
    and "\<not> sc_err ctx' \<Longrightarrow> \<not> sc_err ctx \<and> gb_bytes (sc_buf ctx') = gb_bytes (sc_buf ctx) @ d \<and>
        sc_count ctx' = sc_count ctx + n"
  using assms by (auto simp: ctx_adds_def)

lemma ctx_adds_comp:
  assumes "ctx_adds a f d n" and "ctx_adds a g d' n'"
  shows "ctx_adds a (\<lambda>ctx. f ctx \<bind> g) (d @ d') (n + n')"
  unfolding ctx_adds_def
proof (intro allI impI)
  fix ctx :: save_ctx assume "gb_wf (sc_buf ctx)"
  from ctx_addsE [OF assms(1) this] obtain c1 where c1: "f ctx = Some c1" "gb_wf (sc_buf c1)" "a \<Longrightarrow> sc_err c1 = sc_err ctx"
    "\<not> sc_err c1 \<Longrightarrow> \<not> sc_err ctx \<and> gb_bytes (sc_buf c1) = gb_bytes (sc_buf ctx) @ d \<and> sc_count c1 = sc_count ctx + n"
    by metis
  from ctx_addsE [OF assms(2) c1(2)] obtain c2 where c2: "g c1 = Some c2" "gb_wf (sc_buf c2)" "a \<Longrightarrow> sc_err c2 = sc_err c1"
    "\<not> sc_err c2 \<Longrightarrow> \<not> sc_err c1 \<and> gb_bytes (sc_buf c2) = gb_bytes (sc_buf c1) @ d' \<and> sc_count c2 = sc_count c1 + n'"
    by metis
  from c1 c2 show "\<exists>ctx'. f ctx \<bind> g = Some ctx' \<and> gb_wf (sc_buf ctx') \<and> (a \<longrightarrow> sc_err ctx' = sc_err ctx) \<and>
     (\<not> sc_err ctx' \<longrightarrow> \<not> sc_err ctx \<and> gb_bytes (sc_buf ctx') = gb_bytes (sc_buf ctx) @ (d @ d') \<and>
        sc_count ctx' = sc_count ctx + (n + n'))"
    by simp
qed

lemma ctx_append_adds: "ctx_adds (\<forall>i. mem i) (ctx_append mem d) d 0"
  unfolding ctx_adds_def
proof (intro allI impI)
  fix ctx :: save_ctx assume wf: "gb_wf (sc_buf ctx)"
  from gb_append_ok [OF wf, of 65536 d] obtain b' where
    b': "gb_append 65536 (sc_buf ctx) d = Some b'" "gb_wf b'" "gb_bytes b' = gb_bytes (sc_buf ctx) @ d" by auto
  then show "\<exists>ctx'. ctx_append mem d ctx = Some ctx' \<and> gb_wf (sc_buf ctx') \<and>
     ((\<forall>i. mem i) \<longrightarrow> sc_err ctx' = sc_err ctx) \<and>
     (\<not> sc_err ctx' \<longrightarrow> \<not> sc_err ctx \<and> gb_bytes (sc_buf ctx') = gb_bytes (sc_buf ctx) @ d \<and>
        sc_count ctx' = sc_count ctx + 0)"
    using wf by (auto simp: ctx_append_def gb_append_def Let_def split: if_splits)
qed

text \<open>With allocations that succeed the context is a byte sink.\<close>

interpretation sc: byte_sink "\<lambda>ctx. gb_wf (sc_buf ctx) \<and> \<not> sc_err ctx" "\<lambda>ctx. gb_bytes (sc_buf ctx)"
  "\<lambda>ctx d. ctx_append (\<lambda>_. True) d ctx"
proof
  fix b :: save_ctx and d
  assume "gb_wf (sc_buf b) \<and> \<not> sc_err b"
  moreover from this gb_append_ok [of "sc_buf b" 65536 d] obtain b' where
    "gb_append 65536 (sc_buf b) d = Some b'" "gb_wf b'" "gb_bytes b' = gb_bytes (sc_buf b) @ d" by auto
  ultimately show "\<exists>b'. ctx_append (\<lambda>_. True) d b = Some b' \<and> (gb_wf (sc_buf b') \<and> \<not> sc_err b') \<and>
      gb_bytes (sc_buf b') = gb_bytes (sc_buf b) @ d"
    by (auto simp: ctx_append_def gb_append_def Let_def split: if_splits)
qed

lemma save_cb_adds: "ctx_adds (\<forall>i. mem i) (save_cb mem k v x) (ser_entry (k, v, x)) 1"
proof -
  have c: "ctx_adds a (\<lambda>ctx. Some (ctx\<lparr>sc_count := sc_count ctx + 1\<rparr>)) [] 1" for a by (simp add: ctx_adds_def)
  have "ctx_adds (\<forall>i. mem i) (save_cb mem k v x)
      (write_u64 (of_nat (length k)) @ k @ write_u64 (of_nat (length v)) @ v @ write_u64 (word_of_int x) @ [])
      (0 + (0 + (0 + (0 + (0 + 1)))))"
    unfolding save_cb_def by (intro ctx_adds_comp ctx_append_adds c)
  then show ?thesis by (simp add: ser_entry_def)
qed

lemma save_fold_adds:
  "ctx_adds (\<forall>i. mem i) (\<lambda>ctx. fold (\<lambda>e ctx. ctx \<bind> save_cb mem (e_key e) (e_val e) (e_expire_at_ms e)) es (Some ctx))
     (concat (map (\<lambda>e. ser_entry (entry_kv e)) es)) (length es)"
proof (induction es)
  case Nil
  then show ?case by (simp add: ctx_adds_def)
next
  case (Cons e es)
  have n: "fold (\<lambda>e ctx. ctx \<bind> save_cb mem (e_key e) (e_val e) (e_expire_at_ms e)) es None = None" for es
    by (induction es) simp_all
  have "ctx_adds (\<forall>i. mem i) (\<lambda>ctx. save_cb mem (e_key e) (e_val e) (e_expire_at_ms e) ctx \<bind>
      (\<lambda>ctx. fold (\<lambda>e ctx. ctx \<bind> save_cb mem (e_key e) (e_val e) (e_expire_at_ms e)) es (Some ctx)))
      (ser_entry (e_key e, e_val e, e_expire_at_ms e) @ concat (map (\<lambda>e. ser_entry (entry_kv e)) es))
      (1 + length es)"
    by (intro ctx_adds_comp save_cb_adds Cons.IH)
  moreover have "(save_cb mem (e_key e) (e_val e) (e_expire_at_ms e) ctx \<bind>
      (\<lambda>ctx. fold (\<lambda>e ctx. ctx \<bind> save_cb mem (e_key e) (e_val e) (e_expire_at_ms e)) es (Some ctx))) =
      fold (\<lambda>e ctx. ctx \<bind> save_cb mem (e_key e) (e_val e) (e_expire_at_ms e)) (e # es) (Some ctx)" for ctx
    using n [of es] by (cases "save_cb mem (e_key e) (e_val e) (e_expire_at_ms e) ctx") simp_all
  ultimately show ?case by (simp add: entry_kv_def del: fold_simps)
qed

lemma length_MAGIC [simp]: "length MAGIC = MAGIC_LEN"
  by (simp add: MAGIC_def MAGIC_LEN_def)

lemma backfill:
  assumes "gb_wf b" and "gb_bytes b = p @ q @ r" and "length q = length q'"
  shows "\<exists>cells. wr_span (gb_data b) (length p) (map Some q') = Some cells \<and>
    gb_wf (b\<lparr>gb_data := cells\<rparr>) \<and> gb_bytes (b\<lparr>gb_data := cells\<rparr>) = p @ q' @ r"
proof -
  from gb_wf_split [OF assms(1)] obtain tail where b: "gb_data b = map Some (gb_bytes b) @ tail"
    "gb_len b = length (gb_bytes b)" "gb_cap b = length (gb_bytes b) + length tail" by blast
  let ?cells = "map Some (p @ q' @ r) @ tail"
  have "wr_span (gb_data b) (length p) (map Some q') = Some ?cells"
    using assms(3) by (simp add: wr_span_def b(1) assms(2))
  moreover have "gb_wf (b\<lparr>gb_data := ?cells\<rparr>) \<and> gb_bytes (b\<lparr>gb_data := ?cells\<rparr>) = p @ q' @ r"
    by (rule gb_wfI) (use b assms(2,3) in simp_all)
  ultimately show ?thesis by blast
qed

text \<open>
  \<open>persist_save\<close> is defined, and what it hands to the file system is the image of the live entries,
  unless an allocation failed, when it touches no file.
\<close>

lemma persist_save_writes:
  assumes "store_inv s"
  shows "\<exists>r. persist_save now mem io s path fs = Some r \<and>
    (r = (PERSIST_ERR_IO, [fs]) \<or>
     r = write_atomically io path (snapshot (map entry_kv (live_entries now s))) fs) \<and>
    ((\<forall>i. mem i) \<longrightarrow> r = write_atomically io path (snapshot (map entry_kv (live_entries now s))) fs)"
proof -
  let ?es = "live_entries now s"
  let ?ctx0 = "\<lparr>sc_buf = gb_null, sc_count = 0, sc_err = False, sc_reqs = 0\<rparr>"
  obtain c1 where c1: "ctx_append mem (MAGIC @ replicate 8 NUL) ?ctx0 = Some c1" "gb_wf (sc_buf c1)"
    "(\<forall>i. mem i) \<Longrightarrow> \<not> sc_err c1"
    "\<not> sc_err c1 \<Longrightarrow> gb_bytes (sc_buf c1) = MAGIC @ replicate 8 NUL \<and> sc_count c1 = 0"
    using ctx_addsE [OF ctx_append_adds, of ?ctx0 mem "MAGIC @ replicate 8 NUL"] by auto
  obtain c2 where c2: "store_foreach now s (\<lambda>k v x ctx. ctx \<bind> save_cb mem k v x) (Some c1) = Some c2"
    "gb_wf (sc_buf c2)" "(\<forall>i. mem i) \<Longrightarrow> sc_err c2 = sc_err c1"
    "\<not> sc_err c2 \<Longrightarrow> \<not> sc_err c1 \<and> gb_bytes (sc_buf c2) = gb_bytes (sc_buf c1) @ concat (map ser_entry (map entry_kv ?es)) \<and>
       sc_count c2 = sc_count c1 + length ?es"
    using save_fold_adds [of mem ?es, unfolded ctx_adds_def, rule_format, OF c1(2)]
    unfolding store_foreach_fold [OF assms] by (auto simp: o_def)
  show ?thesis
  proof (cases "sc_err c2")
    case True
    then show ?thesis using c1(1,3) c2(1,3) by (auto simp: persist_save_def)
  next
    case False
    with c1(4) c2(4) have b2: "gb_bytes (sc_buf c2) = MAGIC @ replicate 8 NUL @ concat (map ser_entry (map entry_kv ?es))"
      "sc_count c2 = length ?es" by auto
    obtain cells where cells: "wr_span (gb_data (sc_buf c2)) MAGIC_LEN (map Some (write_u64 (of_nat (sc_count c2)))) = Some cells"
      "gb_wf ((sc_buf c2)\<lparr>gb_data := cells\<rparr>)"
      "gb_bytes ((sc_buf c2)\<lparr>gb_data := cells\<rparr>) = snapshot_body (map entry_kv ?es)"
      using backfill [OF c2(2) b2(1), of "write_u64 (of_nat (sc_count c2))"]
      by (auto simp: snapshot_body_def b2(2))
    let ?c3 = "c2\<lparr>sc_buf := (sc_buf c2)\<lparr>gb_data := cells\<rparr>\<rparr>"
    have rd: "gb_read b 0 (gb_len b) = Some (gb_bytes b)" if "gb_wf b" for b
      using gb_read_ok [OF that, of 0 "length (gb_bytes b)"] gb_len_bytes [OF that] by simp
    obtain c4 where c4: "ctx_append mem (write_u32 (checksum (snapshot_body (map entry_kv ?es)))) ?c3 = Some c4"
      "gb_wf (sc_buf c4)" "(\<forall>i. mem i) \<Longrightarrow> sc_err c4 = sc_err c2" "\<not> sc_err c4 \<Longrightarrow> gb_bytes (sc_buf c4) = snapshot (map entry_kv ?es)"
      using ctx_addsE [OF ctx_append_adds, of ?c3 mem "write_u32 (checksum (snapshot_body (map entry_kv ?es)))"] cells(2,3)
      by (auto simp: snapshot_def)
    have r3: "gb_read ((sc_buf c2)\<lparr>gb_data := cells\<rparr>) 0 (gb_len (sc_buf c2)) = Some (snapshot_body (map entry_kv ?es))"
      using rd [OF cells(2)] cells(3) by simp
    show ?thesis
      using c1(1) c2(1) False cells(1) r3 c4 rd [OF c4(2)]
      by (cases "sc_err c4") (auto simp: persist_save_def Let_def intro: exI [of _ "(_, _)"])
  qed
qed

section \<open>Atomic replacement\<close>

lemma write_atomically_trace:
  assumes "fs' \<in> set (snd (write_atomically io path img fs))"
  shows "(fs' path = fs path \<or> fs' path = Some img) \<and>
    (\<forall>p. p \<noteq> path \<and> p \<noteq> path @ ''.tmp'' \<longrightarrow> fs' p = fs p)"
  using assms by (auto simp: write_atomically_def Let_def split: if_splits)

lemma write_atomically_ok:
  assumes "write_atomically io path img fs = (st, tr)"
  shows "tr \<noteq> [] \<and> (st = PERSIST_OK \<longrightarrow> last tr path = Some img \<and> last tr (path @ ''.tmp'') = None) \<and>
    (st \<noteq> PERSIST_OK \<longrightarrow> st = PERSIST_ERR_IO \<and> last tr path = fs path)"
  using assms by (auto simp: write_atomically_def Let_def split: if_splits)

section \<open>Loading what was saved\<close>

lemma of_nat_u64_less: "a < 2 ^ 64 \<Longrightarrow> b < 2 ^ 64 \<Longrightarrow> (of_nat a < (of_nat b :: u64)) = (a < b)"
  by (simp add: word_less_nat_alt unat_of_nat)

lemma unat_of_nat_u64: "a < 2 ^ 64 \<Longrightarrow> unat (of_nat a :: u64) = a"
  by (simp add: unat_of_nat)

lemma span_prefix:
  assumes "drop p data = d @ rest" and "p \<le> length data"
  shows "rd_span data p (length d) = Some d \<and> p + length d \<le> length data \<and> drop (p + length d) data = rest"
proof -
  have "p + length d \<le> length data" using arg_cong [OF assms(1), of length] assms(2) by simp
  moreover have "drop (p + length d) data = rest"
    by (rule drop_prefix [OF assms(1)])
  ultimately show ?thesis using assms(1) by simp
qed

lemma read_u64_at_prefix:
  assumes "drop p data = write_u64 w @ rest" and "p \<le> length data" and "length data < 2 ^ 64"
  shows "read_u64_at data (of_nat p) = Some w"
  using span_prefix [OF assms(1,2)] assms(2,3) by (simp add: read_u64_at_def unat_of_nat_u64)

text \<open>One entry: the cursor moves over exactly its encoding, with no wrap-around.\<close>

lemma load_entries_step:
  assumes d: "drop p data = ser_entry (k, v, x) @ rest" and p: "p + length (ser_entry (k, v, x)) \<le> limit"
    and l: "limit \<le> length data" "length data < 2 ^ 63" and x: "int64_ok x"
  shows "load_entries now data (of_nat limit) (Suc left) (of_nat p) s =
    load_entries now data (of_nat limit) left (of_nat (p + length (ser_entry (k, v, x))))
      (if expired now x then s else snd (store_set s k v x))"
proof -
  have le: "length (ser_entry (k, v, x)) = 24 + length k + length v" by (simp add: ser_entry_def)
  have l64: "length data < 2 ^ 64" using l(2) by simp
  let ?p1 = "p + 8" let ?p2 = "?p1 + length k" let ?p3 = "?p2 + 8" let ?p4 = "?p3 + length v" let ?p5 = "?p4 + 8"
  have b: "?p5 \<le> limit" using p le by simp
  then have lt: "p < 2 ^ 64" "?p1 < 2 ^ 64" "?p2 < 2 ^ 64" "?p3 < 2 ^ 64" "?p4 < 2 ^ 64" "?p5 < 2 ^ 64" "limit < 2 ^ 64"
    using l l64 by simp_all
  have d0: "drop p data = write_u64 (of_nat (length k)) @ (k @ write_u64 (of_nat (length v)) @ v @ write_u64 (word_of_int x) @ rest)"
    using d by (simp add: ser_entry_def)
  have p0: "p \<le> length data" using b l(1) by simp
  have s1: "drop ?p1 data = k @ (write_u64 (of_nat (length v)) @ v @ write_u64 (word_of_int x) @ rest)" "?p1 \<le> length data"
    using span_prefix [OF d0 p0] by simp_all
  have s2: "drop ?p2 data = write_u64 (of_nat (length v)) @ (v @ write_u64 (word_of_int x) @ rest)" "?p2 \<le> length data"
    using span_prefix [OF s1] by simp_all
  have s3: "drop ?p3 data = v @ (write_u64 (word_of_int x) @ rest)" "?p3 \<le> length data"
    using span_prefix [OF s2] by simp_all
  have s4: "drop ?p4 data = write_u64 (word_of_int x) @ rest" "?p4 \<le> length data"
    using span_prefix [OF s3] by simp_all
  have r: "read_u64_at data (of_nat p) = Some (of_nat (length k))" "read_u64_at data (of_nat ?p2) = Some (of_nat (length v))"
    "read_u64_at data (of_nat ?p4) = Some (word_of_int x)"
    using read_u64_at_prefix [OF d0 p0 l64] read_u64_at_prefix [OF s2 l64] read_u64_at_prefix [OF s4 l64] by simp_all
  have kv: "rd_span data ?p1 (length k) = Some k" "rd_span data ?p3 (length v) = Some v"
    using span_prefix [OF s1] span_prefix [OF s3] by simp_all
  have u: "unat (of_nat ?p1 :: u64) = ?p1" "unat (of_nat ?p3 :: u64) = ?p3"
    "unat (of_nat (length k) :: u64) = length k" "unat (of_nat (length v) :: u64) = length v"
    using lt by (simp_all add: unat_of_nat_u64 del: of_nat_add)
  have a: "of_nat p + 8 = (of_nat ?p1 :: u64)" "of_nat ?p1 + of_nat (length k) = (of_nat ?p2 :: u64)"
    "of_nat ?p2 + 8 = (of_nat ?p3 :: u64)" "of_nat ?p3 + of_nat (length v) = (of_nat ?p4 :: u64)"
    "of_nat ?p4 + 8 = (of_nat ?p5 :: u64)"
    by simp_all
  have c: "\<not> of_nat limit < (of_nat ?p1 :: u64)" "\<not> of_nat limit < (of_nat ?p2 :: u64)" "\<not> of_nat limit < (of_nat ?p3 :: u64)"
    "\<not> of_nat limit < (of_nat ?p4 :: u64)" "\<not> of_nat limit < (of_nat ?p5 :: u64)"
    using lt b by (simp_all add: of_nat_u64_less del: of_nat_add)
  have "p + length (ser_entry (k, v, x)) = ?p5" using le by simp
  then show ?thesis
    unfolding load_entries.simps(2) a Let_def
    by (simp only: a c r u kv Let_def bind.bind_lunit if_False sint_word_of_int_i64 [OF x] expired_def)
      (simp only: if_distrib [of "load_entries now data (of_nat limit) left (of_nat ?p5)"] if_cancel cong: if_cong)
qed

lemma load_entries_ser:
  assumes "drop p data = concat (map ser_entry es) @ rest" and "p + length (concat (map ser_entry es)) \<le> limit"
    and "limit \<le> length data" and "length data < 2 ^ 63" and "list_all (\<lambda>(k, v, x). int64_ok x) es"
  shows "load_entries now data (of_nat limit) (length es) (of_nat p) s =
    Some (PERSIST_OK, fold (\<lambda>(k, v, x) s. snd (store_set s k v x)) (filter (\<lambda>(k, v, x). \<not> expired now x) es) s)"
  using assms(1,2,5)
proof (induction es arbitrary: p s)
  case Nil
  then show ?case by simp
next
  case (Cons e es)
  obtain k v x where e: "e = (k, v, x)" by (cases e)
  have d: "drop p data = ser_entry (k, v, x) @ (concat (map ser_entry es) @ rest)" using Cons.prems(1) by (simp add: e)
  have "p + length (ser_entry (k, v, x)) \<le> limit" "int64_ok x" using Cons.prems(2,3) by (simp_all add: e)
  note step = load_entries_step [OF d this(1) assms(3,4) this(2), of now "length es" s]
  have "load_entries now data (of_nat limit) (length es) (of_nat (p + length (ser_entry (k, v, x)))) s' =
      Some (PERSIST_OK, fold (\<lambda>(k, v, x) s. snd (store_set s k v x)) (filter (\<lambda>(k, v, x). \<not> expired now x) es) s')" for s'
    by (rule Cons.IH [OF drop_prefix [OF d]]) (use Cons.prems(2,3) in \<open>simp_all add: e\<close>)
  then show ?case by (simp add: e step del: of_nat_add)
qed

text \<open>Loading the image of a list of entries performs the writes of those not expired at load time.\<close>

lemma persist_load_snapshot:
  assumes "fs path = Some (snapshot es)" and "length (snapshot es) < 2 ^ 63"
    and "list_all (\<lambda>(k, v, x). int64_ok x) es"
  shows "persist_load now \<lparr>io_open = True, io_mem = True, io_fread = True\<rparr> fs path s =
    Some (PERSIST_OK, fold (\<lambda>(k, v, x) s. snd (store_set s k v x)) (filter (\<lambda>(k, v, x). \<not> expired now x) es) s)"
proof -
  let ?data = "snapshot es"
  let ?n = "length (snapshot_body es)"
  have len: "length ?data = ?n + 4" by (simp add: snapshot_def)
  have body: "?n = 16 + length (concat (map ser_entry es))" by (simp add: snapshot_body_def MAGIC_LEN_def)
  have d8: "drop 8 ?data = write_u64 (of_nat (length es)) @ (concat (map ser_entry es) @ write_u32 (checksum (snapshot_body es)))"
    by (simp add: snapshot_def snapshot_body_def MAGIC_LEN_def)
  have d16: "drop 16 ?data = concat (map ser_entry es) @ write_u32 (checksum (snapshot_body es))"
    using drop_prefix [OF d8] by simp
  have "length es \<le> length (concat (map ser_entry es))"
    by (induction es) (auto simp: ser_entry_def)
  then have es: "length es < 2 ^ 64" using assms(2) len body by simp
  have c: "read_u64_at ?data 8 = Some (of_nat (length es))"
    using read_u64_at_prefix [OF d8] len body assms(2) by simp
  have lim: "of_nat (length ?data) - 4 = (of_nat ?n :: u64)" by (simp add: len)
  have "load_entries now ?data (of_nat ?n) (length es) (of_nat 16) s =
    Some (PERSIST_OK, fold (\<lambda>(k, v, x) s. snd (store_set s k v x)) (filter (\<lambda>(k, v, x). \<not> expired now x) es) s)"
    by (rule load_entries_ser [OF d16]) (use assms len body in simp_all)
  moreover have "take MAGIC_LEN ?data = MAGIC" by (simp add: snapshot_def snapshot_body_def)
  moreover have "rd_span ?data (length ?data - 4) 4 = Some (write_u32 (checksum (snapshot_body es)))"
    "take (length ?data - 4) ?data = snapshot_body es"
    by (simp_all add: snapshot_def)
  moreover have "\<not> length ?data < MAGIC_LEN + 8 + 4" using len body by (simp add: MAGIC_LEN_def)
  ultimately show ?thesis
    using c lim es unat_of_nat_u64 [OF es] by (simp add: persist_load_def assms(1) Let_def MAGIC_LEN_def)
qed

lemma map_of_filter_live:
  assumes "distinct (map fst es)"
  shows "map_of (rev (filter (\<lambda>(k, v, x). \<not> expired now x) es)) = live now (map_of es)"
  using assms
proof (induction es)
  case Nil
  then show ?case by simp
next
  case (Cons e es)
  obtain k v x where e: "e = (k, v, x)" by (cases e)
  have "k \<notin> dom (map_of es)" using Cons.prems by (simp add: e dom_map_of_conv_image_fst)
  then have n: "live now (map_of es) k = None" by (cases "map_of es k") (auto simp: live_def)
  have r: "live now (map_of ((k, v, x) # es)) = (live now (map_of es))(k := if expired now x then None else Some (v, x))"
    by simp
  have ih: "map_of (rev (filter (\<lambda>(k, v, x). \<not> expired now x) es)) = live now (map_of es)" using Cons by simp
  show ?case unfolding e r by (rule ext) (auto simp: n ih map_add_def split: option.splits)
qed

section \<open>Properties\<close>

lemma live_live: "now \<le> now' \<Longrightarrow> live now' (live now m) = live now' m"
  by (rule ext) (auto simp: live_def expired_def split: option.splits)

lemma entry_kv_expiry:
  assumes "store_inv s" and "expires_ok (store_abs s)"
  shows "list_all (\<lambda>(k, v, x). int64_ok x) (map entry_kv (live_entries now s))"
  unfolding list_all_iff
proof (intro ballI)
  fix kvx assume "kvx \<in> set (map entry_kv (live_entries now s))"
  then obtain e where e: "e \<in> set (live_entries now s)" "kvx = (e_key e, e_val e, e_expire_at_ms e)"
    by (auto simp: entry_kv_def)
  have "distinct (map fst (map entry_kv (live_entries now s)))"
    using live_entries_distinct [OF assms(1), of now] by (simp add: entry_kv_def o_def)
  from map_of_is_SomeI [OF this, of "e_key e" "(e_val e, e_expire_at_ms e)"] e
  have "entries_map (live_entries now s) (e_key e) = Some (e_val e, e_expire_at_ms e)"
    by (auto simp: entries_map_def entry_kv_def)
  then show "case kvx of (k, v, x) \<Rightarrow> int64_ok x"
    using expires_ok_live [OF assms(2)] live_entries_map [OF assms(1), of now] e(2) by auto
qed

text \<open>A successful save, loaded back into a fresh store.\<close>

lemma save_load:
  assumes "store_inv s" and "expires_ok (store_abs s)"
    and "persist_save now mem io s path fs = Some (PERSIST_OK, tr)"
    and "length (snapshot (map entry_kv (live_entries now s))) < 2 ^ 63" and "now \<le> now'"
  shows "\<exists>s'. persist_load now' \<lparr>io_open = True, io_mem = True, io_fread = True\<rparr> (last tr) path store_create =
      Some (PERSIST_OK, s') \<and> store_inv s' \<and> store_abs s' = live now' (store_abs s)"
proof -
  let ?es = "map entry_kv (live_entries now s)"
  let ?f = "filter (\<lambda>(k, v, x). \<not> expired now' x) ?es"
  let ?s = "fold (\<lambda>(k, v, x) s. snd (store_set s k v x)) ?f store_create"
  from persist_save_writes [OF assms(1), of now mem io path fs] assms(3)
  have "write_atomically io path (snapshot ?es) fs = (PERSIST_OK, tr)" by auto
  from write_atomically_ok [OF this] have "last tr path = Some (snapshot ?es)" by simp
  from persist_load_snapshot [of "last tr" path ?es now' store_create, OF this assms(4) entry_kv_expiry [OF assms(1,2)]]
  have "persist_load now' \<lparr>io_open = True, io_mem = True, io_fread = True\<rparr> (last tr) path store_create =
      Some (PERSIST_OK, ?s)" .
  moreover have "store_inv ?s \<and> store_abs ?s = store_abs store_create ++ map_of (rev ?f)"
    by (rule st.set_many [OF store_create_inv])
  moreover have "map_of ?es = live now (store_abs s)"
    using live_entries_map [OF assms(1), of now] by (simp add: entries_map_def)
  moreover have "distinct (map fst ?es)"
    using live_entries_distinct [OF assms(1), of now] by (simp add: entry_kv_def o_def)
  ultimately show ?thesis
    by (simp add: map_of_filter_live live_live [OF assms(5)] store_create_abs)
qed

text \<open>
  C8: save and load round trip: if \<open>persist_save\<close> reports success, loading the file into a fresh store,
  now or later, gives back exactly the keys, values and expiry times that are live at load time.
\<close>

theorem save_load_roundtrip:
  assumes "store_inv s" and "expires_ok (store_abs s)"
    and "persist_save now mem io s path fs = Some (PERSIST_OK, tr)"
    and "length (snapshot (map entry_kv (live_entries now s))) < 2 ^ 63" and "now \<le> now'"
  shows "\<exists>s'. persist_load now' \<lparr>io_open = True, io_mem = True, io_fread = True\<rparr> (last tr) path store_create =
      Some (PERSIST_OK, s') \<and> store_inv s' \<and> store_abs s' = live now' (store_abs s)"
  using assms by (rule save_load)

definition all_io :: save_io where
  "all_io = \<lparr>io_tmpmem = True, io_fopen = True, io_fwrite = 2 ^ 40, io_fflush = True, io_kept = 0,
     io_rename = True, io_remove = True\<rparr>"

lemma demo_live_entries:
  "map entry_kv (live_entries 0 demo_store) =
     [(''a'', ''a'', 0), (''b'', ''b'', 0), (''c'', ''c'', 0), (''d'', ''d'', 0)]"
proof -
  let ?e = "\<lambda>k. \<lparr>e_key = k, e_val = k, e_expire_at_ms = 0\<rparr>"
  have "store_entries demo_store =
      concat ((replicate 4 [])[0 := [?e ''a''], 1 := [?e ''b''], 2 := [?e ''c''], 3 := [?e ''d'']])"
    by (simp add: demo_store_def store_eval store_entries_def table_entries_def)
  also have "\<dots> = [?e ''a'', ?e ''b'', ?e ''c'', ?e ''d'']" by (simp add: numeral_eq_Suc)
  finally show ?thesis by (simp add: live_entries_def expired_def entry_kv_def)
qed

lemma demo_snapshot_small: "length (snapshot (map entry_kv (live_entries 0 demo_store))) = 124"
  unfolding demo_live_entries by (simp add: snapshot_def snapshot_body_def MAGIC_LEN_def ser_entry_def)

lemma write_all_io: "length img \<le> 2 ^ 40 \<Longrightarrow> fst (write_atomically all_io path img fs) = PERSIST_OK"
  by (simp add: write_atomically_def all_io_def Let_def)

theorem save_load_roundtrip_witness:
  "\<exists>tr s'. persist_save 0 (\<lambda>_. True) all_io demo_store ''dump'' Map.empty = Some (PERSIST_OK, tr) \<and>
     persist_load 5 \<lparr>io_open = True, io_mem = True, io_fread = True\<rparr> (last tr) ''dump'' store_create =
       Some (PERSIST_OK, s') \<and> store_abs s' ''c'' = Some (''c'', 0)"
proof -
  obtain r where r: "persist_save 0 (\<lambda>_. True) all_io demo_store ''dump'' Map.empty = Some r"
    "r = write_atomically all_io ''dump'' (snapshot (map entry_kv (live_entries 0 demo_store))) Map.empty"
    using persist_save_writes [OF demo_store_inv, of 0 "\<lambda>_. True" all_io "''dump''" Map.empty] by auto
  then have "fst r = PERSIST_OK" using write_all_io demo_snapshot_small by simp
  then obtain tr where tr: "persist_save 0 (\<lambda>_. True) all_io demo_store ''dump'' Map.empty = Some (PERSIST_OK, tr)"
    using r(1) by (cases r) auto
  have x: "expires_ok (store_abs demo_store)" using store_reachable_inv [OF demo_store_reachable] by simp
  from save_load_roundtrip [OF demo_store_inv x tr, of 5] demo_snapshot_small tr show ?thesis
    by (auto simp: demo_store_abs expired_def)
qed

text \<open>
  C7: a save is atomic: in every file system state it passes through, and so after a crash at any
  point, the snapshot file is either what it was before or the complete new image, and no other file
  than the temporary one changes; a failed save leaves the old snapshot.
\<close>

theorem save_crash_safe:
  assumes "store_inv s"
  shows "\<exists>st tr. persist_save now mem io s path fs = Some (st, tr) \<and> tr \<noteq> [] \<and>
    (\<forall>fs' \<in> set tr.
       (fs' path = fs path \<or> fs' path = Some (snapshot (map entry_kv (live_entries now s)))) \<and>
       (\<forall>p. p \<noteq> path \<and> p \<noteq> path @ ''.tmp'' \<longrightarrow> fs' p = fs p)) \<and>
    (st \<noteq> PERSIST_OK \<longrightarrow> st = PERSIST_ERR_IO \<and> last tr path = fs path)"
proof -
  let ?img = "snapshot (map entry_kv (live_entries now s))"
  obtain st tr where w: "write_atomically io path ?img fs = (st, tr)" by force
  have tr: "\<forall>fs' \<in> set tr. (fs' path = fs path \<or> fs' path = Some ?img) \<and>
      (\<forall>p. p \<noteq> path \<and> p \<noteq> path @ ''.tmp'' \<longrightarrow> fs' p = fs p)"
    using write_atomically_trace [of _ io path ?img fs] w by auto
  from persist_save_writes [OF assms, of now mem io path fs] show ?thesis
  proof (elim exE conjE disjE)
    fix r assume r: "persist_save now mem io s path fs = Some r" "r = (PERSIST_ERR_IO, [fs])"
    then show ?thesis by simp
  next
    fix r assume r: "persist_save now mem io s path fs = Some r" "r = write_atomically io path ?img fs"
    then show ?thesis using w tr write_atomically_ok [OF w] by auto
  qed
qed

theorem save_crash_safe_witness:
  "\<exists>st tr. persist_save 0 (\<lambda>_. True) (all_io\<lparr>io_fwrite := 10, io_kept := 3\<rparr>) demo_store ''dump'' [''dump'' \<mapsto> ''old''] = Some (st, tr) \<and>
    (st \<noteq> PERSIST_OK \<longrightarrow> last tr ''dump'' = Some ''old'')"
  using save_crash_safe [OF demo_store_inv, of 0 "\<lambda>_. True" "all_io\<lparr>io_fwrite := 10, io_kept := 3\<rparr>" "''dump''" "[''dump'' \<mapsto> ''old'']"]
  by (auto simp del: fun_upd_apply) (simp add: fun_upd_same)

lemma persist_load_rejects:
  assumes "fs path = Some data" and "20 \<le> length data"
    and "take 8 data \<noteq> MAGIC \<or> read_u32 (drop (length data - 4) data) \<noteq> checksum (take (length data - 4) data)"
  shows "\<exists>st. persist_load now \<lparr>io_open = True, io_mem = True, io_fread = True\<rparr> fs path s = Some (st, s) \<and>
    st \<in> {PERSIST_ERR_FORMAT, PERSIST_ERR_CORRUPT}"
  using assms by (auto simp: persist_load_def MAGIC_LEN_def Let_def)

lemma snapshot_damage:
  assumes "i < length (snapshot es)" and "c \<noteq> snapshot es ! i"
  defines "data \<equiv> (snapshot es)[i := c]"
  shows "take 8 data \<noteq> MAGIC \<or> read_u32 (drop (length data - 4) data) \<noteq> checksum (take (length data - 4) data)"
proof -
  let ?b = "snapshot_body es" and ?c = "write_u32 (checksum (snapshot_body es))"
  show ?thesis
  proof (cases "i < length ?b")
    case True
    then have d: "data = ?b[i := c] @ ?c" by (simp add: data_def snapshot_def list_update_append)
    have "c \<noteq> ?b ! i" using assms(2) True by (simp add: snapshot_def nth_append)
    from checksum_update [OF True this] show ?thesis by (simp add: d)
  next
    case False
    then have d: "data = ?b @ ?c[i - length ?b := c]" by (simp add: data_def snapshot_def list_update_append)
    have lt: "i - length ?b < length ?c" using assms(1) False by (simp add: snapshot_def)
    have "c \<noteq> ?c ! (i - length ?b)" using assms(2) False by (simp add: snapshot_def nth_append)
    then have "?c[i - length ?b := c] \<noteq> ?c" using lt by (metis nth_list_update_eq)
    then have "read_u32 (?c[i - length ?b := c]) \<noteq> checksum ?b"
      using read_u32_inject [of "?c[i - length ?b := c]" ?c] by auto
    then show ?thesis by (simp add: d)
  qed
qed

text \<open>
  C27: any single damaged byte of a snapshot is detected: the load reports a format or a corruption
  error and inserts nothing.
\<close>

theorem snapshot_damage_detected:
  assumes "i < length (snapshot es)" and "c \<noteq> snapshot es ! i" and "fs path = Some ((snapshot es)[i := c])"
  shows "\<exists>st. persist_load now \<lparr>io_open = True, io_mem = True, io_fread = True\<rparr> fs path s = Some (st, s) \<and>
    st \<in> {PERSIST_ERR_FORMAT, PERSIST_ERR_CORRUPT}"
  by (rule persist_load_rejects [where fs = fs and path = path, OF assms(3)])
    (use snapshot_damage [OF assms(1,2)] in \<open>simp_all add: snapshot_def snapshot_body_def MAGIC_LEN_def\<close>)

theorem snapshot_damage_detected_witness:
  "\<exists>st. persist_load 0 \<lparr>io_open = True, io_mem = True, io_fread = True\<rparr>
     [''d'' \<mapsto> (snapshot [(''k'', ''v'', 0)])[24 := CHR ''x'']] ''d'' store_create = Some (st, store_create) \<and>
     st \<in> {PERSIST_ERR_FORMAT, PERSIST_ERR_CORRUPT}"
proof (rule snapshot_damage_detected)
  have "snapshot [(''k'', ''v'', 0)] = (MAGIC @ write_u64 1 @ write_u64 1) @ CHR ''k'' #
      (write_u64 1 @ ''v'' @ write_u64 0 @ write_u32 (checksum (snapshot_body [(''k'', ''v'', 0)])))"
    by (simp add: snapshot_def snapshot_body_def ser_entry_def)
  then show "24 < length (snapshot [(''k'', ''v'', 0)])" "CHR ''x'' \<noteq> snapshot [(''k'', ''v'', 0)] ! 24"
    by (simp_all add: nth_append MAGIC_LEN_def)
qed simp

text \<open>
  What is stored as a little-endian integer is read back, at both widths, and every eight bytes
  are the encoding of the number they decode to.
\<close>

theorem le_roundtrip:
  "read_u64 (write_u64 v) = v \<and> read_u32 (write_u32 w) = w \<and>
   length (write_u64 v) = 8 \<and> length (write_u32 w) = 4 \<and>
   (length p = 8 \<longrightarrow> write_u64 (read_u64 p) = p)"
  by (simp add: write_read_u64)

theorem le_roundtrip_witness:
  "write_u64 (read_u64 ''KVSTORE1'') = ''KVSTORE1''"
  using le_roundtrip [of 0 0 "''KVSTORE1''"] by simp

text \<open>
  A file whose checksum is right and whose only entry claims a key length of \<open>2 ^ 64 - 16\<close>: the
  bound check \<open>pos + keylen > limit\<close> wraps around to position 8, so the value length is read from the
  entry count.
\<close>

definition wrapping_snapshot :: bytes where
  "wrapping_snapshot =
     (let body = MAGIC @ write_u64 1 @ write_u64 (- 16) @ [NUL] in body @ write_u32 (checksum body))"

text \<open>
  C37: the loader's bound checks do not hold for hostile lengths: there is a 29-byte file with a correct
  magic and checksum whose load reads outside the file's bytes (the length check on the key wraps
  modulo \<open>2 ^ 64\<close>), at any clock reading below \<open>2 ^ 55\<close> milliseconds.
\<close>

theorem load_length_check_wraps:
  assumes "fs path = Some wrapping_snapshot" and "now < 2 ^ 55"
  shows "length wrapping_snapshot = 29 \<and> take 8 wrapping_snapshot = MAGIC \<and>
    read_u32 (drop 25 wrapping_snapshot) = checksum (take 25 wrapping_snapshot) \<and>
    persist_load now \<lparr>io_open = True, io_mem = True, io_fread = True\<rparr> fs path s = None"
proof -
  let ?body = "MAGIC @ write_u64 1 @ write_u64 (- 16) @ [NUL]"
  let ?w = wrapping_snapshot
  have lb: "length ?body = 25" by (simp add: MAGIC_LEN_def)
  have w: "?w = ?body @ write_u32 (checksum ?body)" by (simp only: wrapping_snapshot_def Let_def)
  have l: "length ?w = 29" by (simp add: w MAGIC_LEN_def)
  have m: "take 8 ?w = MAGIC" by (simp add: w MAGIC_LEN_def)
  have d25: "drop 25 ?w = write_u32 (checksum ?body)" "take 25 ?w = ?body" by (simp_all add: w MAGIC_LEN_def)
  have d8: "drop 8 ?w = write_u64 1 @ (write_u64 (- 16) @ [NUL] @ write_u32 (checksum ?body))"
    by (simp add: w MAGIC_LEN_def)
  have d16: "drop 16 ?w = write_u64 (- 16) @ ([NUL] @ write_u32 (checksum ?body))"
    using drop_prefix [OF d8] by simp
  have r8: "read_u64_at ?w 8 = Some 1" using read_u64_at_prefix [OF d8] l by simp
  have r16: "read_u64_at ?w 16 = Some (- 16)" using read_u64_at_prefix [OF d16] l by simp
  let ?ff = "[CHR 0xFF, CHR 0xFF, CHR 0xFF, CHR 0xFF, CHR 0xFF, CHR 0xFF, CHR 0xFF]"
  have ff: "write_u64 (- 16) = CHR 0xF0 # ?ff"
    by (rule le_val_inject) (simp_all add: write_u64_def le_val_write)
  have d17: "drop 17 ?w = (?ff @ [NUL]) @ write_u32 (checksum ?body)"
    using drop_prefix [of 16 ?w "[CHR 0xF0]"] d16 by (simp add: ff)
  have "le_val (?ff @ [NUL]) = 2 ^ 56 - 1" by simp
  then have "read_u64 (?ff @ [NUL]) = 2 ^ 56 - 1"
    by (simp add: read_u64_def read_words)
  moreover have "length (?ff @ [NUL]) = 8" by simp
  ultimately have r17: "read_u64_at ?w 17 = Some (2 ^ 56 - 1)"
    using span_prefix [OF d17, unfolded \<open>length (?ff @ [NUL]) = 8\<close>] l by (simp add: read_u64_at_def)
  have "rd_span ?w 24 (unat (- 16 :: u64)) = None" by (simp add: rd_span_def l)
  then have "load_entries now ?w 25 1 16 s = None"
    using r16 r8 r17 assms(2) by (simp add: load_entries.simps(2) Let_def)
  then have "persist_load now \<lparr>io_open = True, io_mem = True, io_fread = True\<rparr> fs path s = None"
    using d25 m r8 l by (simp add: persist_load_def assms(1) Let_def MAGIC_LEN_def)
  with l m d25 show ?thesis by simp
qed

theorem load_length_check_wraps_witness:
  "persist_load 1700000000000 \<lparr>io_open = True, io_mem = True, io_fread = True\<rparr>
     [''dump'' \<mapsto> wrapping_snapshot] ''dump'' store_create = None"
  using load_length_check_wraps [of "[''dump'' \<mapsto> wrapping_snapshot]" "''dump''" 1700000000000 store_create] by simp

end
