(* ===== verification/Cmd.thy ===== *)
theory Cmd
  imports Resp Persist
begin

text \<open>
  Command dispatch (\<open>src/cmd.c\<close>, \<open>include/cmd.h\<close>): the helpers, the 21 handlers and the table. A handler
  gets the environment of one command, the arguments, the state of the server and the output
  buffer; \<open>None\<close> is undefined behaviour. The state holds the store, the two globals of \<open>cmd.c\<close>, the
  file system and the children that \<open>BGSAVE\<close> forked and that have not run yet.
\<close>

record cmd_state =
  cs_store :: store
  g_save_path :: bytes
  g_lastsave_time :: int
  cs_fs :: fs
  cs_children :: "(store \<times> bytes) list"

text \<open>
  The environment: the i-th clock reading of the command in milliseconds, the oracles of
  \<open>persist_save\<close>, and whether \<open>fork\<close> succeeds.
\<close>

record cmd_env =
  ce_clk :: "nat \<Rightarrow> int"
  ce_mem :: "nat \<Rightarrow> bool"
  ce_io :: save_io
  ce_fork :: bool

type_synonym handler = "cmd_env \<Rightarrow> bytes list \<Rightarrow> cmd_state \<Rightarrow> gbuf \<Rightarrow> (cmd_state \<times> gbuf) option"

definition SAVE_PATH_SIZE :: nat where "SAVE_PATH_SIZE = 4096"

definition cmd_set_save_path :: "bytes option \<Rightarrow> cmd_state \<Rightarrow> cmd_state" where
  "cmd_set_save_path path st =
     (case path of
        None \<Rightarrow> st\<lparr>g_save_path := []\<rparr>
      | Some p \<Rightarrow>
          let s = cstr p; n = length s;
              n = (if n \<ge> SAVE_PATH_SIZE - 1 then SAVE_PATH_SIZE - 1 else n)
          in if s = [] then st\<lparr>g_save_path := []\<rparr> else st\<lparr>g_save_path := take n s\<rparr>)"

section \<open>Small helpers\<close>

definition arg_eq_ci :: "bytes \<Rightarrow> bytes \<Rightarrow> bool" where
  "arg_eq_ci arg lit =
     (if length arg \<noteq> length lit then False
      else list_all (\<lambda>(a, b). tolower a = tolower b) (zip arg lit))"

text \<open>The NUL-terminated text left in \<open>dst[dst_cap]\<close>.\<close>

definition safe_token :: "nat \<Rightarrow> bytes \<Rightarrow> bytes" where
  "safe_token dst_cap arg =
     (let n = (if length arg < dst_cap - 1 then length arg else dst_cap - 1)
      in map (\<lambda>c. if (of_char c :: nat) < 0x20 \<or> (of_char c :: nat) = 0x7f then CHR ''?'' else tolower c) (take n arg))"

text \<open>The second copy of the strict integer parser.\<close>

definition cmd_parse_strict_ll :: "bytes \<Rightarrow> int option" where
  "cmd_parse_strict_ll arg =
     (if length arg = 0 \<or> length arg > 20 then None
      else
        (let buf = arg @ [NUL] in
         if isspace (buf ! 0) then None
         else
           (let (v, endptr, erange) = strtoll buf in
            if erange then None
            else if endptr \<noteq> length arg then None
            else Some v)))"

definition reply_wrong_arity :: "bytes list \<Rightarrow> gbuf \<Rightarrow> gbuf option" where
  "reply_wrong_arity argv out = do {
     arg0 \<leftarrow> rd argv 0;
     let name = safe_token 32 arg0;
     let msg = snprintf 80 (''ERR wrong number of arguments for '' @ [CHR 0x27] @ name @ [CHR 0x27] @ '' command'');
     resp_reply_error msg out
   }"

text \<open>Leave the state as it is and append a reply.\<close>

definition just_reply :: "(gbuf \<Rightarrow> gbuf option) \<Rightarrow> cmd_state \<Rightarrow> gbuf \<Rightarrow> (cmd_state \<times> gbuf) option" where
  "just_reply f st out = do { out \<leftarrow> f out; Some (st, out) }"

section \<open>Command handlers\<close>

definition cmd_ping :: handler where
  "cmd_ping env argv st out =
     (if length argv > 2 then just_reply (reply_wrong_arity argv) st out
      else if length argv = 2 then just_reply (resp_reply_bulk_string (argv ! 1)) st out
      else just_reply (resp_reply_simple_string ''PONG'') st out)"

definition cmd_echo :: handler where
  "cmd_echo env argv st out =
     (if length argv \<noteq> 2 then just_reply (reply_wrong_arity argv) st out
      else just_reply (resp_reply_bulk_string (argv ! 1)) st out)"

definition cmd_set :: handler where
  "cmd_set env argv st out =
     (if length argv \<noteq> 3 \<and> length argv \<noteq> 5 then just_reply (reply_wrong_arity argv) st out
      else
        (let store_it = (\<lambda>expire_at_ms.
               just_reply (resp_reply_simple_string ''OK'')
                 (st\<lparr>cs_store := snd (store_set (cs_store st) (argv ! 1) (argv ! 2) expire_at_ms)\<rparr>) out)
         in if length argv = 5 then
              (let is_ex = arg_eq_ci (argv ! 3) ''EX''; is_px = arg_eq_ci (argv ! 3) ''PX'' in
               if \<not> is_ex \<and> \<not> is_px then just_reply (resp_reply_error ''ERR syntax error'') st out
               else
                 (case cmd_parse_strict_ll (argv ! 4) of
                    None \<Rightarrow> just_reply (resp_reply_error ''ERR invalid expire time in 'set' command'') st out
                  | Some n \<Rightarrow>
                      if n \<le> 0 then just_reply (resp_reply_error ''ERR invalid expire time in 'set' command'') st out
                      else do {
                        ttl \<leftarrow> (if is_ex then i64 (n * 1000) else Some n);
                        expire_at_ms \<leftarrow> i64 (ce_clk env 0 + ttl);
                        store_it expire_at_ms
                      }))
            else store_it 0))"

definition cmd_get :: handler where
  "cmd_get env argv st out =
     (if length argv \<noteq> 2 then just_reply (reply_wrong_arity argv) st out
      else
        (let (r, s) = store_get (ce_clk env 0) (cs_store st) (argv ! 1) in
         case r of
           Some v \<Rightarrow> just_reply (resp_reply_bulk_string v) (st\<lparr>cs_store := s\<rparr>) out
         | None \<Rightarrow> just_reply resp_reply_null_bulk (st\<lparr>cs_store := s\<rparr>) out))"

fun del_loop :: "store \<Rightarrow> bytes list \<Rightarrow> int \<Rightarrow> (int \<times> store) option" where
  "del_loop s [] n = Some (n, s)"
| "del_loop s (k # ks) n =
     (let (r, s') = store_del s k in do { n' \<leftarrow> i64 (n + r); del_loop s' ks n' })"

definition cmd_del :: handler where
  "cmd_del env argv st out =
     (if length argv < 2 then just_reply (reply_wrong_arity argv) st out
      else do {
        (n, s) \<leftarrow> del_loop (cs_store st) (tl argv) 0;
        just_reply (resp_reply_integer n) (st\<lparr>cs_store := s\<rparr>) out
      })"

text \<open>The i-th key is looked up at the i-th clock reading.\<close>

fun exists_loop :: "(nat \<Rightarrow> int) \<Rightarrow> nat \<Rightarrow> store \<Rightarrow> bytes list \<Rightarrow> int \<Rightarrow> (int \<times> store) option" where
  "exists_loop clk i s [] n = Some (n, s)"
| "exists_loop clk i s (k # ks) n =
     (let (r, s') = store_exists (clk i) s k in do { n' \<leftarrow> i64 (n + r); exists_loop clk (i + 1) s' ks n' })"

definition cmd_exists :: handler where
  "cmd_exists env argv st out =
     (if length argv < 2 then just_reply (reply_wrong_arity argv) st out
      else do {
        (n, s) \<leftarrow> exists_loop (ce_clk env) 0 (cs_store st) (tl argv) 0;
        just_reply (resp_reply_integer n) (st\<lparr>cs_store := s\<rparr>) out
      })"

definition cmd_expire :: handler where
  "cmd_expire env argv st out =
     (if length argv \<noteq> 3 then just_reply (reply_wrong_arity argv) st out
      else
        (case cmd_parse_strict_ll (argv ! 2) of
           None \<Rightarrow> just_reply (resp_reply_error ''ERR value is not an integer or out of range'') st out
         | Some seconds \<Rightarrow> do {
             ms \<leftarrow> i64 (seconds * 1000);
             expire_at_ms \<leftarrow> i64 (ce_clk env 0 + ms);
             let (ok, s) = store_expire (ce_clk env 1) (cs_store st) (argv ! 1) expire_at_ms;
             just_reply (resp_reply_integer (if ok \<noteq> 0 then 1 else 0)) (st\<lparr>cs_store := s\<rparr>) out
           }))"

definition cmd_ttl_generic :: "bool \<Rightarrow> handler" where
  "cmd_ttl_generic want_ms env argv st out =
     (if length argv \<noteq> 2 then just_reply (reply_wrong_arity argv) st out
      else do {
        (ttl_ms, s) \<leftarrow> store_ttl_ms (ce_clk env 0) (ce_clk env 1) (cs_store st) (argv ! 1);
        let st = st\<lparr>cs_store := s\<rparr>;
        if ttl_ms = STORE_TTL_NO_KEY then just_reply (resp_reply_integer (- 2)) st out
        else if ttl_ms = STORE_TTL_NO_EXPIRY then just_reply (resp_reply_integer (- 1)) st out
        else if want_ms then just_reply (resp_reply_integer ttl_ms) st out
        else do {
          up \<leftarrow> i64 (ttl_ms + 999);
          just_reply (resp_reply_integer (up div 1000)) st out
        }
      })"

definition cmd_ttl :: handler where "cmd_ttl = cmd_ttl_generic False"
definition cmd_pttl :: handler where "cmd_pttl = cmd_ttl_generic True"

fun reply_incr_result :: "store_incr_status \<Rightarrow> int \<Rightarrow> gbuf \<Rightarrow> gbuf option" where
  "reply_incr_result STORE_INCR_OK val = resp_reply_integer val"
| "reply_incr_result STORE_INCR_NOT_INTEGER val = resp_reply_error ''ERR value is not an integer or out of range''"
| "reply_incr_result STORE_INCR_OVERFLOW val = resp_reply_error ''ERR increment or decrement would overflow''"

text \<open>The call of \<open>store_incrby\<close> and its reply, as the four counter commands end.\<close>

definition incr_and_reply :: "int \<Rightarrow> handler" where
  "incr_and_reply delta env argv st out = do {
     (status, val, s) \<leftarrow> store_incrby (ce_clk env 0) (cs_store st) (argv ! 1) delta;
     just_reply (reply_incr_result status val) (st\<lparr>cs_store := s\<rparr>) out
   }"

definition cmd_incr :: handler where
  "cmd_incr env argv st out =
     (if length argv \<noteq> 2 then just_reply (reply_wrong_arity argv) st out
      else incr_and_reply 1 env argv st out)"

definition cmd_decr :: handler where
  "cmd_decr env argv st out =
     (if length argv \<noteq> 2 then just_reply (reply_wrong_arity argv) st out
      else incr_and_reply (- 1) env argv st out)"

definition cmd_incrby_generic :: "bool \<Rightarrow> handler" where
  "cmd_incrby_generic negate env argv st out =
     (if length argv \<noteq> 3 then just_reply (reply_wrong_arity argv) st out
      else
        (case cmd_parse_strict_ll (argv ! 2) of
           None \<Rightarrow> just_reply (resp_reply_error ''ERR value is not an integer or out of range'') st out
         | Some delta \<Rightarrow>
             if negate \<and> delta = INT64_MIN
             then just_reply (resp_reply_error ''ERR increment or decrement would overflow'') st out
             else do {
               d \<leftarrow> (if negate then i64 (- delta) else Some delta);
               incr_and_reply d env argv st out
             }))"

definition cmd_incrby :: handler where "cmd_incrby = cmd_incrby_generic False"
definition cmd_decrby :: handler where "cmd_decrby = cmd_incrby_generic True"

section \<open>Persistence and introspection\<close>

text \<open>\<open>(long long)store_size(s)\<close>: the 64 bits of the size, read as signed.\<close>

definition cmd_dbsize :: handler where
  "cmd_dbsize env argv st out =
     (if length argv \<noteq> 1 then just_reply (reply_wrong_arity argv) st out
      else just_reply (resp_reply_integer (sint (of_nat (store_size (cs_store st)) :: u64))) st out)"

definition cmd_flushdb :: handler where
  "cmd_flushdb env argv st out =
     (if length argv \<noteq> 1 then just_reply (reply_wrong_arity argv) st out
      else just_reply (resp_reply_simple_string ''OK'') (st\<lparr>cs_store := snd (store_flush (cs_store st))\<rparr>) out)"

definition cmd_lastsave :: handler where
  "cmd_lastsave env argv st out =
     (if length argv \<noteq> 1 then just_reply (reply_wrong_arity argv) st out
      else just_reply (resp_reply_integer (g_lastsave_time st)) st out)"

definition do_save :: "cmd_env \<Rightarrow> cmd_state \<Rightarrow> gbuf \<Rightarrow> (cmd_state \<times> gbuf) option" where
  "do_save env st out =
     (if g_save_path st = [] then
        just_reply (resp_reply_error ''ERR no save path configured (start server with --save <file>)'') st out
      else do {
        (status, tr) \<leftarrow> persist_save (ce_clk env 0) (ce_mem env) (ce_io env) (cs_store st) (g_save_path st) (cs_fs st);
        let st = st\<lparr>cs_fs := last tr\<rparr>;
        if status \<noteq> PERSIST_OK
        then just_reply (resp_reply_error (snprintf 128 (''ERR save failed: '' @ persist_strerror status))) st out
        else just_reply (resp_reply_simple_string ''OK'') (st\<lparr>g_lastsave_time := ce_clk env 1 div 1000\<rparr>) out
      })"

definition cmd_save :: handler where
  "cmd_save env argv st out =
     (if length argv \<noteq> 1 then just_reply (reply_wrong_arity argv) st out else do_save env st out)"

text \<open>The forked child has its own copy of the store and of the path.\<close>

definition cmd_bgsave :: handler where
  "cmd_bgsave env argv st out =
     (if length argv \<noteq> 1 then just_reply (reply_wrong_arity argv) st out
      else if g_save_path st = [] then
        just_reply (resp_reply_error ''ERR no save path configured (start server with --save <file>)'') st out
      else if \<not> ce_fork env then just_reply (resp_reply_error ''ERR fork failed'') st out
      else
        just_reply (resp_reply_simple_string ''Background saving started'')
          (st\<lparr>cs_children := cs_children st @ [(cs_store st, g_save_path st)],
              g_lastsave_time := ce_clk env 0 div 1000\<rparr>) out)"

text \<open>A child runs at some later time: it saves its copy and exits.\<close>

definition bgsave_child ::
    "int \<Rightarrow> (nat \<Rightarrow> bool) \<Rightarrow> save_io \<Rightarrow> nat \<Rightarrow> cmd_state \<Rightarrow> cmd_state option" where
  "bgsave_child now mem io i st = do {
     (s, path) \<leftarrow> rd (cs_children st) i;
     (status, tr) \<leftarrow> persist_save now mem io s path (cs_fs st);
     Some (st\<lparr>cs_fs := last tr, cs_children := take i (cs_children st) @ drop (Suc i) (cs_children st)\<rparr>)
   }"

section \<open>Commands on several keys\<close>

fun mget_loop :: "(nat \<Rightarrow> int) \<Rightarrow> nat \<Rightarrow> bytes list \<Rightarrow> store \<Rightarrow> gbuf \<Rightarrow> (store \<times> gbuf) option" where
  "mget_loop clk i [] s out = Some (s, out)"
| "mget_loop clk i (k # ks) s out =
     (let (r, s') = store_get (clk i) s k in do {
        out' \<leftarrow> (case r of Some v \<Rightarrow> resp_reply_bulk_string v out | None \<Rightarrow> resp_reply_null_bulk out);
        mget_loop clk (i + 1) ks s' out'
      })"

definition cmd_mget :: handler where
  "cmd_mget env argv st out =
     (if length argv < 2 then just_reply (reply_wrong_arity argv) st out
      else do {
        let nkeys = length argv - 1;
        out \<leftarrow> resp_reply_array_header nkeys out;
        (s, out) \<leftarrow> mget_loop (ce_clk env) 0 (tl argv) (cs_store st) out;
        Some (st\<lparr>cs_store := s\<rparr>, out)
      })"

text \<open>Keys and values alternate; a key without a value would be read past the end of \<open>argv\<close>.\<close>

fun mset_loop :: "bytes list \<Rightarrow> store \<Rightarrow> store option" where
  "mset_loop [] s = Some s"
| "mset_loop [k] s = None"
| "mset_loop (k # v # r) s = mset_loop r (snd (store_set s k v 0))"

definition cmd_mset :: handler where
  "cmd_mset env argv st out =
     (if length argv < 3 \<or> length argv mod 2 = 0 then just_reply (reply_wrong_arity argv) st out
      else do {
        s \<leftarrow> mset_loop (tl argv) (cs_store st);
        just_reply (resp_reply_simple_string ''OK'') (st\<lparr>cs_store := s\<rparr>) out
      })"

record keys_ctx =
  kc_out :: gbuf
  kc_count :: nat

definition keys_collect_cb :: "bytes \<Rightarrow> bytes \<Rightarrow> int \<Rightarrow> keys_ctx option \<Rightarrow> keys_ctx option" where
  "keys_collect_cb k v x ud = do {
     ctx \<leftarrow> ud;
     out \<leftarrow> resp_reply_bulk_string k (kc_out ctx);
     Some (ctx\<lparr>kc_out := out, kc_count := kc_count ctx + 1\<rparr>)
   }"

definition cmd_keys :: handler where
  "cmd_keys env argv st out =
     (if length argv \<noteq> 2 then just_reply (reply_wrong_arity argv) st out
      else if length (argv ! 1) \<noteq> 1 \<or> hd (argv ! 1) \<noteq> CHR ''*''
      then just_reply (resp_reply_error ''ERR only '*' pattern supported in KEYS'') st out
      else do {
        ctx \<leftarrow> store_foreach (ce_clk env 0) (cs_store st) keys_collect_cb (Some \<lparr>kc_out = resp_buf_init, kc_count = 0\<rparr>);
        let scratch = kc_out ctx;
        out \<leftarrow> resp_reply_array_header (kc_count ctx) out;
        if gb_len scratch > 0 then do {
          let out = (if gb_len out + gb_len scratch > gb_cap out then gb_grow 64 (gb_len out + gb_len scratch) out else out);
          d \<leftarrow> gb_read scratch 0 (gb_len scratch);
          out \<leftarrow> gb_put out d;
          Some (st, out)
        } else Some (st, out)
      })"

section \<open>Dispatch\<close>

definition COMMAND_TABLE :: "(bytes \<times> handler) list" where
  "COMMAND_TABLE =
     [(''PING'', cmd_ping), (''ECHO'', cmd_echo), (''SET'', cmd_set), (''GET'', cmd_get),
      (''MGET'', cmd_mget), (''MSET'', cmd_mset), (''DEL'', cmd_del), (''EXISTS'', cmd_exists),
      (''KEYS'', cmd_keys), (''EXPIRE'', cmd_expire), (''TTL'', cmd_ttl), (''PTTL'', cmd_pttl),
      (''INCR'', cmd_incr), (''DECR'', cmd_decr), (''INCRBY'', cmd_incrby), (''DECRBY'', cmd_decrby),
      (''DBSIZE'', cmd_dbsize), (''FLUSHDB'', cmd_flushdb), (''SAVE'', cmd_save), (''BGSAVE'', cmd_bgsave),
      (''LASTSAVE'', cmd_lastsave)]"

fun find_handler :: "(bytes \<times> handler) list \<Rightarrow> bytes \<Rightarrow> handler option" where
  "find_handler [] arg = None"
| "find_handler ((name, h) # t) arg = (if arg_eq_ci arg name then Some h else find_handler t arg)"

definition cmd_dispatch :: handler where
  "cmd_dispatch env argv st out =
     (if length argv = 0 then Some (st, out)
      else
        (case find_handler COMMAND_TABLE (argv ! 0) of
           Some h \<Rightarrow> h env argv st out
         | None \<Rightarrow>
             (let name = safe_token 32 (argv ! 0);
                  msg = snprintf 80 (''ERR unknown command '' @ [CHR 0x27] @ name @ [CHR 0x27])
              in just_reply (resp_reply_error msg) st out)))"

section \<open>Helpers\<close>

text \<open>The two strict integer parsers of the program agree.\<close>

lemma cmd_parse_strict_ll_eq: "cmd_parse_strict_ll = parse_strict_ll"
proof (rule ext)
  fix s
  have "(s @ [NUL]) ! 0 = hd (s @ [NUL])" by (cases s) simp_all
  then show "cmd_parse_strict_ll s = parse_strict_ll s"
    by (simp add: cmd_parse_strict_ll_def parse_strict_ll_def Let_def split: prod.splits)
qed

lemma arg_eq_ci_iff: "arg_eq_ci a b \<longleftrightarrow> map tolower a = map tolower b"
  by (auto simp: arg_eq_ci_def list_all_length list_eq_iff_nth_eq)

text \<open>A printable character survives; nothing that could end a line or a string gets through.\<close>

lemma tolower_printable:
  assumes "\<not> ((of_char c :: nat) < 0x20 \<or> (of_char c :: nat) = 0x7f)"
  shows "\<not> ((of_char (tolower c) :: nat) < 0x20 \<or> (of_char (tolower c) :: nat) = 0x7f)"
  using assms by (auto simp: tolower_def)

lemma safe_token_chars:
  assumes "c \<in> set (safe_token n arg)"
  shows "\<not> ((of_char c :: nat) < 0x20 \<or> (of_char c :: nat) = 0x7f)"
proof -
  from assms obtain d where "c = (if (of_char d :: nat) < 0x20 \<or> (of_char d :: nat) = 0x7f then CHR ''?'' else tolower d)"
    unfolding safe_token_def Let_def set_map by (elim imageE)
  then show ?thesis using tolower_printable [of d] by (auto split: if_splits)
qed

lemma safe_token_no_control:
  "CR \<notin> set (safe_token n arg)" "LF \<notin> set (safe_token n arg)" "NUL \<notin> set (safe_token n arg)"
  using safe_token_chars [of CR n arg] safe_token_chars [of LF n arg] safe_token_chars [of NUL n arg] by auto

lemma safe_token_length: "length (safe_token n arg) \<le> n - 1"
  by (simp add: safe_token_def Let_def)

section \<open>One reply per command\<close>

text \<open>A reply whose lines cannot be confused with the framing.\<close>

fun reply_safe :: "reply \<Rightarrow> bool" where
  "reply_safe (Simple s) \<longleftrightarrow> CR \<notin> set s \<and> LF \<notin> set s"
| "reply_safe (Err s) \<longleftrightarrow> CR \<notin> set s \<and> LF \<notin> set s"
| "reply_safe (Array rs) \<longleftrightarrow> list_all reply_safe rs"
| "reply_safe _ \<longleftrightarrow> True"

definition cmd_inv :: "cmd_state \<Rightarrow> bool" where
  "cmd_inv st \<longleftrightarrow> store_inv (cs_store st) \<and> expires_ok (store_abs (cs_store st)) \<and> int64_ok (g_lastsave_time st)"

text \<open>Clock readings of a machine whose clock is past the first second of 1970.\<close>

definition env_ok :: "cmd_env \<Rightarrow> bool" where
  "env_ok env \<longleftrightarrow> (\<forall>i. 1000 \<le> ce_clk env i \<and> ce_clk env i \<le> INT64_MAX)"

definition one_reply :: "gbuf \<Rightarrow> (cmd_state \<times> gbuf) option \<Rightarrow> bool" where
  "one_reply out res \<longleftrightarrow> (\<exists>st' out' r. res = Some (st', out') \<and> cmd_inv st' \<and> gb_wf out' \<and>
     reply_safe r \<and> gb_bytes out' = gb_bytes out @ enc_reply r)"

lemma one_reply_just:
  assumes "appends f (enc_reply r)" and "reply_safe r" and "cmd_inv st" and "gb_wf out"
  shows "one_reply out (just_reply f st out)"
proof -
  from appendsE [OF assms(1,4)] obtain out' where
    "f out = Some out'" "gb_wf out'" "gb_bytes out' = gb_bytes out @ enc_reply r" .
  with assms(2,3) show ?thesis by (auto simp: one_reply_def just_reply_def)
qed

lemma one_reply_error:
  assumes "NUL \<notin> set s" and "CR \<notin> set s" and "LF \<notin> set s" and "cmd_inv st" and "gb_wf out"
  shows "one_reply out (just_reply (resp_reply_error s) st out)"
  using appends_error [of s] assms by (intro one_reply_just [of _ "Err s"]) (simp_all add: cstr_id)

lemma one_reply_simple:
  assumes "NUL \<notin> set s" and "CR \<notin> set s" and "LF \<notin> set s" and "cmd_inv st" and "gb_wf out"
  shows "one_reply out (just_reply (resp_reply_simple_string s) st out)"
  using appends_simple_string [of s] assms by (intro one_reply_just [of _ "Simple s"]) (simp_all add: cstr_id)

lemma one_reply_integer:
  assumes "int64_ok v" and "cmd_inv st" and "gb_wf out"
  shows "one_reply out (just_reply (resp_reply_integer v) st out)"
  using appends_integer assms by (intro one_reply_just [of _ "Integer v"]) simp_all

lemma one_reply_bulk:
  assumes "cmd_inv st" and "gb_wf out"
  shows "one_reply out (just_reply (resp_reply_bulk_string s) st out)"
    and "one_reply out (just_reply resp_reply_null_bulk st out)"
  using appends_bulk_string appends_null_bulk assms
  by (intro one_reply_just [of _ "Bulk s"] one_reply_just [of _ Null_Bulk]; simp)+

lemma wrong_arity_reply:
  assumes "argv \<noteq> []" and "cmd_inv st" and "gb_wf out"
  shows "one_reply out (just_reply (reply_wrong_arity argv) st out)"
proof -
  let ?m = "''ERR wrong number of arguments for '' @ [CHR 0x27] @ safe_token 32 (argv ! 0) @ [CHR 0x27] @ '' command''"
  have "snprintf 80 ?m = ?m" using safe_token_length [of 32 "argv ! 0"] by (intro snprintf_id) simp
  then have "just_reply (reply_wrong_arity argv) st out = just_reply (resp_reply_error ?m) st out"
    using assms(1) by (simp add: reply_wrong_arity_def just_reply_def Let_def)
  moreover have "one_reply out (just_reply (resp_reply_error ?m) st out)"
    using safe_token_no_control [of 32 "argv ! 0"] assms(2,3) by (intro one_reply_error) auto
  ultimately show ?thesis by simp
qed

lemmas one_reply_intros = wrong_arity_reply one_reply_error one_reply_simple one_reply_integer one_reply_bulk

lemma env_clk:
  assumes "env_ok env"
  shows "1000 \<le> ce_clk env i" "int64_ok (ce_clk env i)" "int64_ok (ce_clk env i div 1000)"
proof -
  have c: "1000 \<le> ce_clk env i" "ce_clk env i \<le> INT64_MAX" using assms by (simp_all add: env_ok_def)
  moreover from c(1) have "0 \<le> ce_clk env i div 1000" "ce_clk env i div 1000 \<le> ce_clk env i"
    using zdiv_mono2 [of "ce_clk env i" 1 1000] by (simp_all add: pos_imp_zdiv_nonneg_iff)
  ultimately show "1000 \<le> ce_clk env i" "int64_ok (ce_clk env i)" "int64_ok (ce_clk env i div 1000)"
    by (auto simp: int64_defs)
qed

lemma cmd_inv_call:
  assumes "cmd_inv st" and "store_call (cs_store st) s'"
  shows "cmd_inv (st\<lparr>cs_store := s'\<rparr>)"
  using assms store_call_inv [OF assms(2)] by (simp add: cmd_inv_def)

lemma cmd_inv_store: "cmd_inv st \<Longrightarrow> store_inv (cs_store st)" "cmd_inv st \<Longrightarrow> expires_ok (store_abs (cs_store st))"
  by (simp_all add: cmd_inv_def)

lemma ping_reply: "argv \<noteq> [] \<Longrightarrow> cmd_inv st \<Longrightarrow> gb_wf out \<Longrightarrow> one_reply out (cmd_ping env argv st out)"
  by (auto simp: cmd_ping_def intro!: one_reply_intros)

lemma echo_reply: "argv \<noteq> [] \<Longrightarrow> cmd_inv st \<Longrightarrow> gb_wf out \<Longrightarrow> one_reply out (cmd_echo env argv st out)"
  by (auto simp: cmd_echo_def intro!: one_reply_intros)

lemma get_reply:
  assumes "argv \<noteq> []" and "cmd_inv st" and "gb_wf out"
  shows "one_reply out (cmd_get env argv st out)"
proof -
  have "cmd_inv (st\<lparr>cs_store := snd (store_get (ce_clk env 0) (cs_store st) (argv ! 1))\<rparr>)"
    by (rule cmd_inv_call [OF assms(2) store_call.get])
  then show ?thesis
    using assms by (auto simp: cmd_get_def split: prod.splits option.splits intro!: one_reply_intros)
qed

lemma flushdb_reply:
  assumes "argv \<noteq> []" and "cmd_inv st" and "gb_wf out"
  shows "one_reply out (cmd_flushdb env argv st out)"
  using assms cmd_inv_call [OF assms(2) store_call.flush]
  by (auto simp: cmd_flushdb_def intro!: one_reply_intros)

lemma dbsize_reply: "argv \<noteq> [] \<Longrightarrow> cmd_inv st \<Longrightarrow> gb_wf out \<Longrightarrow> one_reply out (cmd_dbsize env argv st out)"
  by (auto simp: cmd_dbsize_def int64_ok_sint intro!: one_reply_intros)

lemma lastsave_reply: "argv \<noteq> [] \<Longrightarrow> cmd_inv st \<Longrightarrow> gb_wf out \<Longrightarrow> one_reply out (cmd_lastsave env argv st out)"
  by (auto simp: cmd_lastsave_def cmd_inv_def intro!: one_reply_intros)

text \<open>The arithmetic on the clock and the time to live, when it does not overflow.\<close>

definition ttl_overflow :: "cmd_env \<Rightarrow> bytes list \<Rightarrow> bool" where
  "ttl_overflow env argv \<longleftrightarrow>
     (arg_eq_ci (argv ! 0) ''SET'' \<and> length argv = 5 \<and>
        (case cmd_parse_strict_ll (argv ! 4) of
           None \<Rightarrow> False
         | Some n \<Rightarrow> 0 < n \<and>
             (if arg_eq_ci (argv ! 3) ''EX'' then ce_clk env 0 + n * 1000 > INT64_MAX
              else arg_eq_ci (argv ! 3) ''PX'' \<and> ce_clk env 0 + n > INT64_MAX))) \<or>
     (arg_eq_ci (argv ! 0) ''EXPIRE'' \<and> length argv = 3 \<and>
        (case cmd_parse_strict_ll (argv ! 2) of
           None \<Rightarrow> False
         | Some n \<Rightarrow> \<not> int64_ok (n * 1000) \<or> \<not> int64_ok (ce_clk env 0 + n * 1000)))"

lemma set_reply:
  assumes "argv \<noteq> []" and "cmd_inv st" and "gb_wf out" and "env_ok env"
    and "arg_eq_ci (argv ! 0) ''SET''" and "\<not> ttl_overflow env argv"
  shows "one_reply out (cmd_set env argv st out)"
proof -
  have inv: "cmd_inv (st\<lparr>cs_store := snd (store_set (cs_store st) k v x)\<rparr>)" if "int64_ok x" for k v x
    by (rule cmd_inv_call [OF assms(2) store_call.set [OF that]])
  have clk: "1000 \<le> ce_clk env 0" "ce_clk env 0 \<le> INT64_MAX" using assms(4) by (simp_all add: env_ok_def)
  have "int64_ok (n * 1000)" "int64_ok (ce_clk env 0 + n * 1000)"
    if "cmd_parse_strict_ll (argv ! 4) = Some n" "0 < n" "length argv = 5" "arg_eq_ci (argv ! 3) ''EX''" for n
    using that assms(5,6) clk by (auto simp: ttl_overflow_def int64_defs)
  moreover have "int64_ok (ce_clk env 0 + n)"
    if "cmd_parse_strict_ll (argv ! 4) = Some n" "0 < n" "length argv = 5" "\<not> arg_eq_ci (argv ! 3) ''EX''" "arg_eq_ci (argv ! 3) ''PX''" for n
    using that assms(5,6) clk by (auto simp: ttl_overflow_def int64_defs)
  ultimately show ?thesis
    using assms(1-3) by (auto simp: cmd_set_def Let_def inv split: option.split intro!: one_reply_intros)
qed

lemma expire_reply:
  assumes "argv \<noteq> []" and "cmd_inv st" and "gb_wf out"
    and "arg_eq_ci (argv ! 0) ''EXPIRE''" and "\<not> ttl_overflow env argv"
  shows "one_reply out (cmd_expire env argv st out)"
proof -
  have inv: "cmd_inv (st\<lparr>cs_store := snd (store_expire now (cs_store st) k x)\<rparr>)" if "int64_ok x" for now k x
    by (rule cmd_inv_call [OF assms(2) store_call.expire [OF that]])
  have "int64_ok (n * 1000)" "int64_ok (ce_clk env 0 + n * 1000)"
    if "cmd_parse_strict_ll (argv ! 2) = Some n" "length argv = 3" for n
    using that assms(4,5) by (auto simp: ttl_overflow_def)
  moreover have "int64_ok 1" by (simp add: int64_defs)
  ultimately show ?thesis
    using assms(1-3) by (auto simp: cmd_expire_def Let_def split_beta inv split: option.split intro!: one_reply_intros)
qed

lemma ttl_reply:
  assumes "argv \<noteq> []" and "cmd_inv st" and "gb_wf out" and "env_ok env"
  shows "one_reply out (cmd_ttl_generic want_ms env argv st out)"
proof (cases "length argv = 2")
  case False
  then show ?thesis using assms by (auto simp: cmd_ttl_generic_def intro: one_reply_intros)
next
  case True
  let ?t0 = "ce_clk env 0" and ?t1 = "ce_clk env 1" and ?k = "argv ! 1"
  note clk = env_clk(1) [OF assms(4), of 0] env_clk(1,2) [OF assms(4), of 1]
  note inv = cmd_inv_store [OF assms(2)]
  from store_ttl_ms_ok [OF inv(1), where now = ?t0 and now' = ?t1 and k = ?k] obtain s' where
    s': "store_inv s'" "store_abs s' = touch ?t0 (store_abs (cs_store st)) ?k"
      "store_ttl_ms ?t0 ?t1 (cs_store st) ?k =
         (case live ?t0 (store_abs (cs_store st)) ?k of
            None \<Rightarrow> Some (STORE_TTL_NO_KEY, s')
          | Some (_, x) \<Rightarrow>
              if x = 0 then Some (STORE_TTL_NO_EXPIRY, s')
              else do { r \<leftarrow> i64 (x - ?t1); Some (max 0 r, s') })"
    by blast
  have inv': "cmd_inv (st\<lparr>cs_store := s'\<rparr>)"
    using assms(2) s'(1,2) by (simp add: cmd_inv_def expires_ok_intros)
  have small: "int64_ok (- 2)" "int64_ok (- 1)" by (simp_all add: int64_defs)
  show ?thesis
  proof (cases "live ?t0 (store_abs (cs_store st)) ?k")
    case None
    then show ?thesis
      using True s'(3) inv' assms(3) small by (simp add: cmd_ttl_generic_def one_reply_integer)
  next
    case (Some vx)
    obtain v x where vx: "vx = (v, x)" by (cases vx)
    note l = Some [unfolded vx]
    have x: "int64_ok x" by (rule expires_ok_live [OF inv(2) l])
    show ?thesis
    proof (cases "x = 0")
      case True
      then show ?thesis
        using \<open>length argv = 2\<close> s'(3) l inv' assms(3) small
        by (simp add: cmd_ttl_generic_def one_reply_integer STORE_TTL_NO_KEY_def STORE_TTL_NO_EXPIRY_def)
    next
      case False
      then have "?t0 < x" using live_SomeD [OF l] by (simp add: expired_def)
      then have r: "int64_ok (x - ?t1)" "int64_ok (max 0 (x - ?t1))" "int64_ok (max 0 (x - ?t1) + 999)"
        "int64_ok ((max 0 (x - ?t1) + 999) div 1000)"
        using x clk by (auto simp: int64_defs)
      then have "store_ttl_ms ?t0 ?t1 (cs_store st) ?k = Some (max 0 (x - ?t1), s')" using s'(3) l False by simp
      moreover have "max 0 (x - ?t1) \<noteq> STORE_TTL_NO_KEY" "max 0 (x - ?t1) \<noteq> STORE_TTL_NO_EXPIRY"
        by (simp_all add: STORE_TTL_NO_KEY_def STORE_TTL_NO_EXPIRY_def max_def)
      ultimately show ?thesis
        using \<open>length argv = 2\<close> r inv' assms(3) by (simp add: cmd_ttl_generic_def one_reply_integer Let_def)
    qed
  qed
qed

lemma incr_and_reply_ok:
  assumes "cmd_inv st" and "gb_wf out" and "int64_ok d"
  shows "one_reply out (incr_and_reply d env argv st out)"
proof -
  from store_incrby_ok [OF cmd_inv_store(1) [OF assms(1)] assms(3), of "ce_clk env 0" "argv ! 1"]
  obtain status val s' where r: "store_incrby (ce_clk env 0) (cs_store st) (argv ! 1) d = Some (status, val, s')"
    "(status, val, store_abs s') = incr_spec (ce_clk env 0) (store_abs (cs_store st)) (argv ! 1) d" by metis
  have inv: "cmd_inv (st\<lparr>cs_store := s'\<rparr>)"
    by (rule cmd_inv_call [OF assms(1) store_call.incr [OF assms(3) r(1)]])
  have "int64_ok val" if "status = STORE_INCR_OK"
    using r(2) that by (auto simp: incr_spec_def split: option.splits if_splits)
  then show ?thesis
    using r(1) inv assms(2) by (cases status) (auto simp: incr_and_reply_def intro!: one_reply_intros)
qed

lemma counter_replies:
  assumes "argv \<noteq> []" and "cmd_inv st" and "gb_wf out"
  shows "one_reply out (cmd_incr env argv st out)" "one_reply out (cmd_decr env argv st out)"
    "one_reply out (cmd_incrby_generic negate env argv st out)"
proof -
  have i: "int64_ok 1" "int64_ok (- 1)" by (simp_all add: int64_defs)
  show "one_reply out (cmd_incr env argv st out)" "one_reply out (cmd_decr env argv st out)"
    using assms i by (auto simp: cmd_incr_def cmd_decr_def intro!: one_reply_intros incr_and_reply_ok)
  have "int64_ok d \<and> (d \<noteq> INT64_MIN \<longrightarrow> int64_ok (- d))" if "cmd_parse_strict_ll (argv ! 2) = Some d" for d
    using parse_strict_ll_range [of "argv ! 2" d] that by (auto simp: cmd_parse_strict_ll_eq int64_defs)
  then show "one_reply out (cmd_incrby_generic negate env argv st out)"
    using assms by (auto simp: cmd_incrby_generic_def split: option.split intro!: one_reply_intros incr_and_reply_ok)
qed

lemma save_replies:
  assumes "argv \<noteq> []" and "cmd_inv st" and "gb_wf out" and "env_ok env"
  shows "one_reply out (cmd_save env argv st out)" "one_reply out (cmd_bgsave env argv st out)"
proof -
  note clk = env_clk(3) [OF assms(4)]
  obtain status tr where r: "persist_save (ce_clk env 0) (ce_mem env) (ce_io env) (cs_store st) (g_save_path st) (cs_fs st) =
      Some (status, tr)"
    using persist_save_writes [OF cmd_inv_store(1) [OF assms(2)]] by (metis surj_pair)
  have "one_reply out (do_save env st out)"
    using r assms(2,3) clk [of 1]
    by (cases status) (auto simp: do_save_def snprintf_def Let_def cmd_inv_def simp del: One_nat_def intro!: one_reply_intros)
  then show "one_reply out (cmd_save env argv st out)"
    using assms by (auto simp: cmd_save_def intro!: one_reply_intros)
  show "one_reply out (cmd_bgsave env argv st out)"
    using assms clk [of 0] by (auto simp: cmd_bgsave_def cmd_inv_def intro!: one_reply_intros)
qed

section \<open>Commands on several keys\<close>

lemma del_loop_ok:
  assumes "store_inv s" and "0 \<le> n" and "n + int (length ks) \<le> INT64_MAX"
  shows "\<exists>s'. del_loop s ks n = Some (n + int (card (set ks \<inter> dom (store_abs s))), s') \<and> store_inv s' \<and>
    store_abs s' = store_abs s |` (- set ks)"
  using assms
proof (induction ks arbitrary: s n)
  case Nil
  then show ?case by simp
next
  case (Cons k ks)
  let ?s = "snd (store_del s k)" and ?n = "n + fst (store_del s k)" and ?m = "store_abs s"
  have d: "store_inv ?s" "store_abs ?s = ?m(k := None)" "fst (store_del s k) = (if k \<in> dom ?m then 1 else 0)"
    using st.del_laws [OF Cons.prems(1)] by blast+
  have n: "0 \<le> ?n" "?n + int (length ks) \<le> INT64_MAX" using Cons.prems d(3) by auto
  then have ok: "int64_ok ?n" by (simp add: int64_ok_def INT64_MIN_def)
  from Cons.IH [OF d(1) n] obtain s' where
    s': "del_loop ?s ks ?n = Some (?n + int (card (set ks \<inter> dom (store_abs ?s))), s')" "store_inv s'"
      "store_abs s' = store_abs ?s |` (- set ks)" by blast
  have "set (k # ks) \<inter> dom ?m = (if k \<in> dom ?m then {k} else {}) \<union> (set ks \<inter> (dom ?m - {k}))" by auto
  moreover have "card ((if k \<in> dom ?m then {k} else {}) \<union> (set ks \<inter> (dom ?m - {k}))) =
      (if k \<in> dom ?m then 1 else 0) + card (set ks \<inter> (dom ?m - {k}))"
    by (subst card_Un_disjoint) auto
  ultimately have "?n + int (card (set ks \<inter> dom (store_abs ?s))) = n + int (card (set (k # ks) \<inter> dom ?m))"
    using d(2,3) by simp
  moreover have "store_abs ?s |` (- set ks) = ?m |` (- set (k # ks))"
    by (rule ext) (simp add: d(2) restrict_map_def)
  ultimately show ?case using s' ok by (simp add: split_beta)
qed

lemma exists_loop_ok:
  assumes "store_inv s" and "0 \<le> n" and "n + int (length ks) \<le> INT64_MAX"
  shows "\<exists>s'. exists_loop clk i s ks n =
      Some (n + int (length (filter (\<lambda>r. r \<noteq> None) (lookups clk i ks (store_abs s)))), s') \<and>
    store_inv s' \<and> store_abs s' = touches clk i ks (store_abs s)"
  using assms
proof (induction ks arbitrary: i s n)
  case Nil
  then show ?case by simp
next
  case (Cons k ks)
  let ?s = "snd (store_exists (clk i) s k)" and ?n = "n + fst (store_exists (clk i) s k)" and ?m = "store_abs s"
  have d: "store_inv ?s" "store_abs ?s = touch (clk i) ?m k"
    "fst (store_exists (clk i) s k) = (if k \<in> dom (live (clk i) ?m) then 1 else 0)"
    using st.exists_laws [OF Cons.prems(1)] by blast+
  have n: "0 \<le> ?n" "?n + int (length ks) \<le> INT64_MAX" using Cons.prems d(3) by auto
  then have ok: "int64_ok ?n" by (simp add: int64_ok_def INT64_MIN_def)
  from Cons.IH [OF d(1) n, of "i + 1"] d(2,3) ok show ?case
    by (auto simp: split_beta domIff)
qed

definition lookup_reply :: "bytes option \<Rightarrow> reply" where
  "lookup_reply r = (case r of None \<Rightarrow> Null_Bulk | Some v \<Rightarrow> Bulk v)"

lemma mget_loop_ok:
  assumes "store_inv s" and "gb_wf out"
  shows "\<exists>s' out'. mget_loop clk i ks s out = Some (s', out') \<and> store_inv s' \<and>
    store_abs s' = touches clk i ks (store_abs s) \<and> gb_wf out' \<and>
    gb_bytes out' = gb_bytes out @ concat (map (\<lambda>r. enc_reply (lookup_reply r)) (lookups clk i ks (store_abs s)))"
  using assms
proof (induction ks arbitrary: i s out)
  case Nil
  then show ?case by simp
next
  case (Cons k ks)
  let ?r = "fst (store_get (clk i) s k)" and ?s = "snd (store_get (clk i) s k)"
  have d: "store_inv ?s" "store_abs ?s = touch (clk i) (store_abs s) k"
    "?r = map_option fst (live (clk i) (store_abs s) k)"
    using st.get_laws [OF Cons.prems(1)] by blast+
  have "appends (\<lambda>out. case ?r of Some v \<Rightarrow> resp_reply_bulk_string v out | None \<Rightarrow> resp_reply_null_bulk out)
      (enc_reply (lookup_reply ?r))"
    using appends_bulk_string appends_null_bulk by (cases ?r) (simp_all add: lookup_reply_def)
  from appendsE [OF this Cons.prems(2)] obtain out1 where
    o: "(case ?r of Some v \<Rightarrow> resp_reply_bulk_string v out | None \<Rightarrow> resp_reply_null_bulk out) = Some out1"
      "gb_wf out1" "gb_bytes out1 = gb_bytes out @ enc_reply (lookup_reply ?r)" .
  from Cons.IH [OF d(1) o(2), of "i + 1"] o d(2,3) show ?case by (auto simp: split_beta)
qed

text \<open>The pairs of an even argument list.\<close>

fun kv_pairs :: "bytes list \<Rightarrow> (bytes \<times> bytes \<times> int) list" where
  "kv_pairs (k # v # r) = (k, v, 0) # kv_pairs r"
| "kv_pairs _ = []"

lemma mset_loop_fold:
  "even (length l) \<Longrightarrow> mset_loop l s = Some (fold (\<lambda>(k, v, x) s. snd (store_set s k v x)) (kv_pairs l) s)"
  by (induction l s rule: mset_loop.induct) simp_all

lemma mset_loop_ok:
  assumes "even (length l)" and "store_inv s"
  shows "\<exists>s'. mset_loop l s = Some s' \<and> store_inv s' \<and> store_abs s' = store_abs s ++ map_of (rev (kv_pairs l))"
  using mset_loop_fold [OF assms(1)] st.set_many [OF assms(2)] by blast

lemma keys_fold_ok:
  assumes "gb_wf (kc_out ctx)"
  shows "\<exists>ctx'. fold (\<lambda>e. keys_collect_cb (e_key e) (e_val e) (e_expire_at_ms e)) es (Some ctx) = Some ctx' \<and>
    gb_wf (kc_out ctx') \<and> kc_count ctx' = kc_count ctx + length es \<and>
    gb_bytes (kc_out ctx') = gb_bytes (kc_out ctx) @ concat (map (\<lambda>e. enc_reply (Bulk (e_key e))) es)"
  using assms
proof (induction es arbitrary: ctx)
  case Nil
  then show ?case by simp
next
  case (Cons e es)
  from appendsE [OF appends_bulk_string Cons.prems, of "e_key e"] obtain o1 where
    o1: "resp_reply_bulk_string (e_key e) (kc_out ctx) = Some o1" "gb_wf o1"
      "gb_bytes o1 = gb_bytes (kc_out ctx) @ enc_reply (Bulk (e_key e))" .
  have step: "keys_collect_cb (e_key e) (e_val e) (e_expire_at_ms e) (Some ctx) =
      Some (ctx\<lparr>kc_out := o1, kc_count := kc_count ctx + 1\<rparr>)" by (simp add: keys_collect_cb_def o1(1))
  from Cons.IH [of "ctx\<lparr>kc_out := o1, kc_count := kc_count ctx + 1\<rparr>"] o1(2,3) step show ?case by auto
qed

text \<open>What the commands on several keys do, with their replies.\<close>

lemma just_integer:
  assumes "int64_ok v" and "gb_wf out"
  shows "\<exists>out'. just_reply (resp_reply_integer v) st out = Some (st, out') \<and> gb_wf out' \<and>
    gb_bytes out' = gb_bytes out @ enc_reply (Integer v)"
proof -
  from appendsE [OF appends_integer [OF assms(1)] assms(2)] obtain out' where
    "resp_reply_integer v out = Some out'" "gb_wf out'" "gb_bytes out' = gb_bytes out @ enc_reply (Integer v)" .
  then show ?thesis by (simp add: just_reply_def)
qed

lemma just_OK:
  assumes "gb_wf out"
  shows "\<exists>out'. just_reply (resp_reply_simple_string ''OK'') st out = Some (st, out') \<and> gb_wf out' \<and>
    gb_bytes out' = gb_bytes out @ enc_reply (Simple ''OK'')"
proof -
  have "appends (resp_reply_simple_string ''OK'') (enc_reply (Simple ''OK''))"
    using appends_simple_string [of "''OK''"] by (simp add: cstr_def)
  from appendsE [OF this assms] obtain out' where
    "resp_reply_simple_string ''OK'' out = Some out'" "gb_wf out'" "gb_bytes out' = gb_bytes out @ enc_reply (Simple ''OK'')" .
  then show ?thesis by (simp add: just_reply_def)
qed

lemma cmd_del_ok:
  assumes "store_inv (cs_store st)" and "gb_wf out" and "2 \<le> length argv" and "length argv < 2 ^ 63"
  shows "\<exists>s' out'. cmd_del env argv st out = Some (st\<lparr>cs_store := s'\<rparr>, out') \<and> store_inv s' \<and>
    store_abs s' = store_abs (cs_store st) |` (- set (tl argv)) \<and> gb_wf out' \<and>
    gb_bytes out' = gb_bytes out @ enc_reply (Integer (int (card (set (tl argv) \<inter> dom (store_abs (cs_store st))))))"
proof -
  let ?n = "int (card (set (tl argv) \<inter> dom (store_abs (cs_store st))))"
  have l: "0 + int (length (tl argv)) \<le> INT64_MAX" using assms(4) by (simp add: INT64_MAX_def)
  from del_loop_ok [OF assms(1) _ l] obtain s' where
    s': "del_loop (cs_store st) (tl argv) 0 = Some (?n, s')" "store_inv s'"
      "store_abs s' = store_abs (cs_store st) |` (- set (tl argv))" by auto
  have "card (set (tl argv) \<inter> dom (store_abs (cs_store st))) \<le> length (tl argv)"
    by (meson List.finite_set Int_lower1 card_length card_mono order_trans)
  with l have "int64_ok ?n" by (simp add: int64_ok_def INT64_MIN_def)
  from just_integer [OF this assms(2), of "st\<lparr>cs_store := s'\<rparr>"] s' assms(3) show ?thesis
    by (auto simp: cmd_del_def)
qed

lemma cmd_exists_ok:
  assumes "store_inv (cs_store st)" and "gb_wf out" and "2 \<le> length argv" and "length argv < 2 ^ 63"
  shows "\<exists>s' out'. cmd_exists env argv st out = Some (st\<lparr>cs_store := s'\<rparr>, out') \<and> store_inv s' \<and>
    store_abs s' = touches (ce_clk env) 0 (tl argv) (store_abs (cs_store st)) \<and> gb_wf out' \<and>
    gb_bytes out' = gb_bytes out @ enc_reply (Integer (int (length
      (filter (\<lambda>r. r \<noteq> None) (lookups (ce_clk env) 0 (tl argv) (store_abs (cs_store st)))))))"
proof -
  let ?f = "filter (\<lambda>r. r \<noteq> None) (lookups (ce_clk env) 0 (tl argv) (store_abs (cs_store st)))"
  have l: "0 + int (length (tl argv)) \<le> INT64_MAX" using assms(4) by (simp add: INT64_MAX_def)
  from exists_loop_ok [OF assms(1) _ l, of "ce_clk env" 0] obtain s' where
    s': "exists_loop (ce_clk env) 0 (cs_store st) (tl argv) 0 = Some (int (length ?f), s')" "store_inv s'"
      "store_abs s' = touches (ce_clk env) 0 (tl argv) (store_abs (cs_store st))" by auto
  have "length ?f \<le> length (tl argv)"
    using length_filter_le [of "\<lambda>r. r \<noteq> None" "lookups (ce_clk env) 0 (tl argv) (store_abs (cs_store st))"]
    by (simp del: length_filter_le)
  with l have "int64_ok (int (length ?f))" by (simp add: int64_ok_def INT64_MIN_def)
  from just_integer [OF this assms(2), of "st\<lparr>cs_store := s'\<rparr>"] s' assms(3) show ?thesis
    by (auto simp: cmd_exists_def)
qed

lemma cmd_mget_ok:
  assumes "store_inv (cs_store st)" and "gb_wf out" and "2 \<le> length argv"
  shows "\<exists>s' out'. cmd_mget env argv st out = Some (st\<lparr>cs_store := s'\<rparr>, out') \<and> store_inv s' \<and>
    store_abs s' = touches (ce_clk env) 0 (tl argv) (store_abs (cs_store st)) \<and> gb_wf out' \<and>
    gb_bytes out' = gb_bytes out @
      enc_reply (Array (map lookup_reply (lookups (ce_clk env) 0 (tl argv) (store_abs (cs_store st)))))"
proof -
  from appendsE [OF appends_array_header assms(2), of "length argv - 1"] obtain o1 where
    o1: "resp_reply_array_header (length argv - 1) out = Some o1" "gb_wf o1"
      "gb_bytes o1 = gb_bytes out @ ''*'' @ show_size (length argv - 1) @ crlf" .
  from mget_loop_ok [OF assms(1) o1(2), of "ce_clk env" 0 "tl argv"] o1 assms(3) show ?thesis
    by (auto simp: cmd_mget_def Let_def o_def)
qed

lemma cmd_mset_ok:
  assumes "store_inv (cs_store st)" and "gb_wf out" and "3 \<le> length argv" and "odd (length argv)"
  shows "\<exists>s' out'. cmd_mset env argv st out = Some (st\<lparr>cs_store := s'\<rparr>, out') \<and> store_inv s' \<and>
    store_abs s' = store_abs (cs_store st) ++ map_of (rev (kv_pairs (tl argv))) \<and> gb_wf out' \<and>
    gb_bytes out' = gb_bytes out @ enc_reply (Simple ''OK'')"
proof -
  have "even (length (tl argv))" using assms(3,4) by simp
  from mset_loop_ok [OF this assms(1)] obtain s' where
    s': "mset_loop (tl argv) (cs_store st) = Some s'" "store_inv s'"
      "store_abs s' = store_abs (cs_store st) ++ map_of (rev (kv_pairs (tl argv)))" by blast
  moreover have "length argv mod 2 \<noteq> 0" using assms(4) by (simp add: odd_iff_mod_2_eq_one)
  ultimately show ?thesis
    using just_OK [OF assms(2), of "st\<lparr>cs_store := s'\<rparr>"] assms(3) by (auto simp: cmd_mset_def)
qed

lemma cmd_keys_ok:
  assumes "store_inv (cs_store st)" and "gb_wf out" and "length argv = 2" and "argv ! 1 = ''*''"
  shows "\<exists>out'. cmd_keys env argv st out = Some (st, out') \<and> gb_wf out' \<and>
    gb_bytes out' = gb_bytes out @
      enc_reply (Array (map (\<lambda>e. Bulk (e_key e)) (live_entries (ce_clk env 0) (cs_store st))))"
proof -
  let ?es = "live_entries (ce_clk env 0) (cs_store st)"
  let ?c0 = "\<lparr>kc_out = resp_buf_init, kc_count = 0\<rparr>"
  define body where "body = concat (map (\<lambda>e. enc_reply (Bulk (e_key e))) ?es)"
  have "gb_wf (kc_out ?c0)" "gb_bytes (kc_out ?c0) = []"
    using gb_null_wf gb_null_bytes by (simp_all add: resp_buf_init_def gb_null_def)
  with keys_fold_ok [of ?c0 ?es] obtain ctx where
    ctx: "store_foreach (ce_clk env 0) (cs_store st) keys_collect_cb (Some ?c0) = Some ctx"
      "gb_wf (kc_out ctx)" "kc_count ctx = length ?es" "gb_bytes (kc_out ctx) = body"
    by (auto simp: store_foreach_fold [OF assms(1)] body_def)
  from appendsE [OF appends_array_header assms(2), of "length ?es"] obtain o1 where
    o1: "resp_reply_array_header (length ?es) out = Some o1" "gb_wf o1"
      "gb_bytes o1 = gb_bytes out @ ''*'' @ show_size (length ?es) @ crlf" .
  note len = gb_len_bytes [OF ctx(2)]
  have rd: "gb_read (kc_out ctx) 0 (gb_len (kc_out ctx)) = Some body"
    using gb_read_ok [OF ctx(2), of 0 "length body"] ctx(4) len by simp
  from gb_append_ok [OF o1(2), of 64 body] obtain o2 where
    o2: "gb_append 64 o1 body = Some o2" "gb_wf o2" "gb_bytes o2 = gb_bytes o1 @ body" by auto
  have e: "gb_bytes o1 @ body = gb_bytes out @ enc_reply (Array (map (\<lambda>e. Bulk (e_key e)) ?es))"
    using o1(3) by (simp add: body_def o_def)
  show ?thesis
  proof (cases "gb_len (kc_out ctx) > 0")
    case True
    then have "cmd_keys env argv st out = Some (st, o2)"
      using ctx(1,3,4) o1(1) o2(1) rd len assms(3,4)
      by (auto simp: cmd_keys_def gb_append_def Let_def split: if_splits)
    then show ?thesis using o2(2,3) e by simp
  next
    case False
    then have "cmd_keys env argv st out = Some (st, o1)" "body = []"
      using ctx(1,3,4) o1(1) len assms(3,4) by (simp_all add: cmd_keys_def Let_def)
    then show ?thesis using o1(2) e by simp
  qed
qed

lemma expires_ok_restrict: "expires_ok m \<Longrightarrow> expires_ok (m |` A)"
  by (auto simp: expires_ok_def restrict_map_def split: if_splits)

lemma expires_ok_touches: "expires_ok m \<Longrightarrow> expires_ok (touches clk i ks m)"
  by (induction ks arbitrary: i m) (simp_all add: expires_ok_intros)

lemma expires_ok_pairs: "expires_ok m \<Longrightarrow> expires_ok (m ++ map_of (rev (kv_pairs l)))"
proof -
  have "x = 0" if "(k, v, x) \<in> set (kv_pairs l)" for k v x
    using that by (induction l rule: kv_pairs.induct) auto
  then have "x = 0" if "map_of (rev (kv_pairs l)) k = Some (v, x)" for k v x
    using map_of_SomeD [OF that] by simp
  then show "expires_ok m \<Longrightarrow> expires_ok (m ++ map_of (rev (kv_pairs l)))"
    by (fastforce simp: expires_ok_def map_add_def split: option.splits)
qed

section \<open>Every command gets exactly one reply\<close>

lemma one_reply_store:
  assumes "\<exists>s' out'. res = Some (st\<lparr>cs_store := s'\<rparr>, out') \<and> store_inv s' \<and> store_abs s' = m \<and> gb_wf out' \<and>
      gb_bytes out' = gb_bytes out @ enc_reply r"
    and "cmd_inv st" and "expires_ok m" and "reply_safe r"
  shows "one_reply out res"
  using assms unfolding one_reply_def cmd_inv_def by fastforce

lemma reply_safe_lookups: "reply_safe (Array (map lookup_reply rs))"
  by (auto simp: list_all_iff lookup_reply_def split: option.split)

lemma multi_key_replies:
  assumes "argv \<noteq> []" and "cmd_inv st" and "gb_wf out" and "length argv < 2 ^ 63"
  shows "one_reply out (cmd_del env argv st out)" "one_reply out (cmd_exists env argv st out)"
    "one_reply out (cmd_mget env argv st out)" "one_reply out (cmd_mset env argv st out)"
proof -
  note inv = cmd_inv_store [OF assms(2)]
  note arity = wrong_arity_reply [OF assms(1-3)]
  show "one_reply out (cmd_del env argv st out)"
  proof (cases "2 \<le> length argv")
    case True
    show ?thesis
      by (rule one_reply_store [OF cmd_del_ok [OF inv(1) assms(3) True assms(4)] assms(2)
            expires_ok_restrict [OF inv(2)]]) simp
  qed (use arity in \<open>simp add: cmd_del_def\<close>)
  show "one_reply out (cmd_exists env argv st out)"
  proof (cases "2 \<le> length argv")
    case True
    show ?thesis
      by (rule one_reply_store [OF cmd_exists_ok [OF inv(1) assms(3) True assms(4)] assms(2)
            expires_ok_touches [OF inv(2)]]) simp
  qed (use arity in \<open>simp add: cmd_exists_def\<close>)
  show "one_reply out (cmd_mget env argv st out)"
  proof (cases "2 \<le> length argv")
    case True
    show ?thesis
      by (rule one_reply_store [OF cmd_mget_ok [OF inv(1) assms(3) True] assms(2)
            expires_ok_touches [OF inv(2)] reply_safe_lookups])
  qed (use arity in \<open>simp add: cmd_mget_def\<close>)
  show "one_reply out (cmd_mset env argv st out)"
  proof (cases "3 \<le> length argv \<and> odd (length argv)")
    case True
    then have "3 \<le> length argv" "odd (length argv)" by simp_all
    from one_reply_store [OF cmd_mset_ok [OF inv(1) assms(3) this] assms(2) expires_ok_pairs [OF inv(2)]]
    show ?thesis by simp
  qed (use arity in \<open>auto simp: cmd_mset_def even_iff_mod_2_eq_zero\<close>)
qed

lemma keys_reply:
  assumes "argv \<noteq> []" and "cmd_inv st" and "gb_wf out"
  shows "one_reply out (cmd_keys env argv st out)"
proof (cases "length argv = 2 \<and> argv ! 1 = ''*''")
  case True
  then have a: "length argv = 2" "argv ! 1 = ''*''" by simp_all
  let ?r = "Array (map (\<lambda>e. Bulk (e_key e)) (live_entries (ce_clk env 0) (cs_store st)))"
  have "reply_safe ?r" by (simp add: list_all_iff)
  with cmd_keys_ok [OF cmd_inv_store(1) [OF assms(2)] assms(3) a, where env = env] assms(2)
  show ?thesis unfolding one_reply_def by blast
next
  case False
  then have "length argv \<noteq> 2 \<or> length (argv ! 1) \<noteq> 1 \<or> hd (argv ! 1) \<noteq> CHR ''*''"
    by (cases "argv ! 1") auto
  then show ?thesis
    using wrong_arity_reply [OF assms] assms(2,3) by (auto simp: cmd_keys_def intro!: one_reply_error)
qed

lemma find_handler_Some: "find_handler t a = Some h \<Longrightarrow> \<exists>n. (n, h) \<in> set t \<and> arg_eq_ci a n"
  by (induction t a rule: find_handler.induct) (auto split: if_splits)

lemma handlers_reply:
  assumes "argv \<noteq> []" and "cmd_inv st" and "gb_wf out" and "env_ok env" and "length argv < 2 ^ 63"
    and "\<not> ttl_overflow env argv"
  shows "\<forall>(n, h) \<in> set COMMAND_TABLE. arg_eq_ci (argv ! 0) n \<longrightarrow> one_reply out (h env argv st out)"
  using assms
  by (simp add: COMMAND_TABLE_def cmd_ttl_def cmd_pttl_def cmd_incrby_def cmd_decrby_def ping_reply echo_reply
      get_reply flushdb_reply dbsize_reply lastsave_reply set_reply expire_reply ttl_reply counter_replies
      save_replies multi_key_replies keys_reply)

lemma unknown_reply:
  assumes "cmd_inv st" and "gb_wf out"
  shows "one_reply out (just_reply (resp_reply_error
    (snprintf 80 (''ERR unknown command '' @ [CHR 0x27] @ safe_token 32 a @ [CHR 0x27]))) st out)"
proof -
  let ?m = "''ERR unknown command '' @ [CHR 0x27] @ safe_token 32 a @ [CHR 0x27]"
  have "snprintf 80 ?m = ?m" using safe_token_length [of 32 a] by (intro snprintf_id) simp
  moreover have "one_reply out (just_reply (resp_reply_error ?m) st out)"
    using safe_token_no_control [of 32 a] assms by (intro one_reply_error) auto
  ultimately show ?thesis by simp
qed

lemma dispatch_reply:
  assumes "argv \<noteq> []" and "cmd_inv st" and "gb_wf out" and "env_ok env" and "length argv < 2 ^ 63"
    and "\<not> ttl_overflow env argv"
  shows "one_reply out (cmd_dispatch env argv st out)"
proof (cases "find_handler COMMAND_TABLE (argv ! 0)")
  case None
  then show ?thesis using assms(1) unknown_reply [OF assms(2,3)] by (simp add: cmd_dispatch_def Let_def)
next
  case (Some h)
  from find_handler_Some [OF this] handlers_reply [OF assms] have "one_reply out (h env argv st out)" by auto
  then show ?thesis using Some assms(1) by (simp add: cmd_dispatch_def)
qed

text \<open>The converse: with an overflow the two handlers reach the signed arithmetic that has no result.\<close>

lemma command_names_distinct: "distinct (map (map tolower) (map fst COMMAND_TABLE))"
proof -
  have "map fst COMMAND_TABLE =
      [''PING'', ''ECHO'', ''SET'', ''GET'', ''MGET'', ''MSET'', ''DEL'', ''EXISTS'', ''KEYS'', ''EXPIRE'', ''TTL'', ''PTTL'',
       ''INCR'', ''DECR'', ''INCRBY'', ''DECRBY'', ''DBSIZE'', ''FLUSHDB'', ''SAVE'', ''BGSAVE'', ''LASTSAVE'']"
    by (simp add: COMMAND_TABLE_def)
  moreover have "distinct (map (map tolower)
      [''PING'', ''ECHO'', ''SET'', ''GET'', ''MGET'', ''MSET'', ''DEL'', ''EXISTS'', ''KEYS'', ''EXPIRE'', ''TTL'', ''PTTL'',
       ''INCR'', ''DECR'', ''INCRBY'', ''DECRBY'', ''DBSIZE'', ''FLUSHDB'', ''SAVE'', ''BGSAVE'', ''LASTSAVE''])"
    by code_simp
  ultimately show ?thesis by (simp only:)
qed

lemma find_handler_named:
  "distinct (map (map tolower) (map fst t)) \<Longrightarrow> (n, h) \<in> set t \<Longrightarrow> arg_eq_ci a n \<Longrightarrow> find_handler t a = Some h"
  by (induction t a rule: find_handler.induct) (force simp: arg_eq_ci_iff)+

lemma dispatch_named:
  assumes "(n, h) \<in> set COMMAND_TABLE" and "arg_eq_ci (argv ! 0) n" and "argv \<noteq> []"
  shows "cmd_dispatch env argv st out = h env argv st out"
proof -
  have "find_handler COMMAND_TABLE (argv ! 0) = Some h"
    by (rule find_handler_named [OF command_names_distinct assms(1,2)])
  then show ?thesis using assms(3) by (simp add: cmd_dispatch_def)
qed

section \<open>The reply does not depend on what is already in the output buffer\<close>

text \<open>A reply function that appends the same bytes to every buffer, or is undefined for all of them.\<close>

definition uniform :: "(gbuf \<Rightarrow> gbuf option) \<Rightarrow> bool" where
  "uniform f \<longleftrightarrow> (\<forall>out. f out = None) \<or> (\<exists>x. appends f x)"

lemma uniform_replies:
  "uniform (resp_reply_error m)" "uniform (resp_reply_simple_string m)" "uniform (resp_reply_bulk_string m)"
  "uniform resp_reply_null_bulk" "uniform (resp_reply_integer v)" "uniform (resp_reply_array_header n)"
proof -
  show "uniform (resp_reply_error m)" "uniform (resp_reply_simple_string m)" "uniform (resp_reply_bulk_string m)"
    "uniform resp_reply_null_bulk" "uniform (resp_reply_array_header n)"
    unfolding uniform_def
    using appends_error appends_simple_string appends_bulk_string appends_null_bulk appends_array_header by blast+
  show "uniform (resp_reply_integer v)"
  proof (cases "snprintf_copy 32 ('':'' @ show_int v @ crlf)")
    case None
    then show ?thesis by (simp add: uniform_def resp_reply_integer_def)
  next
    case (Some t)
    then have "resp_reply_integer v = (\<lambda>b. resp_buf_append b t)" by (simp add: resp_reply_integer_def fun_eq_iff)
    then show ?thesis unfolding uniform_def using appends_resp_buf by auto
  qed
qed

lemma uniform_wrong_arity: "uniform (reply_wrong_arity argv)"
proof (cases argv)
  case Nil
  then show ?thesis by (simp add: uniform_def reply_wrong_arity_def rd_def)
next
  case (Cons a as)
  then have "\<exists>m. reply_wrong_arity argv = resp_reply_error m"
    by (auto simp: reply_wrong_arity_def fun_eq_iff Let_def)
  then show ?thesis using uniform_replies(1) by auto
qed

lemma uniform_incr_result: "uniform (reply_incr_result status v)"
  by (cases status) (simp_all add: uniform_replies)

text \<open>Two runs that differ in the output they found: the same new state, the same bytes added.\<close>

definition same_reply :: "gbuf \<Rightarrow> gbuf \<Rightarrow> ('a \<times> gbuf) option \<Rightarrow> ('a \<times> gbuf) option \<Rightarrow> bool" where
  "same_reply out1 out2 x y \<longleftrightarrow> (x = None \<and> y = None) \<or>
     (\<exists>st o1 o2 w. x = Some (st, o1) \<and> y = Some (st, o2) \<and> gb_wf o1 \<and> gb_wf o2 \<and>
        gb_bytes o1 = gb_bytes out1 @ w \<and> gb_bytes o2 = gb_bytes out2 @ w)"

lemma same_reply_None: "same_reply out1 out2 None None"
  by (simp add: same_reply_def)

lemma same_reply_just:
  assumes "uniform f" and "gb_wf out1" and "gb_wf out2"
  shows "same_reply out1 out2 (just_reply f st out1) (just_reply f st out2)"
  using assms(1) unfolding uniform_def
proof (elim disjE exE)
  assume "\<forall>out. f out = None"
  then show ?thesis by (simp add: same_reply_def just_reply_def)
next
  fix x assume f: "appends f x"
  from appendsE [OF f assms(2)] obtain o1 where "f out1 = Some o1" "gb_wf o1" "gb_bytes o1 = gb_bytes out1 @ x" .
  moreover from appendsE [OF f assms(3)] obtain o2 where "f out2 = Some o2" "gb_wf o2" "gb_bytes o2 = gb_bytes out2 @ x" .
  ultimately show ?thesis by (simp add: same_reply_def just_reply_def)
qed

lemma same_reply_bind:
  assumes "same_reply out1 out2 x y"
    and "\<And>st o1 o2. gb_wf o1 \<Longrightarrow> gb_wf o2 \<Longrightarrow> same_reply o1 o2 (f (st, o1)) (f (st, o2))"
  shows "same_reply out1 out2 (x \<bind> f) (y \<bind> f)"
  using assms(1) unfolding same_reply_def [of out1 out2 x y]
proof (elim disjE exE conjE)
  assume "x = None" "y = None"
  then show ?thesis by (simp add: same_reply_None)
next
  fix st o1 o2 w
  assume a: "x = Some (st, o1)" "y = Some (st, o2)" "gb_wf o1" "gb_wf o2" "gb_bytes o1 = gb_bytes out1 @ w" "gb_bytes o2 = gb_bytes out2 @ w"
  from assms(2) [OF a(3,4), of st] a(1,2,5,6) show ?thesis by (auto simp: same_reply_def)
qed

lemma same_reply_refl: "gb_wf out1 \<Longrightarrow> gb_wf out2 \<Longrightarrow> same_reply out1 out2 (Some (st, out1)) (Some (st, out2))"
  by (simp add: same_reply_def)

lemmas same_reply_intros = same_reply_None same_reply_just uniform_replies uniform_wrong_arity uniform_incr_result

lemma same_reply_option:
  assumes "\<And>a. r = Some a \<Longrightarrow> same_reply out1 out2 (f a) (g a)"
  shows "same_reply out1 out2 (r \<bind> f) (r \<bind> g)"
  using assms by (cases r) (simp_all add: same_reply_None)

lemma same_reply_simple:
  assumes "gb_wf o1" and "gb_wf o2"
  shows "same_reply o1 o2 (cmd_ping env argv st o1) (cmd_ping env argv st o2)"
    "same_reply o1 o2 (cmd_echo env argv st o1) (cmd_echo env argv st o2)"
    "same_reply o1 o2 (cmd_get env argv st o1) (cmd_get env argv st o2)"
    "same_reply o1 o2 (cmd_del env argv st o1) (cmd_del env argv st o2)"
    "same_reply o1 o2 (cmd_exists env argv st o1) (cmd_exists env argv st o2)"
    "same_reply o1 o2 (cmd_mset env argv st o1) (cmd_mset env argv st o2)"
    "same_reply o1 o2 (cmd_dbsize env argv st o1) (cmd_dbsize env argv st o2)"
    "same_reply o1 o2 (cmd_flushdb env argv st o1) (cmd_flushdb env argv st o2)"
    "same_reply o1 o2 (cmd_lastsave env argv st o1) (cmd_lastsave env argv st o2)"
    "same_reply o1 o2 (cmd_bgsave env argv st o1) (cmd_bgsave env argv st o2)"
  using assms
  by (auto simp: cmd_ping_def cmd_echo_def cmd_get_def cmd_del_def cmd_exists_def cmd_mset_def cmd_dbsize_def cmd_flushdb_def
      cmd_lastsave_def cmd_bgsave_def split_beta split: option.split intro!: same_reply_intros same_reply_option)

lemma same_reply_timed:
  assumes "gb_wf o1" and "gb_wf o2"
  shows "same_reply o1 o2 (cmd_set env argv st o1) (cmd_set env argv st o2)"
    "same_reply o1 o2 (cmd_expire env argv st o1) (cmd_expire env argv st o2)"
    "same_reply o1 o2 (cmd_ttl_generic b env argv st o1) (cmd_ttl_generic b env argv st o2)"
  using assms
  by (auto simp: cmd_set_def cmd_expire_def cmd_ttl_generic_def Let_def split_beta split: option.split
      intro!: same_reply_intros same_reply_option)

lemma same_reply_counters:
  assumes "gb_wf o1" and "gb_wf o2"
  shows "same_reply o1 o2 (cmd_incr env argv st o1) (cmd_incr env argv st o2)"
    "same_reply o1 o2 (cmd_decr env argv st o1) (cmd_decr env argv st o2)"
    "same_reply o1 o2 (cmd_incrby_generic b env argv st o1) (cmd_incrby_generic b env argv st o2)"
  using assms
  by (auto simp: cmd_incr_def cmd_decr_def cmd_incrby_generic_def incr_and_reply_def Let_def split_beta split: option.split
      intro!: same_reply_intros same_reply_option)

lemma same_reply_save:
  assumes "gb_wf o1" and "gb_wf o2"
  shows "same_reply o1 o2 (cmd_save env argv st o1) (cmd_save env argv st o2)"
  using assms
  by (auto simp: cmd_save_def do_save_def Let_def split_beta intro!: same_reply_intros same_reply_option)

lemma same_reply_mget_loop:
  "gb_wf o1 \<Longrightarrow> gb_wf o2 \<Longrightarrow> same_reply o1 o2 (mget_loop clk i ks s o1) (mget_loop clk i ks s o2)"
proof (induction ks arbitrary: i s o1 o2)
  case Nil
  then show ?case by (simp add: same_reply_refl)
next
  case (Cons k ks)
  let ?r = "fst (store_get (clk i) s k)" and ?s = "snd (store_get (clk i) s k)"
  let ?f = "\<lambda>out. case ?r of Some v \<Rightarrow> resp_reply_bulk_string v out | None \<Rightarrow> resp_reply_null_bulk out"
  have "uniform ?f" using uniform_replies by (cases ?r) simp_all
  from same_reply_just [OF this Cons.prems, of "undefined :: cmd_state"]
  have "same_reply o1 o2 (just_reply ?f undefined o1 \<bind> (\<lambda>(_, out). mget_loop clk (i + 1) ks ?s out))
      (just_reply ?f undefined o2 \<bind> (\<lambda>(_, out). mget_loop clk (i + 1) ks ?s out))"
    by (rule same_reply_bind) (auto intro: Cons.IH)
  then show ?case by (simp add: split_beta just_reply_def)
qed

lemma same_reply_mget:
  assumes "gb_wf o1" and "gb_wf o2"
  shows "same_reply o1 o2 (cmd_mget env argv st o1) (cmd_mget env argv st o2)"
proof (cases "length argv < 2")
  case True
  then show ?thesis using assms by (simp add: cmd_mget_def same_reply_intros)
next
  case False
  let ?g = "\<lambda>(st, out). mget_loop (ce_clk env) 0 (tl argv) (cs_store st) out \<bind> (\<lambda>(s, out). Some (st\<lparr>cs_store := s\<rparr>, out))"
  have "same_reply o1 o2 (just_reply (resp_reply_array_header (length argv - 1)) st o1 \<bind> ?g)
      (just_reply (resp_reply_array_header (length argv - 1)) st o2 \<bind> ?g)"
    using assms
    by (intro same_reply_bind [OF same_reply_just [OF uniform_replies(6)]])
      (auto intro!: same_reply_bind [OF same_reply_mget_loop] same_reply_refl)
  then show ?thesis using False by (simp add: cmd_mget_def just_reply_def Let_def)
qed

lemma same_reply_keys:
  assumes "store_inv (cs_store st)" and "gb_wf o1" and "gb_wf o2"
  shows "same_reply o1 o2 (cmd_keys env argv st o1) (cmd_keys env argv st o2)"
proof (cases "length argv = 2 \<and> argv ! 1 = ''*''")
  case True
  then have a: "length argv = 2" "argv ! 1 = ''*''" by simp_all
  from cmd_keys_ok [OF assms(1,2) a, of env] cmd_keys_ok [OF assms(1,3) a, of env] show ?thesis
    unfolding same_reply_def by (elim exE conjE) (intro disjI2 exI conjI, assumption+)
next
  case False
  then have "length argv \<noteq> 2 \<or> length (argv ! 1) \<noteq> 1 \<or> hd (argv ! 1) \<noteq> CHR ''*''"
    by (cases "argv ! 1") auto
  then show ?thesis using assms(2,3) by (auto simp: cmd_keys_def intro!: same_reply_intros)
qed

text \<open>So the state and the reply of a command are a function of the command, its environment and the state.\<close>

lemma dispatch_same_reply:
  assumes "store_inv (cs_store st)" and "gb_wf o1" and "gb_wf o2"
  shows "same_reply o1 o2 (cmd_dispatch env argv st o1) (cmd_dispatch env argv st o2)"
proof (cases "find_handler COMMAND_TABLE (argv ! 0)")
  case None
  then show ?thesis
    using assms(2,3) by (auto simp: cmd_dispatch_def Let_def same_reply_refl intro!: same_reply_intros)
next
  case (Some h)
  have "\<forall>(n, h) \<in> set COMMAND_TABLE. same_reply o1 o2 (h env argv st o1) (h env argv st o2)"
    using assms
    by (simp add: COMMAND_TABLE_def cmd_ttl_def cmd_pttl_def cmd_incrby_def cmd_decrby_def same_reply_simple same_reply_timed
        same_reply_counters same_reply_save same_reply_mget same_reply_keys)
  with find_handler_Some [OF Some] have "same_reply o1 o2 (h env argv st o1) (h env argv st o2)" by auto
  then show ?thesis using Some assms(2,3) by (auto simp: cmd_dispatch_def same_reply_refl)
qed

section \<open>Properties\<close>

lemma ttl_overflow_undefined:
  assumes "argv \<noteq> []" and "env_ok env" and "ttl_overflow env argv"
  shows "cmd_dispatch env argv st out = None"
proof -
  have clk: "0 \<le> ce_clk env 0" using env_clk(1) [OF assms(2), of 0] by simp
  have t: "(''SET'', cmd_set) \<in> set COMMAND_TABLE" "(''EXPIRE'', cmd_expire) \<in> set COMMAND_TABLE"
    by (simp_all add: COMMAND_TABLE_def)
  from assms(3) consider
    (ex) n where "arg_eq_ci (argv ! 0) ''SET''" "length argv = 5" "cmd_parse_strict_ll (argv ! 4) = Some n"
      "0 < n" "arg_eq_ci (argv ! 3) ''EX''" "INT64_MAX < ce_clk env 0 + n * 1000"
  | (px) n where "arg_eq_ci (argv ! 0) ''SET''" "length argv = 5" "cmd_parse_strict_ll (argv ! 4) = Some n"
      "0 < n" "\<not> arg_eq_ci (argv ! 3) ''EX''" "arg_eq_ci (argv ! 3) ''PX''" "INT64_MAX < ce_clk env 0 + n"
  | (expire) n where "arg_eq_ci (argv ! 0) ''EXPIRE''" "length argv = 3" "cmd_parse_strict_ll (argv ! 2) = Some n"
      "\<not> int64_ok (n * 1000) \<or> \<not> int64_ok (ce_clk env 0 + n * 1000)"
    by (fastforce simp: ttl_overflow_def split: option.splits if_splits)
  then show ?thesis
  proof cases
    case ex
    then have "\<not> int64_ok (ce_clk env 0 + n * 1000)" by (simp add: int64_ok_def)
    with ex show ?thesis
      using dispatch_named [OF t(1) ex(1) assms(1)] by (simp add: cmd_set_def Let_def i64_def split: option.split)
  next
    case px
    then have "\<not> int64_ok (ce_clk env 0 + n)" by (simp add: int64_ok_def)
    with px show ?thesis
      using dispatch_named [OF t(1) px(1) assms(1)] by (simp add: cmd_set_def Let_def i64_def)
  next
    case expire
    then show ?thesis
      using dispatch_named [OF t(2) expire(1) assms(1)] by (auto simp: cmd_expire_def Let_def i64_def)
  qed
qed

text \<open>A state and an environment for the witnesses.\<close>

definition demo_env :: cmd_env where
  "demo_env = \<lparr>ce_clk = (\<lambda>_. 5000), ce_mem = (\<lambda>_. True), ce_io = all_io, ce_fork = True\<rparr>"

definition demo_state :: cmd_state where
  "demo_state = \<lparr>cs_store = demo_store, g_save_path = ''dump'', g_lastsave_time = 0, cs_fs = Map.empty, cs_children = []\<rparr>"

lemma demo_env_ok: "env_ok demo_env"
  by (simp add: env_ok_def demo_env_def INT64_MAX_def)

lemma demo_state_inv: "cmd_inv demo_state"
  using store_reachable_inv [OF demo_store_reachable] by (simp add: cmd_inv_def demo_state_def int64_defs)

lemma gb_wf_init [simp]: "gb_wf resp_buf_init" and gb_bytes_init [simp]: "gb_bytes resp_buf_init = []"
  using gb_null_wf gb_null_bytes by (simp_all add: resp_buf_init_def gb_null_def)



text \<open>The expiry time that the options of a \<open>SET\<close> ask for.\<close>

fun set_deadline :: "int \<Rightarrow> bytes list \<Rightarrow> int option" where
  "set_deadline now [] = Some 0"
| "set_deadline now [u, t] =
     (case cmd_parse_strict_ll t of
        None \<Rightarrow> None
      | Some n \<Rightarrow>
          if n \<le> 0 then None
          else if arg_eq_ci u ''EX'' then (if now + n * 1000 \<le> INT64_MAX then Some (now + n * 1000) else None)
          else if arg_eq_ci u ''PX'' then (if now + n \<le> INT64_MAX then Some (now + n) else None)
          else None)"
| "set_deadline now _ = None"

lemma cmd_set_deadline:
  assumes "set_deadline (ce_clk env 0) opts = Some x" and "0 \<le> ce_clk env 0"
  shows "cmd_set env ([c, k, v] @ opts) st out =
    just_reply (resp_reply_simple_string ''OK'') (st\<lparr>cs_store := snd (store_set (cs_store st) k v x)\<rparr>) out"
  using assms
  by (cases "(ce_clk env 0, opts)" rule: set_deadline.cases)
    (auto simp: cmd_set_def Let_def i64_def int64_defs split: option.splits if_splits)

lemma handler_named:
  assumes "(n, h) \<in> set COMMAND_TABLE" and "arg_eq_ci c n"
  shows "cmd_dispatch env (c # args) st out = h env (c # args) st out"
  using dispatch_named [OF assms(1), of "c # args"] assms(2) by simp

text \<open>The rows of the table.\<close>

lemma table_rows:
  "(''SET'', cmd_set) \<in> set COMMAND_TABLE" "(''GET'', cmd_get) \<in> set COMMAND_TABLE"
  "(''DEL'', cmd_del) \<in> set COMMAND_TABLE" "(''EXISTS'', cmd_exists) \<in> set COMMAND_TABLE"
  "(''MGET'', cmd_mget) \<in> set COMMAND_TABLE" "(''MSET'', cmd_mset) \<in> set COMMAND_TABLE"
  "(''KEYS'', cmd_keys) \<in> set COMMAND_TABLE" "(''BGSAVE'', cmd_bgsave) \<in> set COMMAND_TABLE"
  by (simp_all add: COMMAND_TABLE_def)

lemma cmd_get_ok:
  assumes "store_inv (cs_store st)" and "gb_wf out"
  shows "\<exists>s' out'. cmd_get env [c, k] st out = Some (st\<lparr>cs_store := s'\<rparr>, out') \<and> store_inv s' \<and>
    store_abs s' = touch (ce_clk env 0) (store_abs (cs_store st)) k \<and> gb_wf out' \<and>
    gb_bytes out' = gb_bytes out @ enc_reply (lookup_reply (map_option fst (live (ce_clk env 0) (store_abs (cs_store st)) k)))"
proof -
  let ?r = "fst (store_get (ce_clk env 0) (cs_store st) k)"
  from appendsE [OF appends_bulk_string assms(2), of "the ?r"] obtain o1 where
    o1: "resp_reply_bulk_string (the ?r) out = Some o1" "gb_wf o1" "gb_bytes o1 = gb_bytes out @ enc_reply (Bulk (the ?r))" .
  from appendsE [OF appends_null_bulk assms(2)] obtain o2 where
    o2: "resp_reply_null_bulk out = Some o2" "gb_wf o2" "gb_bytes o2 = gb_bytes out @ enc_reply Null_Bulk" .
  from o1 o2 st.get_laws [OF assms(1), of "ce_clk env 0" k] show ?thesis
    by (cases "live (ce_clk env 0) (store_abs (cs_store st)) k")
      (auto simp: cmd_get_def just_reply_def lookup_reply_def split_beta)
qed

text \<open>
  A \<open>GET\<close> after a \<open>SET\<close>, both written in any case, replies with the value as long as the expiry time
  asked for with \<open>EX\<close> or \<open>PX\<close> is not reached, and with the null bulk from then on.
\<close>

theorem set_then_get:
  assumes "arg_eq_ci c ''SET''" and "arg_eq_ci c' ''GET''" and "cmd_inv st" and "gb_wf out" and "env_ok env"
    and "set_deadline (ce_clk env 0) opts = Some x"
  shows "\<exists>st1 out1 st2 out2. cmd_dispatch env ([c, k, v] @ opts) st out = Some (st1, out1) \<and>
    cmd_dispatch env' [c', k] st1 out1 = Some (st2, out2) \<and>
    gb_bytes out2 = gb_bytes out @ enc_reply (Simple ''OK'') @
      enc_reply (if expired (ce_clk env' 0) x then Null_Bulk else Bulk v)"
proof -
  let ?st1 = "st\<lparr>cs_store := snd (store_set (cs_store st) k v x)\<rparr>"
  note s1 = st.set_laws [OF cmd_inv_store(1) [OF assms(3)], of k v x]
  from just_OK [OF assms(4), of ?st1] obtain out1 where
    o1: "just_reply (resp_reply_simple_string ''OK'') ?st1 out = Some (?st1, out1)" "gb_wf out1"
      "gb_bytes out1 = gb_bytes out @ enc_reply (Simple ''OK'')" by blast
  have "cmd_dispatch env ([c, k, v] @ opts) st out = Some (?st1, out1)"
    using handler_named [OF table_rows(1) assms(1)] cmd_set_deadline [OF assms(6)] env_clk(1) [OF assms(5), of 0] o1(1) by simp
  moreover from cmd_get_ok [of ?st1 out1 env' c' k] s1 o1(2) obtain s2 out2 where
    "cmd_get env' [c', k] ?st1 out1 = Some (?st1\<lparr>cs_store := s2\<rparr>, out2)"
    "gb_bytes out2 = gb_bytes out1 @ enc_reply (if expired (ce_clk env' 0) x then Null_Bulk else Bulk v)"
    by (auto simp: lookup_reply_def)
  ultimately show ?thesis
    using handler_named [OF table_rows(2) assms(2), of env' "[k]" ?st1 out1] o1(3) by auto
qed

theorem set_then_get_witness:
  "\<exists>st1 out1 st2 out2. cmd_dispatch demo_env [''Set'', ''k'', ''v'', ''ex'', ''2''] demo_state resp_buf_init = Some (st1, out1) \<and>
    cmd_dispatch (demo_env\<lparr>ce_clk := (\<lambda>_. 6999)\<rparr>) [''gEt'', ''k''] st1 out1 = Some (st2, out2) \<and>
    gb_bytes out2 = enc_reply (Simple ''OK'') @ enc_reply (Bulk ''v'')"
proof -
  have p: "cmd_parse_strict_ll ''2'' = Some 2" "arg_eq_ci ''Set'' ''SET''" "arg_eq_ci ''gEt'' ''GET''" "arg_eq_ci ''ex'' ''EX''"
    by code_simp+
  then have "set_deadline (ce_clk demo_env 0) [''ex'', ''2''] = Some 7000" by (simp add: demo_env_def INT64_MAX_def)
  from set_then_get [OF p(2,3) demo_state_inv gb_wf_init demo_env_ok this, of "''k''" "''v''" "demo_env\<lparr>ce_clk := (\<lambda>_. 6999)\<rparr>"]
  show ?thesis by (simp add: expired_def)
qed

text \<open>
  \<open>DEL\<close> with any list of keys removes exactly those keys, leaves every other key as it is, and
  replies with the number of distinct keys among them that were stored.
\<close>

theorem del_removes_keys:
  assumes "arg_eq_ci c ''DEL''" and "cmd_inv st" and "gb_wf out" and "ks \<noteq> []" and "length ks < 2 ^ 62"
  shows "\<exists>st' out'. cmd_dispatch env (c # ks) st out = Some (st', out') \<and>
    store_abs (cs_store st') = store_abs (cs_store st) |` (- set ks) \<and>
    gb_bytes out' = gb_bytes out @ enc_reply (Integer (int (card (set ks \<inter> dom (store_abs (cs_store st))))))"
proof -
  have "2 \<le> length (c # ks)" "length (c # ks) < 2 ^ 63" using assms(4,5) by (cases ks; simp)+
  from cmd_del_ok [OF cmd_inv_store(1) [OF assms(2)] assms(3) this, where env = env] show ?thesis
    unfolding handler_named [OF table_rows(3) assms(1)] by fastforce
qed

theorem del_removes_keys_witness:
  "\<exists>st' out'. cmd_dispatch demo_env [''del'', ''b'', ''x'', ''b''] demo_state resp_buf_init = Some (st', out') \<and>
    store_abs (cs_store st') ''b'' = None \<and> store_abs (cs_store st') ''a'' = Some (''a'', 0) \<and>
    gb_bytes out' = enc_reply (Integer 1)"
proof -
  have c: "arg_eq_ci ''del'' ''DEL''" by code_simp
  have i: "set [''b'', ''x'', ''b''] \<inter> dom (store_abs (cs_store demo_state)) = {''b''}"
    by (auto simp: demo_state_def demo_store_abs split: if_splits)
  from del_removes_keys [OF c demo_state_inv gb_wf_init, of "[''b'', ''x'', ''b'']" demo_env]
  obtain st' out' where "cmd_dispatch demo_env [''del'', ''b'', ''x'', ''b''] demo_state resp_buf_init = Some (st', out')"
    "store_abs (cs_store st') = store_abs (cs_store demo_state) |` (- set [''b'', ''x'', ''b''])"
    "gb_bytes out' = enc_reply (Integer 1)" unfolding i by auto
  then show ?thesis by (auto simp: demo_state_def demo_store_abs restrict_map_def)
qed

text \<open>
  \<open>MSET\<close> stores every pair, the last one for a key given twice, and removes its expiry; an \<open>MGET\<close> after
  it replies with one element per key in the order asked, the value if the key is live when it is
  looked up and the null bulk otherwise.
\<close>

theorem mset_then_mget:
  assumes "arg_eq_ci c ''MSET''" and "arg_eq_ci c' ''MGET''" and "cmd_inv st" and "gb_wf out"
    and "kvs \<noteq> []" and "even (length kvs)" and "ks \<noteq> []" and "mono (ce_clk env')"
  shows "\<exists>st1 out1 st2 out2. cmd_dispatch env (c # kvs) st out = Some (st1, out1) \<and>
    cmd_dispatch env' (c' # ks) st1 out1 = Some (st2, out2) \<and>
    store_abs (cs_store st1) = store_abs (cs_store st) ++ map_of (rev (kv_pairs kvs)) \<and>
    gb_bytes out2 = gb_bytes out @ enc_reply (Simple ''OK'') @ enc_reply (Array (map (\<lambda>(i, k).
      lookup_reply (map_option fst (live (ce_clk env' i) (store_abs (cs_store st1)) k))) (enumerate 0 ks)))"
proof -
  have l: "3 \<le> length (c # kvs)" "odd (length (c # kvs))" "2 \<le> length (c' # ks)"
    using assms(5,6,7) by (cases kvs rule: kv_pairs.cases; cases ks; simp)+
  from cmd_mset_ok [OF cmd_inv_store(1) [OF assms(3)] assms(4) l(1,2), where env = env] obtain s1 out1 where
    s1: "cmd_mset env (c # kvs) st out = Some (st\<lparr>cs_store := s1\<rparr>, out1)" "store_inv s1"
      "store_abs s1 = store_abs (cs_store st) ++ map_of (rev (kv_pairs kvs))" "gb_wf out1"
      "gb_bytes out1 = gb_bytes out @ enc_reply (Simple ''OK'')" by auto
  from cmd_mget_ok [of "st\<lparr>cs_store := s1\<rparr>" out1 "c' # ks" env'] s1(2,4) l(3) obtain s2 out2 where
    "cmd_mget env' (c' # ks) (st\<lparr>cs_store := s1\<rparr>) out1 = Some (st\<lparr>cs_store := s2\<rparr>, out2)"
    "gb_bytes out2 = gb_bytes out1 @ enc_reply (Array (map lookup_reply (lookups (ce_clk env') 0 ks (store_abs s1))))"
    by auto
  with s1 show ?thesis
    unfolding handler_named [OF table_rows(6) assms(1)]
    by (intro exI [of _ "st\<lparr>cs_store := s1\<rparr>"] exI [of _ out1] exI [of _ "st\<lparr>cs_store := s2\<rparr>"] exI [of _ out2])
      (simp add: handler_named [OF table_rows(5) assms(2)] lookups_mono [OF assms(8)] o_def split_beta)
qed

theorem mset_then_mget_witness:
  "\<exists>st1 out1 st2 out2. cmd_dispatch demo_env [''mset'', ''k'', ''1'', ''k'', ''2''] demo_state resp_buf_init = Some (st1, out1) \<and>
    cmd_dispatch demo_env [''mget'', ''x'', ''k'', ''a''] st1 out1 = Some (st2, out2) \<and>
    gb_bytes out2 = enc_reply (Simple ''OK'') @ enc_reply (Array [Null_Bulk, Bulk ''2'', Bulk ''a''])"
proof -
  have c: "arg_eq_ci ''mset'' ''MSET''" "arg_eq_ci ''mget'' ''MGET''" by code_simp+
  have m: "mono (ce_clk demo_env)" by (simp add: demo_env_def mono_def)
  from mset_then_mget [OF c demo_state_inv gb_wf_init _ _ _ m, of "[''k'', ''1'', ''k'', ''2'']" "[''x'', ''k'', ''a'']" demo_env]
  obtain st1 out1 st2 out2 where
    r: "cmd_dispatch demo_env [''mset'', ''k'', ''1'', ''k'', ''2''] demo_state resp_buf_init = Some (st1, out1)"
      "cmd_dispatch demo_env [''mget'', ''x'', ''k'', ''a''] st1 out1 = Some (st2, out2)"
      "store_abs (cs_store st1) = store_abs demo_store ++ map_of [(''k'', ''2'', 0), (''k'', ''1'', 0)]"
      "gb_bytes out2 = enc_reply (Simple ''OK'') @ enc_reply (Array (map (\<lambda>(i, k).
        lookup_reply (map_option fst (live 5000 (store_abs (cs_store st1)) k))) (enumerate 0 [''x'', ''k'', ''a''])))"
    by (auto simp: demo_state_def demo_env_def simp del: enc_reply.simps enumerate_simps)
  have "map (\<lambda>(i, k). lookup_reply (map_option fst (live 5000 (store_abs (cs_store st1)) k))) (enumerate 0 [''x'', ''k'', ''a'']) =
      [Null_Bulk, Bulk ''2'', Bulk ''a'']"
    unfolding r(3) by (simp add: demo_store_abs map_add_def live_def expired_def lookup_reply_def)
  with r show ?thesis by (auto simp del: enc_reply.simps)
qed

text \<open>
  \<open>EXISTS\<close> counts the live keys among its arguments, each as often as it is given, and \<open>KEYS *\<close>
  replies with every live key once and no other, also while the table is being rehashed, and changes
  nothing.
\<close>

theorem exists_and_keys:
  assumes "arg_eq_ci c ''EXISTS''" and "arg_eq_ci c' ''KEYS''" and "cmd_inv st" and "gb_wf out"
    and "ks \<noteq> []" and "length ks < 2 ^ 62" and "mono (ce_clk env)"
  shows "\<exists>st1 out1 out2 found. cmd_dispatch env (c # ks) st out = Some (st1, out1) \<and>
    gb_bytes out1 = gb_bytes out @ enc_reply (Integer (int (length
      (filter (\<lambda>(i, k). k \<in> dom (live (ce_clk env i) (store_abs (cs_store st)))) (enumerate 0 ks))))) \<and>
    cmd_dispatch env' [c', ''*''] st out = Some (st, out2) \<and> distinct found \<and>
    set found = dom (live (ce_clk env' 0) (store_abs (cs_store st))) \<and>
    gb_bytes out2 = gb_bytes out @ enc_reply (Array (map Bulk found))"
proof -
  let ?m = "store_abs (cs_store st)" and ?es = "live_entries (ce_clk env' 0) (cs_store st)"
  note inv = cmd_inv_store(1) [OF assms(3)]
  have l: "2 \<le> length (c # ks)" "length (c # ks) < 2 ^ 63" using assms(5,6) by (cases ks; simp)+
  have f: "length (filter (\<lambda>r. r \<noteq> None) (lookups (ce_clk env) 0 ks ?m)) =
      length (filter (\<lambda>(i, k). k \<in> dom (live (ce_clk env i) ?m)) (enumerate 0 ks))"
    by (simp add: lookups_mono [OF assms(7)] filter_map o_def case_prod_beta' dom_def)
  from cmd_exists_ok [OF inv assms(4) l, where env = env] obtain s1 out1 where
    e: "cmd_exists env (c # ks) st out = Some (st\<lparr>cs_store := s1\<rparr>, out1)"
      "gb_bytes out1 = gb_bytes out @ enc_reply (Integer (int (length
        (filter (\<lambda>(i, k). k \<in> dom (live (ce_clk env i) ?m)) (enumerate 0 ks)))))"
    unfolding f [symmetric] by auto
  from cmd_keys_ok [OF inv assms(4), of "[c', ''*'']" env'] obtain out2 where
    k: "cmd_keys env' [c', ''*''] st out = Some (st, out2)"
      "gb_bytes out2 = gb_bytes out @ enc_reply (Array (map Bulk (map e_key ?es)))" by (auto simp: o_def)
  have "set (map e_key ?es) = dom (live (ce_clk env' 0) ?m)"
    unfolding live_entries_map [OF inv, symmetric] by (simp add: entries_map_def dom_map_of_conv_image_fst image_image)
  with e k live_entries_distinct [OF inv, of "ce_clk env' 0"] show ?thesis
    unfolding handler_named [OF table_rows(4) assms(1)] handler_named [OF table_rows(7) assms(2)] by blast
qed

theorem exists_and_keys_witness:
  "\<exists>st1 out1 out2 found. cmd_dispatch demo_env [''EXISTS'', ''a'', ''x'', ''a''] demo_state resp_buf_init = Some (st1, out1) \<and>
    gb_bytes out1 = enc_reply (Integer 2) \<and>
    cmd_dispatch demo_env [''keys'', ''*''] demo_state resp_buf_init = Some (demo_state, out2) \<and> distinct found \<and>
    set found = {''a'', ''b'', ''c'', ''d''} \<and> gb_bytes out2 = enc_reply (Array (map Bulk found))"
proof -
  have c: "arg_eq_ci ''EXISTS'' ''EXISTS''" "arg_eq_ci ''keys'' ''KEYS''" by code_simp+
  have m: "mono (ce_clk demo_env)" by (simp add: demo_env_def mono_def)
  have d: "dom (live 5000 (store_abs demo_store)) = {''a'', ''b'', ''c'', ''d''}"
    by (auto simp: demo_store_abs expired_def)
  have "(case x of (i, k) \<Rightarrow> k \<in> dom (live (ce_clk demo_env i) (store_abs (cs_store demo_state)))) \<longleftrightarrow>
      snd x \<in> {''a'', ''b'', ''c'', ''d''}" for x
    unfolding d [symmetric] by (simp add: demo_env_def demo_state_def split_beta)
  then have f: "length (filter (\<lambda>(i, k). k \<in> dom (live (ce_clk demo_env i) (store_abs (cs_store demo_state))))
      (enumerate 0 [''a'', ''x'', ''a''])) = 2"
    by simp
  from exists_and_keys [OF c demo_state_inv gb_wf_init _ _ m, of "[''a'', ''x'', ''a'']" demo_env]
  show ?thesis
    unfolding f by (simp add: d demo_env_def demo_state_def del: enc_reply.simps)
qed



end
