(* ===== verification/Cmd_Spec.thy ===== *)
theory Cmd_Spec
  imports Cmd
begin

text \<open>
  What the commands mean, without tables, buffers or bytes: a request is decoded to a command, and a
  command is a step on a finite map with expiry times, the save path and the time of the last
  save, with one reply. The handlers of \<open>src/cmd.c\<close> are shown to implement it.
\<close>

section \<open>Commands\<close>

datatype expiry = No_Expiry | In_Sec int | In_Ms int

datatype command =
    Ping "bytes option"
  | Echo bytes
  | Set_Key bytes bytes expiry
  | Get_Key bytes
  | Mget "bytes list"
  | Mset "bytes list"
  | Del "bytes list"
  | Exists_Keys "bytes list"
  | Keys
  | Expire bytes int
  | Ttl bytes
  | Pttl bytes
  | Incr bytes int
  | Dbsize
  | Flushdb
  | Save
  | Bgsave
  | Lastsave
  | Bad bytes

definition not_integer :: bytes where "not_integer = ''ERR value is not an integer or out of range''"
definition would_overflow :: bytes where "would_overflow = ''ERR increment or decrement would overflow''"
definition bad_expire :: bytes where "bad_expire = ''ERR invalid expire time in 'set' command''"
definition no_path :: bytes where "no_path = ''ERR no save path configured (start server with --save <file>)''"

definition wrong_arity :: "bytes \<Rightarrow> bytes" where
  "wrong_arity name = ''ERR wrong number of arguments for '' @ [CHR 0x27] @ safe_token 32 name @ [CHR 0x27] @ '' command''"

definition unknown_command :: "bytes \<Rightarrow> bytes" where
  "unknown_command name = ''ERR unknown command '' @ [CHR 0x27] @ safe_token 32 name @ [CHR 0x27]"

lemmas error_texts = not_integer_def would_overflow_def bad_expire_def no_path_def

section \<open>The syntax of the commands\<close>

text \<open>The arguments after the name; \<open>None\<close> is a wrong number of them.\<close>

definition int_arg :: "bytes \<Rightarrow> bytes \<Rightarrow> (int \<Rightarrow> command) \<Rightarrow> command" where
  "int_arg a msg f = (case parse_strict_ll a of None \<Rightarrow> Bad msg | Some n \<Rightarrow> f n)"

fun syn_none :: "command \<Rightarrow> bytes list \<Rightarrow> command option" where
  "syn_none c [] = Some c"
| "syn_none c _ = None"

fun syn_one :: "(bytes \<Rightarrow> command) \<Rightarrow> bytes list \<Rightarrow> command option" where
  "syn_one f [k] = Some (f k)"
| "syn_one f _ = None"

fun syn_int :: "(bytes \<Rightarrow> int \<Rightarrow> command) \<Rightarrow> bytes list \<Rightarrow> command option" where
  "syn_int f [k, n] = Some (int_arg n not_integer (f k))"
| "syn_int f _ = None"

fun syn_some :: "(bytes list \<Rightarrow> command) \<Rightarrow> bytes list \<Rightarrow> command option" where
  "syn_some f [] = None"
| "syn_some f ks = Some (f ks)"

fun syn_ping :: "bytes list \<Rightarrow> command option" where
  "syn_ping [] = Some (Ping None)"
| "syn_ping [m] = Some (Ping (Some m))"
| "syn_ping _ = None"

definition syn_expiry :: "bytes \<Rightarrow> bytes \<Rightarrow> bytes \<Rightarrow> bytes \<Rightarrow> command" where
  "syn_expiry k v u n =
     (if map tolower u = ''ex'' then int_arg n bad_expire (\<lambda>n. if n \<le> 0 then Bad bad_expire else Set_Key k v (In_Sec n))
      else if map tolower u = ''px'' then int_arg n bad_expire (\<lambda>n. if n \<le> 0 then Bad bad_expire else Set_Key k v (In_Ms n))
      else Bad ''ERR syntax error'')"

fun syn_set :: "bytes list \<Rightarrow> command option" where
  "syn_set [k, v] = Some (Set_Key k v No_Expiry)"
| "syn_set [k, v, u, n] = Some (syn_expiry k v u n)"
| "syn_set _ = None"

definition syn_mset :: "bytes list \<Rightarrow> command option" where
  "syn_mset l = (if l \<noteq> [] \<and> even (length l) then Some (Mset l) else None)"

definition syn_keys :: "bytes \<Rightarrow> command" where
  "syn_keys p = (if p = ''*'' then Keys else Bad ''ERR only '*' pattern supported in KEYS'')"

definition decr_by :: "bytes \<Rightarrow> int \<Rightarrow> command" where
  "decr_by k n = (if n = INT64_MIN then Bad would_overflow else Incr k (- n))"

definition SYNTAX :: "(bytes \<times> (bytes list \<Rightarrow> command option)) list" where
  "SYNTAX =
     [(''PING'', syn_ping), (''ECHO'', syn_one Echo), (''SET'', syn_set), (''GET'', syn_one Get_Key),
      (''MGET'', syn_some Mget), (''MSET'', syn_mset), (''DEL'', syn_some Del), (''EXISTS'', syn_some Exists_Keys),
      (''KEYS'', syn_one syn_keys), (''EXPIRE'', syn_int Expire), (''TTL'', syn_one Ttl), (''PTTL'', syn_one Pttl),
      (''INCR'', syn_one (\<lambda>k. Incr k 1)), (''DECR'', syn_one (\<lambda>k. Incr k (- 1))), (''INCRBY'', syn_int Incr), (''DECRBY'', syn_int decr_by),
      (''DBSIZE'', syn_none Dbsize), (''FLUSHDB'', syn_none Flushdb), (''SAVE'', syn_none Save), (''BGSAVE'', syn_none Bgsave),
      (''LASTSAVE'', syn_none Lastsave)]"

definition named :: "bytes \<Rightarrow> bytes list \<Rightarrow> (bytes list \<Rightarrow> command option) \<Rightarrow> command" where
  "named name args f = (case f args of None \<Rightarrow> Bad (wrong_arity name) | Some c \<Rightarrow> c)"

fun decode :: "bytes list \<Rightarrow> command" where
  "decode [] = Bad []"
| "decode (name # args) =
     (case map_of (map (\<lambda>(n, f). (map tolower n, f)) SYNTAX) (map tolower name) of
        None \<Rightarrow> Bad (unknown_command name)
      | Some f \<Rightarrow> named name args f)"

section \<open>Their meaning\<close>

record spec_state =
  sp_data :: kv
  sp_path :: bytes
  sp_last :: int

fun deadline :: "int \<Rightarrow> expiry \<Rightarrow> int" where
  "deadline now No_Expiry = 0"
| "deadline now (In_Sec n) = now + n * 1000"
| "deadline now (In_Ms n) = now + n"

text \<open>The time to live at \<open>now'\<close> of a key looked up at \<open>now\<close>, in milliseconds; seconds are rounded up.\<close>

fun ttl_value :: "(int \<Rightarrow> int) \<Rightarrow> int \<Rightarrow> (bytes \<times> int) option \<Rightarrow> int" where
  "ttl_value f now' None = - 2"
| "ttl_value f now' (Some (v, x)) = (if x = 0 then - 1 else f (max 0 (x - now')))"

definition seconds_up :: "int \<Rightarrow> int" where "seconds_up ms = (ms + 999) div 1000"

fun incr_reply :: "store_incr_status \<Rightarrow> int \<Rightarrow> reply" where
  "incr_reply STORE_INCR_OK v = Integer v"
| "incr_reply STORE_INCR_NOT_INTEGER v = Err not_integer"
| "incr_reply STORE_INCR_OVERFLOW v = Err would_overflow"

text \<open>
  One step. The readings of the clock are those of the command's environment. Three commands have
  more than one outcome: the order in which \<open>KEYS\<close> lists, and whether a save succeeds.
\<close>

inductive spec_step :: "cmd_env \<Rightarrow> command \<Rightarrow> spec_state \<Rightarrow> spec_state \<Rightarrow> reply \<Rightarrow> bool" for env where
  ping: "spec_step env (Ping None) s s (Simple ''PONG'')"
| ping_arg: "spec_step env (Ping (Some m)) s s (Bulk m)"
| echo: "spec_step env (Echo m) s s (Bulk m)"
| set: "spec_step env (Set_Key k v x) s (s\<lparr>sp_data := (sp_data s)(k \<mapsto> (v, deadline (ce_clk env 0) x))\<rparr>) (Simple ''OK'')"
| get: "spec_step env (Get_Key k) s (s\<lparr>sp_data := touch (ce_clk env 0) (sp_data s) k\<rparr>)
    (lookup_reply (map_option fst (live (ce_clk env 0) (sp_data s) k)))"
| mget: "spec_step env (Mget ks) s (s\<lparr>sp_data := touches (ce_clk env) 0 ks (sp_data s)\<rparr>)
    (Array (map lookup_reply (lookups (ce_clk env) 0 ks (sp_data s))))"
| mset: "spec_step env (Mset l) s (s\<lparr>sp_data := sp_data s ++ map_of (rev (kv_pairs l))\<rparr>) (Simple ''OK'')"
| del: "spec_step env (Del ks) s (s\<lparr>sp_data := sp_data s |` (- set ks)\<rparr>) (Integer (int (card (set ks \<inter> dom (sp_data s)))))"
| exists: "spec_step env (Exists_Keys ks) s (s\<lparr>sp_data := touches (ce_clk env) 0 ks (sp_data s)\<rparr>)
    (Integer (int (length (filter (\<lambda>r. r \<noteq> None) (lookups (ce_clk env) 0 ks (sp_data s))))))"
| keys: "distinct ks \<Longrightarrow> set ks = dom (live (ce_clk env 0) (sp_data s)) \<Longrightarrow> spec_step env Keys s s (Array (map Bulk ks))"
| expire: "spec_step env (Expire k n) s
    (s\<lparr>sp_data := (case live (ce_clk env 1) (sp_data s) k of
        None \<Rightarrow> touch (ce_clk env 1) (sp_data s) k
      | Some (v, _) \<Rightarrow> (sp_data s)(k \<mapsto> (v, ce_clk env 0 + n * 1000)))\<rparr>)
    (Integer (if k \<in> dom (live (ce_clk env 1) (sp_data s)) then 1 else 0))"
| ttl: "spec_step env (Ttl k) s (s\<lparr>sp_data := touch (ce_clk env 0) (sp_data s) k\<rparr>)
    (Integer (ttl_value seconds_up (ce_clk env 1) (live (ce_clk env 0) (sp_data s) k)))"
| pttl: "spec_step env (Pttl k) s (s\<lparr>sp_data := touch (ce_clk env 0) (sp_data s) k\<rparr>)
    (Integer (ttl_value id (ce_clk env 1) (live (ce_clk env 0) (sp_data s) k)))"
| incr: "incr_spec (ce_clk env 0) (sp_data s) k d = (status, v, m) \<Longrightarrow>
    spec_step env (Incr k d) s (s\<lparr>sp_data := m\<rparr>) (incr_reply status v)"
| dbsize: "spec_step env Dbsize s s (Integer (sint (of_nat (card (dom (sp_data s))) :: u64)))"
| flushdb: "spec_step env Flushdb s (s\<lparr>sp_data := Map.empty\<rparr>) (Simple ''OK'')"
| save_no_path: "sp_path s = [] \<Longrightarrow> spec_step env Save s s (Err no_path)"
| save: "sp_path s \<noteq> [] \<Longrightarrow> spec_step env Save s (s\<lparr>sp_last := ce_clk env 1 div 1000\<rparr>) (Simple ''OK'')"
| save_failed: "sp_path s \<noteq> [] \<Longrightarrow> e \<noteq> PERSIST_OK \<Longrightarrow> spec_step env Save s s (Err (''ERR save failed: '' @ persist_strerror e))"
| bgsave_no_path: "sp_path s = [] \<Longrightarrow> spec_step env Bgsave s s (Err no_path)"
| bgsave: "sp_path s \<noteq> [] \<Longrightarrow> ce_fork env \<Longrightarrow>
    spec_step env Bgsave s (s\<lparr>sp_last := ce_clk env 0 div 1000\<rparr>) (Simple ''Background saving started'')"
| bgsave_failed: "sp_path s \<noteq> [] \<Longrightarrow> \<not> ce_fork env \<Longrightarrow> spec_step env Bgsave s s (Err ''ERR fork failed'')"
| lastsave: "spec_step env Lastsave s s (Integer (sp_last s))"
| bad: "spec_step env (Bad msg) s s (Err msg)"

section \<open>The handlers implement it\<close>

definition spec_of :: "cmd_state \<Rightarrow> spec_state" where
  "spec_of st = \<lparr>sp_data = store_abs (cs_store st), sp_path = g_save_path st, sp_last = g_lastsave_time st\<rparr>"

lemma spec_of_simps [simp]:
  "sp_data (spec_of st) = store_abs (cs_store st)" "sp_path (spec_of st) = g_save_path st" "sp_last (spec_of st) = g_lastsave_time st"
  "spec_of (st\<lparr>cs_fs := fs\<rparr>) = spec_of st" "spec_of (st\<lparr>cs_children := ch\<rparr>) = spec_of st"
  by (simp_all add: spec_of_def)

lemma spec_of_store: "spec_of (st\<lparr>cs_store := s'\<rparr>) = (spec_of st)\<lparr>sp_data := store_abs s'\<rparr>"
  by (simp add: spec_of_def)

lemma spec_of_last: "spec_of (st\<lparr>g_lastsave_time := t\<rparr>) = (spec_of st)\<lparr>sp_last := t\<rparr>"
  by (simp add: spec_of_def)

definition realises :: "cmd_env \<Rightarrow> command \<Rightarrow> cmd_state \<Rightarrow> gbuf \<Rightarrow> (cmd_state \<times> gbuf) option \<Rightarrow> bool" where
  "realises env c st out res \<longleftrightarrow> (\<exists>st' out' r. res = Some (st', out') \<and> cmd_inv st' \<and> gb_wf out' \<and> reply_safe r \<and>
     gb_bytes out' = gb_bytes out @ enc_reply r \<and> spec_step env c (spec_of st) (spec_of st') r)"

lemma realises_just:
  assumes "appends f (enc_reply r)" and "reply_safe r" and "cmd_inv st'" and "gb_wf out" and "spec_step env c (spec_of st) (spec_of st') r"
  shows "realises env c st out (just_reply f st' out)"
proof -
  from appendsE [OF assms(1,4)] obtain out' where
    "f out = Some out'" "gb_wf out'" "gb_bytes out' = gb_bytes out @ enc_reply r" .
  with assms(2,3,5) show ?thesis by (auto simp: realises_def just_reply_def)
qed

definition plain :: "bytes \<Rightarrow> bool" where
  "plain s \<longleftrightarrow> NUL \<notin> set s \<and> CR \<notin> set s \<and> LF \<notin> set s"

lemma realises_replies:
  assumes "cmd_inv st'" and "gb_wf out"
  shows "plain m \<Longrightarrow> spec_step env c (spec_of st) (spec_of st') (Err m) \<Longrightarrow> realises env c st out (just_reply (resp_reply_error m) st' out)"
    and "plain m \<Longrightarrow> spec_step env c (spec_of st) (spec_of st') (Simple m) \<Longrightarrow> realises env c st out (just_reply (resp_reply_simple_string m) st' out)"
    and "int64_ok v \<Longrightarrow> spec_step env c (spec_of st) (spec_of st') (Integer v) \<Longrightarrow> realises env c st out (just_reply (resp_reply_integer v) st' out)"
    and "spec_step env c (spec_of st) (spec_of st') (Bulk m) \<Longrightarrow> realises env c st out (just_reply (resp_reply_bulk_string m) st' out)"
    and "spec_step env c (spec_of st) (spec_of st') Null_Bulk \<Longrightarrow> realises env c st out (just_reply resp_reply_null_bulk st' out)"
proof -
  show "realises env c st out (just_reply (resp_reply_error m) st' out)"
    if "plain m" "spec_step env c (spec_of st) (spec_of st') (Err m)"
    by (rule realises_just [OF _ _ assms that(2)]) (use that(1) appends_error [of m] in \<open>simp_all add: plain_def cstr_id\<close>)
  show "realises env c st out (just_reply (resp_reply_simple_string m) st' out)"
    if "plain m" "spec_step env c (spec_of st) (spec_of st') (Simple m)"
    by (rule realises_just [OF _ _ assms that(2)]) (use that(1) appends_simple_string [of m] in \<open>simp_all add: plain_def cstr_id\<close>)
  show "realises env c st out (just_reply (resp_reply_integer v) st' out)"
    if "int64_ok v" "spec_step env c (spec_of st) (spec_of st') (Integer v)"
    by (rule realises_just [OF appends_integer [OF that(1)] _ assms that(2)]) simp
  show "realises env c st out (just_reply (resp_reply_bulk_string m) st' out)" if "spec_step env c (spec_of st) (spec_of st') (Bulk m)"
    by (rule realises_just [OF appends_bulk_string _ assms that]) simp
  show "realises env c st out (just_reply resp_reply_null_bulk st' out)" if "spec_step env c (spec_of st) (spec_of st') Null_Bulk"
    by (rule realises_just [OF appends_null_bulk _ assms that]) simp
qed

lemma realises_bad:
  assumes "cmd_inv st" and "gb_wf out" and "plain m"
  shows "realises env (Bad m) st out (just_reply (resp_reply_error m) st out)"
  by (rule realises_replies(1) [OF assms spec_step.bad])

lemma plain_texts:
  "plain not_integer" "plain would_overflow" "plain bad_expire" "plain no_path" "plain (wrong_arity n)" "plain (unknown_command n)"
  "plain ''ERR syntax error''" "plain ''ERR only '*' pattern supported in KEYS''" "plain ''OK''" "plain ''PONG''"
  "plain ''ERR fork failed''" "plain ''Background saving started''"
  using safe_token_no_control [of 32 n] by (simp_all add: plain_def error_texts wrong_arity_def unknown_command_def)

lemma realises_arity:
  assumes "argv \<noteq> []" and "cmd_inv st" and "gb_wf out"
  shows "realises env (Bad (wrong_arity (argv ! 0))) st out (just_reply (reply_wrong_arity argv) st out)"
proof -
  have "snprintf 80 (wrong_arity (argv ! 0)) = wrong_arity (argv ! 0)"
    using safe_token_length [of 32 "argv ! 0"] by (intro snprintf_id) (simp add: wrong_arity_def)
  then have "just_reply (reply_wrong_arity argv) st out = just_reply (resp_reply_error (wrong_arity (argv ! 0))) st out"
    using assms(1) by (simp add: reply_wrong_arity_def just_reply_def Let_def wrong_arity_def)
  then show ?thesis using realises_bad [OF assms(2,3) plain_texts(5)] by simp
qed

lemmas realises_arity_Cons = realises_arity [of "name # args" for name args, simplified]

lemmas realises_intros = realises_arity_Cons realises_replies realises_bad plain_texts spec_step.ping spec_step.ping_arg spec_step.echo
  spec_step.flushdb spec_step.lastsave spec_step.dbsize spec_step.save_no_path spec_step.bgsave_no_path spec_step.bgsave_failed

lemma ping_realises:
  assumes "cmd_inv st" and "gb_wf out"
  shows "realises env (named name args syn_ping) st out (cmd_ping env (name # args) st out)"
  using assms by (cases args rule: syn_ping.cases) (auto simp: cmd_ping_def named_def intro!: realises_intros)

lemma echo_realises:
  assumes "cmd_inv st" and "gb_wf out"
  shows "realises env (named name args (syn_one Echo)) st out (cmd_echo env (name # args) st out)"
  using assms by (cases "(Echo, args)" rule: syn_one.cases) (auto simp: cmd_echo_def named_def intro!: realises_intros)

lemma get_realises:
  assumes "cmd_inv st" and "gb_wf out"
  shows "realises env (named name args (syn_one Get_Key)) st out (cmd_get env (name # args) st out)"
proof (cases "\<exists>k. args = [k]")
  case True
  then obtain k where k: "args = [k]" ..
  let ?t = "ce_clk env 0" and ?s = "cs_store st"
  have inv: "cmd_inv (st\<lparr>cs_store := snd (store_get ?t ?s k)\<rparr>)" by (rule cmd_inv_call [OF assms(1) store_call.get])
  note laws = st.get_laws [OF cmd_inv_store(1) [OF assms(1)], of ?t k]
  have "spec_step env (Get_Key k) (spec_of st) (spec_of (st\<lparr>cs_store := snd (store_get ?t ?s k)\<rparr>))
      (lookup_reply (fst (store_get ?t ?s k)))"
    unfolding spec_of_store laws using spec_step.get [of env k "spec_of st"] by simp
  then show ?thesis using realises_replies(4,5) [OF inv assms(2)] k
    by (cases "fst (store_get ?t ?s k)") (auto simp: cmd_get_def named_def split_beta lookup_reply_def)
next
  case False
  then have "syn_one Get_Key args = None" "length args \<noteq> 1" by (cases "(Get_Key, args)" rule: syn_one.cases; auto)+
  then show ?thesis using assms by (simp add: cmd_get_def named_def realises_arity_Cons)
qed

lemma no_arg_realises:
  assumes "cmd_inv st" and "gb_wf out" and "env_ok env"
  shows "realises env (named name args (syn_none Flushdb)) st out (cmd_flushdb env (name # args) st out)"
    "realises env (named name args (syn_none Dbsize)) st out (cmd_dbsize env (name # args) st out)"
    "realises env (named name args (syn_none Lastsave)) st out (cmd_lastsave env (name # args) st out)"
    "realises env (named name args (syn_none Bgsave)) st out (cmd_bgsave env (name # args) st out)"
proof -
  note inv = cmd_inv_store(1) [OF assms(1)]
  have fl: "cmd_inv (st\<lparr>cs_store := snd (store_flush (cs_store st))\<rparr>)" by (rule cmd_inv_call [OF assms(1) store_call.flush])
  have "spec_step env Flushdb (spec_of st) (spec_of (st\<lparr>cs_store := snd (store_flush (cs_store st))\<rparr>)) (Simple ''OK'')"
    unfolding spec_of_store store_flush_ok [OF inv] snd_conv store_create_abs by (rule spec_step.flushdb)
  from realises_replies(2) [OF fl assms(2) plain_texts(9) this]
  show "realises env (named name args (syn_none Flushdb)) st out (cmd_flushdb env (name # args) st out)"
    using assms by (cases args) (auto simp: cmd_flushdb_def named_def intro: realises_arity_Cons)
  from realises_replies(3) [OF assms(1,2) int64_ok_sint spec_step.dbsize [of env "spec_of st"]] 
  show "realises env (named name args (syn_none Dbsize)) st out (cmd_dbsize env (name # args) st out)"
    using assms by (cases args) (auto simp: cmd_dbsize_def named_def store_size_card [OF inv] intro: realises_arity_Cons)
  have "int64_ok (g_lastsave_time st)" using assms(1) by (simp add: cmd_inv_def)
  from realises_replies(3) [OF assms(1,2) this] spec_step.lastsave [of env "spec_of st"]
  show "realises env (named name args (syn_none Lastsave)) st out (cmd_lastsave env (name # args) st out)"
    using assms by (cases args) (auto simp: cmd_lastsave_def named_def intro: realises_arity_Cons)
  let ?st = "st\<lparr>cs_children := cs_children st @ [(cs_store st, g_save_path st)], g_lastsave_time := ce_clk env 0 div 1000\<rparr>"
  have bg: "cmd_inv ?st" using assms(1) env_clk(3) [OF assms(3), of 0] by (simp add: cmd_inv_def)
  have "spec_step env Bgsave (spec_of st) (spec_of ?st) (Simple ''Background saving started'')" if "g_save_path st \<noteq> []" "ce_fork env"
    using spec_step.bgsave [of "spec_of st" env] that by (simp add: spec_of_last)
  with realises_replies(2) [OF bg assms(2) plain_texts(12)]
  show "realises env (named name args (syn_none Bgsave)) st out (cmd_bgsave env (name # args) st out)"
    using assms by (cases args) (auto simp: cmd_bgsave_def named_def no_path_def [symmetric] intro!: realises_intros)
qed

lemma set_realises:
  assumes "cmd_inv st" and "gb_wf out" and "env_ok env" and "arg_eq_ci name ''SET''" and "\<not> ttl_overflow env (name # args)"
  shows "realises env (named name args syn_set) st out (cmd_set env (name # args) st out)"
proof -
  have step: "realises env (Set_Key k v x) st out (just_reply (resp_reply_simple_string ''OK'')
      (st\<lparr>cs_store := snd (store_set (cs_store st) k v (deadline (ce_clk env 0) x))\<rparr>) out)"
    if "int64_ok (deadline (ce_clk env 0) x)" for k v x
  proof (rule realises_replies(2) [OF cmd_inv_call [OF assms(1) store_call.set [OF that]] assms(2) plain_texts(9)])
    show "spec_step env (Set_Key k v x) (spec_of st)
        (spec_of (st\<lparr>cs_store := snd (store_set (cs_store st) k v (deadline (ce_clk env 0) x))\<rparr>)) (Simple ''OK'')"
      unfolding spec_of_store st.set_laws(2) [OF cmd_inv_store(1) [OF assms(1)]] using spec_step.set [of env k v x "spec_of st"] by simp
  qed
  have low: "map tolower ''EX'' = ''ex''" "map tolower ''PX'' = ''px''" by code_simp+
  have unit: "arg_eq_ci u ''EX'' \<longleftrightarrow> map tolower u = ''ex''" "arg_eq_ci u ''PX'' \<longleftrightarrow> map tolower u = ''px''" for u
    unfolding arg_eq_ci_iff low by simp_all
  have clk: "1000 \<le> ce_clk env 0" "ce_clk env 0 \<le> INT64_MAX" using assms(3) by (simp_all add: env_ok_def)
  have ex: "int64_ok (n * 1000)" "int64_ok (ce_clk env 0 + n * 1000)"
    if "args = [k, v, u, a]" "parse_strict_ll a = Some n" "0 < n" "map tolower u = ''ex''" for k v u a n
    using that assms(4,5) clk by (simp_all add: ttl_overflow_def int64_defs unit cmd_parse_strict_ll_eq)
  have px: "int64_ok (ce_clk env 0 + n)"
    if "args = [k, v, u, a]" "parse_strict_ll a = Some n" "0 < n" "map tolower u = ''px''" for k v u a n
    using that assms(4,5) clk by (simp_all add: ttl_overflow_def int64_defs unit cmd_parse_strict_ll_eq)
  show ?thesis
  proof (cases args rule: syn_set.cases)
    case (1 k v)
    then show ?thesis using step [of No_Expiry k v] by (simp add: cmd_set_def named_def int64_defs)
  next
    case (2 k v u a)
    show ?thesis
      using assms(1,2) 2 ex [OF 2] px [OF 2] step [of "In_Sec n" k v for n] step [of "In_Ms n" k v for n]
      by (auto simp: cmd_set_def named_def syn_expiry_def int_arg_def unit cmd_parse_strict_ll_eq Let_def
          bad_expire_def [symmetric] split: option.split intro!: realises_bad plain_texts)
  qed (use assms(1,2) in \<open>auto simp: cmd_set_def named_def intro!: realises_arity_Cons\<close>)
qed

lemma expire_realises:
  assumes "cmd_inv st" and "gb_wf out" and "arg_eq_ci name ''EXPIRE''" and "\<not> ttl_overflow env (name # args)"
  shows "realises env (named name args (syn_int Expire)) st out (cmd_expire env (name # args) st out)"
proof (cases "\<exists>k a. args = [k, a]")
  case True
  then obtain k a where k: "args = [k, a]" by blast
  show ?thesis
  proof (cases "parse_strict_ll a")
    case None
    then show ?thesis using assms(1,2) k
      by (simp add: cmd_expire_def named_def int_arg_def cmd_parse_strict_ll_eq not_integer_def [symmetric] realises_bad plain_texts)
  next
    case (Some n)
    let ?x = "ce_clk env 0 + n * 1000" and ?t = "ce_clk env 1"
    let ?r = "store_expire ?t (cs_store st) k ?x"
    have ok: "int64_ok (n * 1000)" "int64_ok ?x" using assms(3,4) k Some by (auto simp: ttl_overflow_def cmd_parse_strict_ll_eq)
    note e = store_expire_ok [OF cmd_inv_store(1) [OF assms(1)], of ?t k ?x]
    have inv: "cmd_inv (st\<lparr>cs_store := snd ?r\<rparr>)" by (rule cmd_inv_call [OF assms(1) store_call.expire [OF ok(2)]])
    have r: "(if fst ?r \<noteq> 0 then 1 else 0) = (if k \<in> dom (live ?t (store_abs (cs_store st))) then 1 else (0 :: int))" using e by simp
    have "spec_step env (Expire k n) (spec_of st) (spec_of (st\<lparr>cs_store := snd ?r\<rparr>)) (Integer (if fst ?r \<noteq> 0 then 1 else 0))"
      unfolding spec_of_store r e [THEN conjunct2, THEN conjunct1] by (rule spec_step.expire [of env k n "spec_of st", unfolded spec_of_simps])
    from realises_replies(3) [OF inv assms(2) _ this] show ?thesis using k Some ok
      by (simp add: cmd_expire_def named_def int_arg_def cmd_parse_strict_ll_eq split_beta int64_defs)
  qed
next
  case False
  then have "syn_int Expire args = None" "length args \<noteq> 2" by (cases "(Expire, args)" rule: syn_int.cases; auto)+
  then show ?thesis using assms by (simp add: cmd_expire_def named_def realises_arity_Cons)
qed

text \<open>\<open>TTL\<close> and \<open>PTTL\<close>: the value that is sent fits, since the clock is not before 1970.\<close>

lemma ttl_value_ok:
  assumes "live t0 m k = Some (v, x)" and "expires_ok m" and "1000 \<le> t0" and "1000 \<le> t1" and "int64_ok t1"
  shows "x \<noteq> 0 \<Longrightarrow> int64_ok (x - t1)" "int64_ok (max 0 (x - t1))" "int64_ok (max 0 (x - t1) + 999)" "int64_ok (seconds_up (max 0 (x - t1)))"
proof -
  have x: "int64_ok x" by (rule expires_ok_live [OF assms(2,1)])
  have "x = 0 \<or> t0 < x" using live_SomeD [OF assms(1)] by (auto simp: expired_def)
  with x assms(3-5) show "x \<noteq> 0 \<Longrightarrow> int64_ok (x - t1)" "int64_ok (max 0 (x - t1))" "int64_ok (max 0 (x - t1) + 999)"
      "int64_ok (seconds_up (max 0 (x - t1)))"
    by (auto simp: int64_defs seconds_up_def)
qed

lemma ttl_realises:
  assumes "cmd_inv st" and "gb_wf out" and "env_ok env"
  shows "realises env (named name args (syn_one (if want_ms then Pttl else Ttl))) st out (cmd_ttl_generic want_ms env (name # args) st out)"
proof (cases "\<exists>k. args = [k]")
  case True
  then obtain k where k: "args = [k]" ..
  let ?t0 = "ce_clk env 0" and ?t1 = "ce_clk env 1" and ?m = "store_abs (cs_store st)"
  let ?l = "live ?t0 ?m k" and ?c = "if want_ms then Pttl else Ttl" and ?f = "if want_ms then id else seconds_up"
  note clk = env_clk(1) [OF assms(3), of 0] env_clk(1,2) [OF assms(3), of 1]
  from store_ttl_ms_ok [OF cmd_inv_store(1) [OF assms(1)], where now = ?t0 and now' = ?t1 and k = k] obtain s' where
    s': "store_inv s'" "store_abs s' = touch ?t0 ?m k"
      "store_ttl_ms ?t0 ?t1 (cs_store st) k =
         (case ?l of
            None \<Rightarrow> Some (STORE_TTL_NO_KEY, s')
          | Some (_, x) \<Rightarrow> if x = 0 then Some (STORE_TTL_NO_EXPIRY, s') else do { r \<leftarrow> i64 (x - ?t1); Some (max 0 r, s') })"
    by blast
  have inv': "cmd_inv (st\<lparr>cs_store := s'\<rparr>)" using assms(1) s'(1,2) by (simp add: cmd_inv_def expires_ok_intros)
  have "spec_step env (?c k) (spec_of st) (spec_of (st\<lparr>cs_store := s'\<rparr>)) (Integer (ttl_value ?f ?t1 ?l))"
    unfolding spec_of_store s'(2)
    using spec_step.ttl [of env k "spec_of st"] spec_step.pttl [of env k "spec_of st"] by (simp add: id_def)
  note r = realises_replies(3) [OF inv' assms(2) _ this]
  have ok: "int64_ok (ttl_value ?f ?t1 ?l)"
    using ttl_value_ok [OF _ cmd_inv_store(2) [OF assms(1)] clk] by (cases ?l) (auto simp: int64_defs)
  have "cmd_ttl_generic want_ms env (name # args) st out =
      just_reply (resp_reply_integer (ttl_value ?f ?t1 ?l)) (st\<lparr>cs_store := s'\<rparr>) out"
  proof (cases ?l)
    case None
    then show ?thesis using k s'(3) by (simp add: cmd_ttl_generic_def)
  next
    case (Some vx)
    obtain v x where vx: "vx = (v, x)" by (cases vx)
    note l = Some [unfolded vx]
    have "max 0 (x - ?t1) \<noteq> STORE_TTL_NO_KEY" "max 0 (x - ?t1) \<noteq> STORE_TTL_NO_EXPIRY"
      by (simp_all add: STORE_TTL_NO_KEY_def STORE_TTL_NO_EXPIRY_def max_def)
    with k s'(3) l ttl_value_ok [OF l cmd_inv_store(2) [OF assms(1)] clk] show ?thesis
      by (cases "x = 0") (simp_all add: cmd_ttl_generic_def seconds_up_def STORE_TTL_NO_KEY_def STORE_TTL_NO_EXPIRY_def)
  qed
  with r [OF ok] k show ?thesis by (simp add: named_def)
next
  case False
  let ?c = "if want_ms then Pttl else Ttl"
  have "syn_one ?c args = None" "length args \<noteq> 1" using False by (cases "(?c, args)" rule: syn_one.cases; auto)+
  then show ?thesis using assms by (simp add: cmd_ttl_generic_def named_def realises_arity_Cons)
qed

lemma incr_realises:
  assumes "cmd_inv st" and "gb_wf out" and "int64_ok d"
  shows "realises env (Incr k d) st out (incr_and_reply d env (name # k # args) st out)"
proof -
  from store_incrby_ok [OF cmd_inv_store(1) [OF assms(1)] assms(3), of "ce_clk env 0" k]
  obtain status val s' where r: "store_incrby (ce_clk env 0) (cs_store st) k d = Some (status, val, s')"
    "(status, val, store_abs s') = incr_spec (ce_clk env 0) (store_abs (cs_store st)) k d" by metis
  have inv: "cmd_inv (st\<lparr>cs_store := s'\<rparr>)" by (rule cmd_inv_call [OF assms(1) store_call.incr [OF assms(3) r(1)]])
  have val: "int64_ok val" if "status = STORE_INCR_OK"
    using r(2) that by (auto simp: incr_spec_def split: option.splits if_splits)
  have "spec_step env (Incr k d) (spec_of st) (spec_of (st\<lparr>cs_store := s'\<rparr>)) (incr_reply status val)"
    unfolding spec_of_store using spec_step.incr [of env "spec_of st" k d status val "store_abs s'"] r(2) by simp
  with realises_replies(1,3) [OF inv assms(2)] r(1) val show ?thesis
    by (cases status) (auto simp: incr_and_reply_def not_integer_def [symmetric] would_overflow_def [symmetric] plain_texts)
qed

lemma counters_realise:
  assumes "cmd_inv st" and "gb_wf out"
  shows "realises env (named name args (syn_one (\<lambda>k. Incr k 1))) st out (cmd_incr env (name # args) st out)"
    "realises env (named name args (syn_one (\<lambda>k. Incr k (- 1)))) st out (cmd_decr env (name # args) st out)"
    "realises env (named name args (syn_int (if negate then decr_by else Incr))) st out (cmd_incrby_generic negate env (name # args) st out)"
proof -
  have i: "int64_ok 1" "int64_ok (- 1)" by (simp_all add: int64_defs)
  show "realises env (named name args (syn_one (\<lambda>k. Incr k 1))) st out (cmd_incr env (name # args) st out)"
    using assms i(1) by (cases "(\<lambda>k. Incr k 1, args)" rule: syn_one.cases)
      (auto simp: cmd_incr_def named_def intro!: realises_arity_Cons incr_realises)
  show "realises env (named name args (syn_one (\<lambda>k. Incr k (- 1)))) st out (cmd_decr env (name # args) st out)"
    using assms i(2) by (cases "(\<lambda>k. Incr k (- 1), args)" rule: syn_one.cases)
      (auto simp: cmd_decr_def named_def intro!: realises_arity_Cons incr_realises)
  have "int64_ok d \<and> (d \<noteq> INT64_MIN \<longrightarrow> int64_ok (- d))" if "parse_strict_ll a = Some d" for a d
    using parse_strict_ll_range [of a d] that by (auto simp: int64_defs)
  then show "realises env (named name args (syn_int (if negate then decr_by else Incr))) st out (cmd_incrby_generic negate env (name # args) st out)"
    using assms by (cases "(if negate then decr_by else Incr, args)" rule: syn_int.cases)
      (auto simp: cmd_incrby_generic_def named_def int_arg_def decr_by_def cmd_parse_strict_ll_eq not_integer_def [symmetric]
        would_overflow_def [symmetric] split: option.split intro!: realises_arity_Cons incr_realises realises_bad plain_texts)
qed

lemma save_realises:
  assumes "cmd_inv st" and "gb_wf out" and "env_ok env"
  shows "realises env (named name args (syn_none Save)) st out (cmd_save env (name # args) st out)"
proof -
  obtain status tr where r: "persist_save (ce_clk env 0) (ce_mem env) (ce_io env) (cs_store st) (g_save_path st) (cs_fs st) =
      Some (status, tr)"
    using persist_save_writes [OF cmd_inv_store(1) [OF assms(1)]] by (metis surj_pair)
  let ?st = "st\<lparr>cs_fs := last tr\<rparr>" and ?t = "ce_clk env 1 div 1000"
  have inv: "cmd_inv ?st" "cmd_inv (?st\<lparr>g_lastsave_time := ?t\<rparr>)"
    using assms(1) env_clk(3) [OF assms(3), of 1] by (simp_all add: cmd_inv_def)
  have ok: "realises env Save st out (just_reply (resp_reply_simple_string ''OK'') (?st\<lparr>g_lastsave_time := ?t\<rparr>) out)" if "g_save_path st \<noteq> []"
    using realises_replies(2) [OF inv(2) assms(2) plain_texts(9)] spec_step.save [of "spec_of st" env] that by (simp add: spec_of_last)
  have msg: "snprintf 128 (''ERR save failed: '' @ persist_strerror e) = ''ERR save failed: '' @ persist_strerror e"
    "plain (''ERR save failed: '' @ persist_strerror e)" for e by (cases e; simp add: snprintf_def plain_def)+
  have failed: "realises env Save st out (just_reply (resp_reply_error (''ERR save failed: '' @ persist_strerror e)) ?st out)"
    if "g_save_path st \<noteq> []" "e \<noteq> PERSIST_OK" for e
    using realises_replies(1) [OF inv(1) assms(2) msg(2)] spec_step.save_failed [of "spec_of st" e env] that by simp
  have "realises env Save st out (do_save env st out)"
  proof (cases "g_save_path st = []")
    case True
    then show ?thesis using assms(1,2) by (simp add: do_save_def no_path_def [symmetric] realises_intros)
  next
    case False
    then show ?thesis using r ok failed [of status] by (simp only: do_save_def msg Let_def) auto
  qed
  then show ?thesis using assms(1,2) by (cases args) (simp_all add: cmd_save_def named_def realises_arity_Cons)
qed

lemma realises_store:
  assumes "\<exists>s' out'. res = Some (st\<lparr>cs_store := s'\<rparr>, out') \<and> store_inv s' \<and> store_abs s' = m \<and> gb_wf out' \<and>
      gb_bytes out' = gb_bytes out @ enc_reply r"
    and "cmd_inv st" and "expires_ok m" and "reply_safe r" and "spec_step env c (spec_of st) ((spec_of st)\<lparr>sp_data := m\<rparr>) r"
  shows "realises env c st out res"
proof -
  from assms(1) obtain s' out' where s': "res = Some (st\<lparr>cs_store := s'\<rparr>, out')" "store_inv s'" "store_abs s' = m" "gb_wf out'"
      "gb_bytes out' = gb_bytes out @ enc_reply r" by blast
  have "cmd_inv (st\<lparr>cs_store := s'\<rparr>)" using assms(2,3) s'(2,3) by (simp add: cmd_inv_def)
  moreover have "spec_step env c (spec_of st) (spec_of (st\<lparr>cs_store := s'\<rparr>)) r" using assms(5) s'(3) by (simp add: spec_of_store)
  ultimately show ?thesis using s' assms(4) unfolding realises_def by blast
qed

lemma syn_some_ne: "args \<noteq> [] \<Longrightarrow> syn_some f args = Some (f args)"
  by (cases args) simp_all

lemma multi_key_realise:
  assumes "cmd_inv st" and "gb_wf out" and "length (name # args) < 2 ^ 63"
  shows "realises env (named name args (syn_some Del)) st out (cmd_del env (name # args) st out)"
    "realises env (named name args (syn_some Exists_Keys)) st out (cmd_exists env (name # args) st out)"
    "realises env (named name args (syn_some Mget)) st out (cmd_mget env (name # args) st out)"
    "realises env (named name args syn_mset) st out (cmd_mset env (name # args) st out)"
proof -
  note inv = cmd_inv_store [OF assms(1)]
  note arity = realises_arity_Cons [OF assms(1,2)]
  have len: "2 \<le> length (name # args)" if "args \<noteq> []" using that by (cases args) simp_all
  show "realises env (named name args (syn_some Del)) st out (cmd_del env (name # args) st out)"
  proof (cases "args = []")
    case False
    from realises_store [OF cmd_del_ok [OF inv(1) assms(2) len [OF False] assms(3)] assms(1) expires_ok_restrict [OF inv(2)], where c = "Del args" and env = env]
    show ?thesis using False spec_step.del [of env args "spec_of st"] by (simp add: named_def syn_some_ne)
  qed (use arity in \<open>simp add: cmd_del_def named_def\<close>)
  show "realises env (named name args (syn_some Exists_Keys)) st out (cmd_exists env (name # args) st out)"
  proof (cases "args = []")
    case False
    from realises_store [OF cmd_exists_ok [OF inv(1) assms(2) len [OF False] assms(3)] assms(1) expires_ok_touches [OF inv(2)], where c = "Exists_Keys args" and env = env]
    show ?thesis using False spec_step.exists [of env args "spec_of st"] by (simp add: named_def syn_some_ne)
  qed (use arity in \<open>simp add: cmd_exists_def named_def\<close>)
  show "realises env (named name args (syn_some Mget)) st out (cmd_mget env (name # args) st out)"
  proof (cases "args = []")
    case False
    from realises_store [OF cmd_mget_ok [OF inv(1) assms(2) len [OF False]] assms(1) expires_ok_touches [OF inv(2)] reply_safe_lookups, where c = "Mget args" and env = env]
    show ?thesis using False spec_step.mget [of env args "spec_of st"] by (simp add: named_def syn_some_ne)
  qed (use arity in \<open>simp add: cmd_mget_def named_def\<close>)
  show "realises env (named name args syn_mset) st out (cmd_mset env (name # args) st out)"
  proof (cases "args \<noteq> [] \<and> even (length args)")
    case True
    then have l: "3 \<le> length (name # args)" "odd (length (name # args))" by (cases args rule: kv_pairs.cases; auto)+
    from realises_store [OF cmd_mset_ok [OF inv(1) assms(2) l] assms(1) expires_ok_pairs [OF inv(2)], where c = "Mset args" and env = env]
    show ?thesis using True spec_step.mset [of env args "spec_of st"] by (simp add: named_def syn_mset_def)
  next
    case False
    then have "length args < 2 \<or> Suc (length args) mod 2 = 0" by (auto simp: even_iff_mod_2_eq_zero [symmetric])
    with False arity show ?thesis by (auto simp: cmd_mset_def named_def syn_mset_def)
  qed
qed

lemma keys_realises:
  assumes "cmd_inv st" and "gb_wf out"
  shows "realises env (named name args (syn_one syn_keys)) st out (cmd_keys env (name # args) st out)"
proof (cases "args = [''*'']")
  case True
  let ?es = "live_entries (ce_clk env 0) (cs_store st)"
  note inv = cmd_inv_store(1) [OF assms(1)]
  have d: "distinct (map e_key ?es)" by (rule live_entries_distinct [OF inv])
  have "set (map e_key ?es) = dom (entries_map ?es)" by (simp add: dom_entries_map)
  also have "\<dots> = dom (live (ce_clk env 0) (store_abs (cs_store st)))" by (simp add: live_entries_map [OF inv])
  finally have "spec_step env Keys (spec_of st) (spec_of st) (Array (map Bulk (map e_key ?es)))"
    by (intro spec_step.keys d) simp
  moreover have "reply_safe (Array (map Bulk (map e_key ?es)))" by (simp add: list_all_iff)
  moreover obtain out' where "cmd_keys env (name # args) st out = Some (st, out')" "gb_wf out'"
    "gb_bytes out' = gb_bytes out @ enc_reply (Array (map Bulk (map e_key ?es)))"
    using cmd_keys_ok [OF inv assms(2), of "name # args" env] True by (auto simp: o_def)
  ultimately have "realises env Keys st out (cmd_keys env (name # args) st out)" using assms(1) unfolding realises_def by blast
  then show ?thesis using True by (simp add: named_def syn_keys_def)
next
  case False
  show ?thesis
  proof (cases "(syn_keys, args)" rule: syn_one.cases)
    case (1 f p)
    then have "p \<noteq> ''*''" using False by simp
    then have "length p \<noteq> 1 \<or> hd p \<noteq> CHR ''*''" by (cases p) auto
    then show ?thesis using 1 \<open>p \<noteq> _\<close> assms by (auto simp: cmd_keys_def named_def syn_keys_def intro!: realises_bad plain_texts)
  qed (use assms in \<open>auto simp: cmd_keys_def named_def intro!: realises_arity_Cons\<close>)
qed

lemma handlers_realise:
  assumes "cmd_inv st" and "gb_wf out" and "env_ok env" and "length (name # args) < 2 ^ 63" and "\<not> ttl_overflow env (name # args)"
  shows "list_all2 (\<lambda>(n, h) (n', f). n' = n \<and>
    (arg_eq_ci name n \<longrightarrow> realises env (named name args f) st out (h env (name # args) st out))) COMMAND_TABLE SYNTAX"
  using ping_realises echo_realises get_realises no_arg_realises set_realises expire_realises counters_realise(1,2) save_realises
    multi_key_realise keys_realises ttl_realises [where want_ms = True] ttl_realises [where want_ms = False]
    counters_realise(3) [where negate = True] counters_realise(3) [where negate = False] assms
  by (simp add: COMMAND_TABLE_def SYNTAX_def cmd_ttl_def cmd_pttl_def cmd_incrby_def cmd_decrby_def)

lemma table_lookup:
  assumes "list_all2 (\<lambda>(n, h) (n', f). n' = n \<and> (arg_eq_ci a n \<longrightarrow> P f h)) t u"
  shows "case find_handler t a of
      None \<Rightarrow> map_of (map (\<lambda>(n, f). (map tolower n, f)) u) (map tolower a) = None
    | Some h \<Rightarrow> \<exists>f. map_of (map (\<lambda>(n, f). (map tolower n, f)) u) (map tolower a) = Some f \<and> P f h"
  using assms by (induction t u rule: list_all2_induct) (auto simp: arg_eq_ci_iff split: option.splits)

lemma dispatch_realises:
  assumes "argv \<noteq> []" and "cmd_inv st" and "gb_wf out" and "env_ok env" and "length argv < 2 ^ 63" and "\<not> ttl_overflow env argv"
  shows "realises env (decode argv) st out (cmd_dispatch env argv st out)"
proof -
  obtain name args where a: "argv = name # args" using assms(1) by (cases argv) simp_all
  note l = table_lookup [OF handlers_realise [OF assms(2-4) assms(5,6) [unfolded a]]]
  show ?thesis
  proof (cases "find_handler COMMAND_TABLE name")
    case None
    have "snprintf 80 (unknown_command name) = unknown_command name"
      using safe_token_length [of 32 name] by (intro snprintf_id) (simp add: unknown_command_def)
    with None l realises_bad [OF assms(2,3) plain_texts(6), of env name] show ?thesis
      by (simp add: a cmd_dispatch_def Let_def unknown_command_def)
  next
    case (Some h)
    with l show ?thesis by (auto simp: a cmd_dispatch_def)
  qed
qed

section \<open>Types of replies\<close>

datatype reply_type = T_Status | T_Integer | T_Bulk | T_Null | T_List reply_type | T_Or reply_type reply_type

fun has_type :: "reply \<Rightarrow> reply_type \<Rightarrow> bool" where
  "has_type r (T_Or a b) = (has_type r a \<or> has_type r b)"
| "has_type (Simple s) T_Status = True"
| "has_type (Integer v) T_Integer = True"
| "has_type (Bulk s) T_Bulk = True"
| "has_type Null_Bulk T_Null = True"
| "has_type (Array rs) (T_List t) = list_all (\<lambda>r. has_type r t) rs"
| "has_type _ _ = False"

text \<open>The type of the reply of a command that succeeds.\<close>

fun cmd_type :: "command \<Rightarrow> reply_type option" where
  "cmd_type (Ping None) = Some T_Status"
| "cmd_type (Ping (Some m)) = Some T_Bulk"
| "cmd_type (Echo m) = Some T_Bulk"
| "cmd_type (Set_Key k v x) = Some T_Status"
| "cmd_type (Get_Key k) = Some (T_Or T_Bulk T_Null)"
| "cmd_type (Mget ks) = Some (T_List (T_Or T_Bulk T_Null))"
| "cmd_type (Mset l) = Some T_Status"
| "cmd_type Keys = Some (T_List T_Bulk)"
| "cmd_type Flushdb = Some T_Status"
| "cmd_type Save = Some T_Status"
| "cmd_type Bgsave = Some T_Status"
| "cmd_type (Bad msg) = None"
| "cmd_type _ = Some T_Integer"

text \<open>The commands that can fail although they were well formed.\<close>

fun can_fail :: "command \<Rightarrow> bool" where
  "can_fail (Incr k d) = True"
| "can_fail Save = True"
| "can_fail Bgsave = True"
| "can_fail _ = False"

definition reply_typed :: "command \<Rightarrow> reply \<Rightarrow> bool" where
  "reply_typed c r \<longleftrightarrow>
     (case cmd_type c of
        None \<Rightarrow> \<exists>m. r = Err m
      | Some t \<Rightarrow> has_type r t \<or> can_fail c \<and> (\<exists>m. r = Err m))"

lemma lookup_reply_type: "has_type (lookup_reply r) (T_Or T_Bulk T_Null)"
  by (simp add: lookup_reply_def split: option.split)

lemma spec_step_typed:
  assumes "spec_step env c s s' r"
  shows "reply_typed c r"
  using assms
proof cases
  case (incr k d status v m)
  then show ?thesis by (cases status) (simp_all add: reply_typed_def)
qed (use lookup_reply_type in \<open>simp_all add: reply_typed_def list_all_iff del: has_type.simps(1)\<close>)

declare decode.simps [simp del]

text \<open>The names differ, so a request that spells a name is decoded by its entry.\<close>

lemma decode_named:
  assumes "(n, f) \<in> set SYNTAX" and "arg_eq_ci name n"
  shows "decode (name # args) = named name args f"
proof -
  let ?t = "map (\<lambda>(n, f). (map tolower n, f)) SYNTAX"
  have "map fst SYNTAX = map fst COMMAND_TABLE" by (simp add: SYNTAX_def COMMAND_TABLE_def)
  then have "distinct (map (map tolower) (map fst SYNTAX))" using command_names_distinct by (simp only:)
  moreover have "map fst ?t = map (map tolower) (map fst SYNTAX)" by (simp add: split_beta o_def)
  ultimately have "distinct (map fst ?t)" by (simp only:)
  moreover have "(map tolower name, f) \<in> set ?t" using assms by (auto simp: arg_eq_ci_iff)
  ultimately have "map_of ?t (map tolower name) = Some f" by simp
  then show ?thesis by (simp add: decode.simps)
qed

section \<open>Properties\<close>

text \<open>
  C3: every command that is dispatched does what the specification says: the request is decoded as the
  command it spells, the data, the save path and the save time change as that command prescribes,
  and exactly its reply is appended to the output. This covers all 21 commands, wrong numbers
  of arguments, malformed arguments and unknown names; only the expiry times whose computation
  overflows are left out.
\<close>

theorem dispatch_refines:
  assumes "argv \<noteq> []" and "length argv < 2 ^ 63" and "cmd_inv st" and "gb_wf out" and "env_ok env" and "\<not> ttl_overflow env argv"
  shows "\<exists>st' out' r. cmd_dispatch env argv st out = Some (st', out') \<and> cmd_inv st' \<and> gb_wf out' \<and>
    gb_bytes out' = gb_bytes out @ enc_reply r \<and> spec_step env (decode argv) (spec_of st) (spec_of st') r"
  using dispatch_realises [OF assms(1,3,4,5,2,6)] unfolding realises_def by blast

lemma demo_request: "\<not> ttl_overflow env [''GET'', ''a'']"
proof -
  have "\<not> arg_eq_ci ''GET'' ''SET''" "\<not> arg_eq_ci ''GET'' ''EXPIRE''" by code_simp+
  then show ?thesis by (simp add: ttl_overflow_def)
qed

lemma demo_decode: "decode [''GET'', ''a''] = Get_Key ''a''"
  using decode_named [of "''GET''" "syn_one Get_Key" "''GET''" "[''a'']"] by (simp add: SYNTAX_def arg_eq_ci_iff named_def)

theorem dispatch_refines_witness:
  "\<exists>st' out' r. cmd_dispatch demo_env [''GET'', ''a''] demo_state resp_buf_init = Some (st', out') \<and>
     gb_bytes out' = enc_reply r \<and> spec_step demo_env (Get_Key ''a'') (spec_of demo_state) (spec_of st') r"
  using dispatch_refines [OF _ _ demo_state_inv gb_wf_init demo_env_ok demo_request] by (simp add: demo_decode) blast

text \<open>
  C21: the reply of a command has the type that belongs to the command: a status, an integer, a bulk string
  (or the null bulk), or a list of these. Only the counter commands and the two saves can answer a
  well-formed request with an error, and a request that is not well formed always gets one.
\<close>

theorem dispatch_reply_typed:
  assumes "argv \<noteq> []" and "length argv < 2 ^ 63" and "cmd_inv st" and "gb_wf out" and "env_ok env" and "\<not> ttl_overflow env argv"
  shows "\<exists>st' out' r. cmd_dispatch env argv st out = Some (st', out') \<and> gb_bytes out' = gb_bytes out @ enc_reply r \<and>
    reply_typed (decode argv) r"
  using dispatch_realises [OF assms(1,3,4,5,2,6)] spec_step_typed unfolding realises_def by blast

theorem dispatch_reply_typed_witness:
  "\<exists>st' out' r. cmd_dispatch demo_env [''GET'', ''a''] demo_state resp_buf_init = Some (st', out') \<and>
     gb_bytes out' = enc_reply r \<and> has_type r (T_Or T_Bulk T_Null)"
  using dispatch_reply_typed [OF _ _ demo_state_inv gb_wf_init demo_env_ok demo_request]
  by (simp add: demo_decode reply_typed_def)

end
