(* ===== verification/Session.thy ===== *)
theory Session
  imports Cmd
begin

text \<open>
  What the two servers have in common. The outcomes of the system calls are data: a socket is the
  list of results that the kernel gives to the successive \<open>read\<close>, \<open>write\<close> or \<open>accept\<close> calls on it. The
  world gives every command the server executes its own environment: the outcomes of the
  allocations of its parse, and the clock, file and \<open>fork\<close> outcomes of its execution. The reference
  \<open>serve\<close> says what a server owes a client for the bytes it has received: the replies to all the
  complete commands, in order, then the protocol error if there is one.
\<close>

datatype errno = EINTR | EAGAIN | EMFILE | EIO

text \<open>An empty chunk is the end of the stream.\<close>

datatype read_res = Rd bytes | Rd_errno errno
datatype write_res = Wr nat | Wr_errno errno

record world =
  w_mem :: "nat \<Rightarrow> nat \<Rightarrow> bool"
  w_env :: "nat \<Rightarrow> cmd_env"

definition world_ok :: "world \<Rightarrow> bool" where
  "world_ok w \<longleftrightarrow> (\<forall>i. env_ok (w_env w i))"

section \<open>The requests in a buffer\<close>

text \<open>As \<open>drain\<close>, the i-th command being parsed with the i-th allocation outcomes.\<close>

function requests :: "world \<Rightarrow> nat \<Rightarrow> bytes \<Rightarrow> bytes list list \<times> bytes \<times> bytes option" where
  "requests w i buf =
     (case resp_parse (w_mem w i) buf of
        Some (RESP_PARSE_OK argv n) \<Rightarrow>
          if 0 < n \<and> n \<le> length buf
          then (let (cs, r, e) = requests w (i + 1) (drop n buf) in (argv # cs, r, e))
          else ([], buf, None)
      | Some (RESP_PARSE_ERROR e) \<Rightarrow> ([], buf, Some e)
      | _ \<Rightarrow> ([], buf, None))"
  by pat_completeness auto
termination by (relation "measure (\<lambda>(w, i, buf). length buf)") auto

declare requests.simps [simp del]

lemma requests_ok:
  assumes "resp_parse (w_mem w i) buf = Some (RESP_PARSE_OK argv n)"
  shows "requests w i buf = (let (cs, r, e) = requests w (i + 1) (drop n buf) in (argv # cs, r, e))"
  using assms resp.parse_progress [OF assms] by (subst requests.simps) simp

lemma requests_incomplete:
  "resp_parse (w_mem w i) buf = Some RESP_PARSE_INCOMPLETE \<Longrightarrow> requests w i buf = ([], buf, None)"
  by (subst requests.simps) simp

lemma requests_error:
  "resp_parse (w_mem w i) buf = Some (RESP_PARSE_ERROR e) \<Longrightarrow> requests w i buf = ([], buf, Some e)"
  by (subst requests.simps) simp

lemma requests_empty [simp]: "requests w i [] = ([], [], None)"
  by (simp add: requests_incomplete resp.parse_empty)

text \<open>When every allocation succeeds the position in the world does not matter.\<close>

lemma requests_drain:
  assumes "\<And>i. w_mem w i = (\<lambda>_. True)"
  shows "requests w i buf = drain (resp_parse (\<lambda>_. True)) buf"
proof (induction "length buf" arbitrary: i buf rule: less_induct)
  case less
  obtain st where st: "resp_parse (\<lambda>_. True) buf = Some st" using resp.parse_defined by blast
  show ?case
  proof (cases st)
    case (RESP_PARSE_OK argv n)
    with st have ok: "resp_parse (\<lambda>_. True) buf = Some (RESP_PARSE_OK argv n)" by simp
    have "requests w (i + 1) (drop n buf) = drain (resp_parse (\<lambda>_. True)) (drop n buf)"
      by (rule less.hyps) (use resp.parse_progress [OF ok] in auto)
    then show ?thesis using requests_ok [of w i buf argv n] resp.drain_ok [OF ok] ok assms by simp
  qed (use st assms in \<open>simp_all add: requests.simps [of w i] drain.simps [of _ buf]\<close>)
qed

section \<open>What a server owes for the bytes it has received\<close>

fun run_cmds :: "world \<Rightarrow> nat \<Rightarrow> bytes list list \<Rightarrow> cmd_state \<Rightarrow> gbuf \<Rightarrow> (cmd_state \<times> gbuf) option" where
  "run_cmds w i [] st out = Some (st, out)"
| "run_cmds w i (argv # cs) st out =
     cmd_dispatch (w_env w i) argv st out \<bind> (\<lambda>(st', out'). run_cmds w (i + 1) cs st' out')"

definition reply_err :: "bytes option \<Rightarrow> gbuf \<Rightarrow> gbuf option" where
  "reply_err e out = (case e of None \<Rightarrow> Some out | Some m \<Rightarrow> resp_reply_error m out)"

text \<open>The new state, the output, the number of commands executed, the bytes left over and the error.\<close>

definition serve ::
    "world \<Rightarrow> nat \<Rightarrow> bytes \<Rightarrow> cmd_state \<Rightarrow> gbuf \<Rightarrow> (cmd_state \<times> gbuf \<times> nat \<times> bytes \<times> bytes option) option" where
  "serve w i buf st out =
     (let (cs, r, e) = requests w i buf in do {
        (st', out') \<leftarrow> run_cmds w i cs st out;
        out'' \<leftarrow> reply_err e out';
        Some (st', out'', i + length cs, r, e)
      })"

lemma serve_incomplete:
  "resp_parse (w_mem w i) buf = Some RESP_PARSE_INCOMPLETE \<Longrightarrow> serve w i buf st out = Some (st, out, i, buf, None)"
  by (simp add: serve_def requests_incomplete reply_err_def)

lemma serve_error:
  "resp_parse (w_mem w i) buf = Some (RESP_PARSE_ERROR e) \<Longrightarrow>
     serve w i buf st out = resp_reply_error e out \<bind> (\<lambda>out'. Some (st, out', i, buf, Some e))"
  by (simp add: serve_def requests_error reply_err_def)

lemma serve_ok:
  "resp_parse (w_mem w i) buf = Some (RESP_PARSE_OK argv n) \<Longrightarrow>
     serve w i buf st out =
       cmd_dispatch (w_env w i) argv st out \<bind> (\<lambda>(st', out'). serve w (i + 1) (drop n buf) st' out')"
  by (cases "cmd_dispatch (w_env w i) argv st out")
    (auto simp: serve_def requests_ok Let_def split: prod.splits)

text \<open>A command whose expiry time overflows, among those the world's i-th, i+1-st, ... environments run.\<close>

fun overflows :: "world \<Rightarrow> nat \<Rightarrow> bytes list list \<Rightarrow> bool" where
  "overflows w i [] = False"
| "overflows w i (c # cs) = (ttl_overflow (w_env w i) c \<or> overflows w (i + 1) cs)"

lemma overflows_append: "overflows w i (a @ b) \<longleftrightarrow> overflows w i a \<or> overflows w (i + length a) b"
  by (induction a arbitrary: i) simp_all

text \<open>Any list of commands gets one reply for each that is not empty, in order.\<close>

lemma run_cmds_replies:
  assumes "cmd_inv st" and "gb_wf out" and "world_ok w" and "list_all (\<lambda>c. length c < 2 ^ 63) cs" and "\<not> overflows w i cs"
  shows "\<exists>st' out' rs. run_cmds w i cs st out = Some (st', out') \<and> cmd_inv st' \<and> gb_wf out' \<and>
    list_all reply_safe rs \<and> length rs = length (filter (\<lambda>c. c \<noteq> []) cs) \<and>
    gb_bytes out' = gb_bytes out @ concat (map enc_reply rs)"
  using assms
proof (induction cs arbitrary: i st out)
  case Nil
  then show ?case by (auto intro: exI [of _ "[]"])
next
  case (Cons c cs)
  have prems: "list_all (\<lambda>c. length c < 2 ^ 63) cs" "\<not> overflows w (i + 1) cs" "\<not> ttl_overflow (w_env w i) c"
    using Cons.prems(4,5) by simp_all
  show ?case
  proof (cases "c = []")
    case True
    then have "cmd_dispatch (w_env w i) c st out = Some (st, out)" by (simp add: cmd_dispatch_def)
    with True Cons.IH [OF Cons.prems(1-3) prems(1,2)] show ?thesis by simp
  next
    case False
    have "one_reply out (cmd_dispatch (w_env w i) c st out)"
      using dispatch_reply [OF False Cons.prems(1,2), of "w_env w i"] Cons.prems(3,4) prems(3) by (simp add: world_ok_def)
    then obtain st1 out1 r where r: "cmd_dispatch (w_env w i) c st out = Some (st1, out1)" "cmd_inv st1" "gb_wf out1"
      "reply_safe r" "gb_bytes out1 = gb_bytes out @ enc_reply r" unfolding one_reply_def by blast
    from Cons.IH [OF r(2,3) Cons.prems(3) prems(1,2)] obtain st2 out2 rs where
      "run_cmds w (i + 1) cs st1 out1 = Some (st2, out2)" "cmd_inv st2" "gb_wf out2" "list_all reply_safe rs"
      "length rs = length (filter (\<lambda>c. c \<noteq> []) cs)" "gb_bytes out2 = gb_bytes out1 @ concat (map enc_reply rs)" by blast
    with r False show ?thesis by (intro exI [of _ st2] exI [of _ out2] exI [of _ "r # rs"]) simp
  qed
qed

lemma requests_props:
  assumes "requests w i buf = (cs, r, e)"
  shows "\<exists>k \<le> length buf. r = drop k buf" "list_all (\<lambda>c. int (length c) \<le> max RESP_MAX_ARGC (int (length buf))) cs"
    "\<And>m. e = Some m \<Longrightarrow> line_text m"
proof -
  have "(\<exists>k \<le> length buf. r = drop k buf) \<and> list_all (\<lambda>c. int (length c) \<le> max RESP_MAX_ARGC (int (length buf))) cs \<and>
      (\<forall>m. e = Some m \<longrightarrow> line_text m)"
    using assms
  proof (induction "length buf" arbitrary: i buf cs rule: less_induct)
    case less
    obtain s where s: "resp_parse (w_mem w i) buf = Some s" using resp.parse_defined by blast
    show ?case
    proof (cases s)
      case (RESP_PARSE_OK argv n)
      with s have ok: "resp_parse (w_mem w i) buf = Some (RESP_PARSE_OK argv n)" by simp
      note p = resp.parse_progress [OF ok]
      from less.prems obtain cs1 where cs1: "requests w (i + 1) (drop n buf) = (cs1, r, e)" "cs = argv # cs1"
        unfolding requests_ok [OF ok] by (auto simp: Let_def split: prod.splits)
      have "length (drop n buf) < length buf" using p by auto
      from less.hyps [OF this cs1(1)] have h: "\<exists>k \<le> length buf - n. r = drop k (drop n buf)"
        "list_all (\<lambda>c. int (length c) \<le> max RESP_MAX_ARGC (int (length buf - n))) cs1" "\<forall>m. e = Some m \<longrightarrow> line_text m"
        by simp_all
      from h(1) obtain k where "k \<le> length buf - n" "r = drop k (drop n buf)" by blast
      then have "k + n \<le> length buf" "r = drop (k + n) buf" using p by auto
      moreover have "list_all (\<lambda>c. int (length c) \<le> max RESP_MAX_ARGC (int (length buf))) cs1"
        using h(2) by (rule list.pred_mono_strong) linarith
      ultimately show ?thesis using h(3) cs1(2) resp_parse_argc [OF ok] by auto
    next
      case RESP_PARSE_INCOMPLETE
      with s less.prems show ?thesis by (auto simp: requests_incomplete)
    next
      case (RESP_PARSE_ERROR m)
      with s less.prems show ?thesis by (auto simp: requests_error dest: resp_parse_error_text)
    qed
  qed
  then show "\<exists>k \<le> length buf. r = drop k buf" "list_all (\<lambda>c. int (length c) \<le> max RESP_MAX_ARGC (int (length buf))) cs"
    "\<And>m. e = Some m \<Longrightarrow> line_text m" by blast+
qed

section \<open>The replies as a function of the commands\<close>

text \<open>Commands executed on their own: the new state and the bytes of their replies.\<close>

definition exec_cmds :: "world \<Rightarrow> nat \<Rightarrow> bytes list list \<Rightarrow> cmd_state \<Rightarrow> (cmd_state \<times> bytes) option" where
  "exec_cmds w i cs st = map_option (\<lambda>(st', out). (st', gb_bytes out)) (run_cmds w i cs st resp_buf_init)"

lemma run_cmds_same_reply:
  assumes "cmd_inv st" and "gb_wf o1" and "gb_wf o2" and "world_ok w" and "list_all (\<lambda>c. length c < 2 ^ 63) cs"
    and "\<not> overflows w i cs"
  shows "same_reply o1 o2 (run_cmds w i cs st o1) (run_cmds w i cs st o2)"
  using assms
proof (induction cs arbitrary: i st o1 o2)
  case Nil
  then show ?case by (simp add: same_reply_refl)
next
  case (Cons c cs)
  have prems: "list_all (\<lambda>c. length c < 2 ^ 63) [c]" "\<not> overflows w i [c]" "list_all (\<lambda>c. length c < 2 ^ 63) cs"
    "\<not> overflows w (i + 1) cs" using Cons.prems(5,6) by simp_all
  from run_cmds_replies [OF Cons.prems(1,2,4) prems(1,2)] obtain st1 p1 where
    r1: "cmd_dispatch (w_env w i) c st o1 = Some (st1, p1)" "cmd_inv st1" "gb_wf p1" by (auto split: bind_splits)
  from dispatch_same_reply [OF cmd_inv_store(1) [OF Cons.prems(1)] Cons.prems(2,3), of "w_env w i" c] r1(1)
  obtain p2 x where r2: "cmd_dispatch (w_env w i) c st o2 = Some (st1, p2)" "gb_wf p2"
    "gb_bytes p1 = gb_bytes o1 @ x" "gb_bytes p2 = gb_bytes o2 @ x" by (auto simp: same_reply_def)
  from Cons.IH [OF r1(2,3) r2(2) Cons.prems(4) prems(3,4)] r1(1) r2 show ?case by (auto simp: same_reply_def)
qed

lemma run_cmds_exec:
  assumes "cmd_inv st" and "gb_wf out" and "world_ok w" and "list_all (\<lambda>c. length c < 2 ^ 63) cs" and "\<not> overflows w i cs"
  shows "\<exists>st' out' x. exec_cmds w i cs st = Some (st', x) \<and> run_cmds w i cs st out = Some (st', out') \<and> cmd_inv st' \<and>
    gb_wf out' \<and> gb_bytes out' = gb_bytes out @ x"
proof -
  from run_cmds_replies [OF assms] obtain st' out' where
    r: "run_cmds w i cs st out = Some (st', out')" "cmd_inv st'" "gb_wf out'" by blast
  with run_cmds_same_reply [OF assms(1) gb_wf_init assms(2-5)] show ?thesis
    by (auto simp: same_reply_def exec_cmds_def)
qed

text \<open>An overflow has no result.\<close>

lemma run_cmds_overflow:
  assumes "world_ok w" and "overflows w i cs"
  shows "run_cmds w i cs st out = None"
  using assms(2)
proof (induction cs arbitrary: i st out)
  case Nil
  then show ?case by simp
next
  case (Cons c cs)
  show ?case
  proof (cases "ttl_overflow (w_env w i) c")
    case True
    then have "c \<noteq> []" by (auto simp: ttl_overflow_def)
    from ttl_overflow_undefined [OF this _ True] assms(1) show ?thesis by (simp add: world_ok_def)
  next
    case False
    with Cons.prems have "overflows w (i + 1) cs" by simp
    with Cons.IH show ?thesis by (cases "cmd_dispatch (w_env w i) c st out") auto
  qed
qed

section \<open>The replies of the reference\<close>

text \<open>
  The reference is defined unless a command overflows, and its output is one reply per command and
  one for the protocol error.
\<close>

definition err_reply :: "bytes option \<Rightarrow> reply list" where
  "err_reply e = (case e of None \<Rightarrow> [] | Some m \<Rightarrow> [Err m])"

lemma reply_err_ok:
  assumes "\<And>m. e = Some m \<Longrightarrow> line_text m" and "gb_wf out"
  shows "\<exists>out'. reply_err e out = Some out' \<and> gb_wf out' \<and> gb_bytes out' = gb_bytes out @ concat (map enc_reply (err_reply e))"
proof (cases e)
  case None
  then show ?thesis using assms(2) by (simp add: reply_err_def err_reply_def)
next
  case (Some m)
  with assms(1) have "appends (resp_reply_error m) (enc_reply (Err m))"
    using appends_error [of m] by (simp add: line_text_def cstr_id)
  from appendsE [OF this assms(2)] Some show ?thesis by (auto simp: reply_err_def err_reply_def)
qed

lemma serve_replies:
  assumes "cmd_inv st" and "gb_wf out" and "world_ok w" and "length buf < 2 ^ 63"
    and "requests w i buf = (cs, r, e)" and "\<not> overflows w i cs"
  shows "\<exists>st' out' rs. serve w i buf st out = Some (st', out', i + length cs, r, e) \<and> cmd_inv st' \<and> gb_wf out' \<and>
    list_all reply_safe rs \<and> length rs = length (filter (\<lambda>c. c \<noteq> []) cs) \<and>
    exec_cmds w i cs st = Some (st', concat (map enc_reply rs)) \<and>
    gb_bytes out' = gb_bytes out @ concat (map enc_reply (rs @ err_reply e))"
proof -
  have "int (length c) < 2 ^ 63" if "int (length c) \<le> max RESP_MAX_ARGC (int (length buf))" for c :: "bytes list"
    using that assms(4) by (auto simp: RESP_MAX_ARGC_def max_def split: if_splits)
  then have l: "list_all (\<lambda>c. length c < 2 ^ 63) cs"
    using requests_props(2) [OF assms(5)] by (auto simp: list_all_iff)
  from run_cmds_replies [OF assms(1-3) l assms(6)] obtain st' out1 rs where
    r: "run_cmds w i cs st out = Some (st', out1)" "cmd_inv st'" "gb_wf out1" "list_all reply_safe rs"
      "length rs = length (filter (\<lambda>c. c \<noteq> []) cs)" "gb_bytes out1 = gb_bytes out @ concat (map enc_reply rs)" by blast
  from run_cmds_exec [OF assms(1-3) l assms(6)] r(1,6) have "exec_cmds w i cs st = Some (st', concat (map enc_reply rs))" by auto
  moreover from reply_err_ok [OF requests_props(3) [OF assms(5)] r(3)] obtain out2 where
    "reply_err e out1 = Some out2" "gb_wf out2" "gb_bytes out2 = gb_bytes out1 @ concat (map enc_reply (err_reply e))" by blast
  ultimately show ?thesis using r assms(5) by (intro exI [of _ st'] exI [of _ out2] exI [of _ rs]) (simp add: serve_def)
qed

section \<open>Arrival in pieces\<close>

lemma run_cmds_append:
  "run_cmds w i (a @ b) st out = run_cmds w i a st out \<bind> (\<lambda>(st', out'). run_cmds w (i + length a) b st' out')"
proof (induction a arbitrary: i st out)
  case Nil
  then show ?case by simp
next
  case (Cons c a)
  then show ?case by (cases "cmd_dispatch (w_env w i) c st out") (auto simp: split_beta)
qed

text \<open>Executing a list of commands in two parts.\<close>

lemma exec_cmds_append:
  assumes "cmd_inv st" and "world_ok w" and "list_all (\<lambda>c. length c < 2 ^ 63) (a @ b)" and "\<not> overflows w i (a @ b)"
    and "exec_cmds w i a st = Some (st1, x)" and "exec_cmds w (i + length a) b st1 = Some (st2, y)"
  shows "exec_cmds w i (a @ b) st = Some (st2, x @ y)"
proof -
  have p: "list_all (\<lambda>c. length c < 2 ^ 63) a" "list_all (\<lambda>c. length c < 2 ^ 63) b" "\<not> overflows w i a"
    "\<not> overflows w (i + length a) b" using assms(3,4) by (simp_all add: overflows_append)
  from run_cmds_exec [OF assms(1) gb_wf_init assms(2) p(1,3)] assms(5) obtain out1 where
    o1: "run_cmds w i a st resp_buf_init = Some (st1, out1)" "cmd_inv st1" "gb_wf out1" "gb_bytes out1 = x" by auto
  from run_cmds_exec [OF o1(2,3) assms(2) p(2,4)] assms(6) obtain out2 where
    "run_cmds w (i + length a) b st1 out1 = Some (st2, out2)" "gb_bytes out2 = x @ y" using o1(4) by auto
  with o1(1) show ?thesis by (simp add: exec_cmds_def run_cmds_append)
qed

text \<open>
  Serving the first part of a stream and later the rest, with the bytes left over in front, is serving the
  whole stream at once.
\<close>

lemma serve_append:
  assumes "\<And>i. w_mem w i = (\<lambda>_. True)" and "serve w i a st out = Some (st1, out1, i1, r, None)"
  shows "serve w i (a @ b) st out = serve w i1 (r @ b) st1 out1"
proof -
  obtain cs where cs: "drain (resp_parse (\<lambda>_. True)) a = (cs, r, None)" "run_cmds w i cs st out = Some (st1, out1)"
    "i1 = i + length cs"
    using assms(2) by (auto simp: serve_def requests_drain [OF assms(1)] Let_def reply_err_def
        split: prod.splits option.splits bind_splits)
  from resp.drain_append [OF cs(1), of b] cs(2,3) show ?thesis
    by (auto simp: serve_def requests_drain [OF assms(1)] run_cmds_append Let_def algebra_simps split: prod.splits bind_splits)
qed

text \<open>A pipeline of encoded requests of which the last may be cut short.\<close>

lemma serve_requests:
  assumes "\<And>i. w_mem w i = (\<lambda>_. True)" and "list_all request_ok reqs" and "request_ok q" and "k < length (enc_request q)"
  shows "serve w i (concat (map enc_request reqs) @ take k (enc_request q)) st out =
    run_cmds w i reqs st out \<bind> (\<lambda>(st', out'). Some (st', out', i + length reqs, take k (enc_request q), None))"
  by (simp add: serve_def requests_drain [OF assms(1)] drain_requests [OF assms(2-4)] reply_err_def)

text \<open>Every prefix of a pipeline has that form, so no prefix is in error.\<close>

lemma pipeline_prefix:
  assumes "list_all request_ok reqs" and "a @ b = concat (map enc_request reqs)"
  shows "\<exists>n k q. n \<le> length reqs \<and> request_ok q \<and> k < length (enc_request q) \<and>
    a = concat (map enc_request (take n reqs)) @ take k (enc_request q)"
  using assms
proof (induction reqs arbitrary: a)
  case Nil
  have "request_ok [''PING'']" "0 < length (enc_request [''PING''])"
    by (simp_all add: request_ok_def resp_limits enc_request_def)
  with Nil show ?case by (intro exI [of _ 0] exI [of _ "[''PING'']"]) auto
next
  case (Cons c reqs)
  have e: "a @ b = enc_request c @ concat (map enc_request reqs)" using Cons.prems(2) by simp
  show ?case
  proof (cases "length a < length (enc_request c)")
    case True
    with e have "a = take (length a) (enc_request c)" 
      using arg_cong [of _ _ "take (length a)"] by (metis append_eq_conv_conj append_Nil2 diff_is_0_eq less_imp_le take_0 take_append)
    with True Cons.prems(1) show ?thesis by (intro exI [of _ 0] exI [of _ "length a"] exI [of _ c]) simp
  next
    case False
    define a' where "a' = drop (length (enc_request c)) a"
    have "enc_request c = take (length (enc_request c)) (a @ b)" unfolding e by simp
    with False have a': "a = enc_request c @ a'"
      using append_take_drop_id [of "length (enc_request c)" a] by (simp add: a'_def)
    from e have a2: "a' @ b = concat (map enc_request reqs)" unfolding a' by simp
    from Cons.IH [OF _ a2] Cons.prems(1) obtain n k q where
      "n \<le> length reqs" "request_ok q" "k < length (enc_request q)"
      "a' = concat (map enc_request (take n reqs)) @ take k (enc_request q)" by auto
    with a' show ?thesis by (intro exI [of _ "Suc n"] exI [of _ k] exI [of _ q]) simp
  qed
qed

section \<open>Start-up pieces common to the two \<open>main\<close> functions\<close>

text \<open>\<open>atoi\<close>: undefined when the number does not fit an \<open>int\<close>.\<close>

definition atoi :: "bytes \<Rightarrow> int option" where
  "atoi s = (let (v, e, r) = strtoll (cstr s @ [NUL]) in
     if r \<or> v < - (2 ^ 31) \<or> v \<ge> 2 ^ 31 then None else Some v)"

definition is_save_flag :: "bytes \<Rightarrow> bool" where
  "is_save_flag a \<longleftrightarrow> cstr a = ''--save'' \<or> cstr a = ''-s''"

text \<open>
  \<open>g_store = store_create ()\<close> and, with a save path, \<open>cmd_set_save_path\<close> and \<open>persist_load\<close>. A load that
  fails is only reported; whatever the loader inserted before it failed stays in the store.
\<close>

definition fresh_state :: "fs \<Rightarrow> cmd_state" where
  "fresh_state fs = \<lparr>cs_store = store_create, g_save_path = [], g_lastsave_time = 0, cs_fs = fs, cs_children = []\<rparr>"

definition load_at_start :: "int \<Rightarrow> load_io \<Rightarrow> bytes option \<Rightarrow> fs \<Rightarrow> (persist_status option \<times> cmd_state) option" where
  "load_at_start now lio save_path fs =
     (case save_path of
        None \<Rightarrow> Some (None, fresh_state fs)
      | Some p \<Rightarrow> do {
          let st = cmd_set_save_path (Some p) (fresh_state fs);
          (r, s) \<leftarrow> persist_load now lio fs p (cs_store st);
          Some (Some r, st\<lparr>cs_store := s\<rparr>)
        })"

text \<open>The save at the end of \<open>main\<close>, to the path of the command line.\<close>

definition save_at_exit ::
    "int \<Rightarrow> (nat \<Rightarrow> bool) \<Rightarrow> save_io \<Rightarrow> bytes option \<Rightarrow> cmd_state \<Rightarrow> (persist_status option \<times> cmd_state) option" where
  "save_at_exit now mem io save_path st =
     (case save_path of
        None \<Rightarrow> Some (None, st)
      | Some p \<Rightarrow> do {
          (r, tr) \<leftarrow> persist_save now mem io (cs_store st) p (cs_fs st);
          Some (Some r, st\<lparr>cs_fs := last tr\<rparr>)
        })"

text \<open>What is left over without an error is a command that is not complete.\<close>

lemma requests_left:
  "requests w i buf = (cs, r, None) \<Longrightarrow> resp_parse (w_mem w (i + length cs)) r = Some RESP_PARSE_INCOMPLETE"
proof (induction "length buf" arbitrary: i buf cs rule: less_induct)
  case less
  obtain s where s: "resp_parse (w_mem w i) buf = Some s" using resp.parse_defined by blast
  show ?case
  proof (cases s)
    case (RESP_PARSE_OK argv n)
    with s have ok: "resp_parse (w_mem w i) buf = Some (RESP_PARSE_OK argv n)" by simp
    from less.prems obtain cs1 where cs1: "requests w (i + 1) (drop n buf) = (cs1, r, None)" "cs = argv # cs1"
      unfolding requests_ok [OF ok] by (auto simp: Let_def split: prod.splits)
    have "length (drop n buf) < length buf" using resp.parse_progress [OF ok] by auto
    from less.hyps [OF this cs1(1)] cs1(2) show ?thesis by simp
  qed (use s less.prems in \<open>auto simp: requests_incomplete requests_error\<close>)
qed

lemma serve_left:
  assumes "serve w i buf st out = Some (st', out', i', r, e)"
  shows "length r \<le> length buf" "e = None \<Longrightarrow> \<exists>mem. resp_parse mem r = Some RESP_PARSE_INCOMPLETE"
proof -
  obtain cs where cs: "requests w i buf = (cs, r, e)"
    using assms by (auto simp: serve_def Let_def split: prod.splits bind_splits)
  show "length r \<le> length buf" using requests_props(1) [OF cs] by auto
  show "\<exists>mem. resp_parse mem r = Some RESP_PARSE_INCOMPLETE" if "e = None"
    using requests_left [of w i buf cs r] cs that by auto
qed

text \<open>Whatever the snapshot file holds, a load that is defined leaves a state that satisfies the invariant.\<close>

lemma load_entries_inv:
  assumes "load_entries now data limit left pos s = Some (r, s')" and "store_inv s" and "expires_ok (store_abs s)"
  shows "store_inv s' \<and> expires_ok (store_abs s')"
  using assms
proof (induction left arbitrary: pos s)
  case 0
  then show ?case by simp
next
  case (Suc left)
  have set: "store_inv (snd (store_set s k v (sint x))) \<and> expires_ok (store_abs (snd (store_set s k v (sint x))))" for k v and x :: u64
    by (rule store_call_inv [OF store_call.set [OF int64_ok_sint] Suc.prems(2,3)])
  have IH2: "store_inv s' \<and> expires_ok (store_abs s')"
    if "load_entries now data limit left q (snd (store_set s k v (sint x))) = Some (r, s')" for q k v and x :: u64
    using Suc.IH [OF that] set by blast
  from Suc.prems show ?case
    by (auto simp: load_entries.simps(2) Let_def split: if_splits bind_splits dest: Suc.IH IH2)
qed

lemma persist_load_inv:
  assumes "persist_load now io fs path s = Some (r, s')" and "store_inv s" and "expires_ok (store_abs s)"
  shows "store_inv s' \<and> expires_ok (store_abs s')"
  using assms
  by (auto simp: persist_load_def Let_def split: option.splits if_splits bind_splits dest: load_entries_inv)

lemma fresh_state_inv: "cmd_inv (fresh_state fs)" "cmd_inv (cmd_set_save_path p (fresh_state fs))"
  by (simp_all add: cmd_inv_def fresh_state_def cmd_set_save_path_def Let_def store_create_inv store_create_abs expires_ok_empty int64_defs
      split: option.split)

lemma load_at_start_inv:
  assumes "load_at_start now lio save_path fs = Some (r, st)"
  shows "cmd_inv st"
proof (cases save_path)
  case None
  then show ?thesis using assms fresh_state_inv(1) by (auto simp: load_at_start_def)
next
  case (Some p)
  let ?st = "cmd_set_save_path (Some p) (fresh_state fs)"
  from assms Some obtain r' s where "persist_load now lio fs p (cs_store ?st) = Some (r', s)" "st = ?st\<lparr>cs_store := s\<rparr>"
    by (auto simp: load_at_start_def Let_def split: bind_splits)
  with persist_load_inv [OF this(1)] fresh_state_inv(2) [of "Some p" fs] show ?thesis by (simp add: cmd_inv_def)
qed

text \<open>What the final save writes is what the next start loads.\<close>

lemma exit_then_start:
  assumes "cmd_inv st" and "save_at_exit now mem io (Some p) st = Some (Some PERSIST_OK, st')"
    and "length (snapshot (map entry_kv (live_entries now (cs_store st)))) < 2 ^ 63" and "now \<le> now'"
  shows "\<exists>st''. load_at_start now' \<lparr>io_open = True, io_mem = True, io_fread = True\<rparr> (Some p) (cs_fs st') =
      Some (Some PERSIST_OK, st'') \<and> cmd_inv st'' \<and> store_abs (cs_store st'') = live now' (store_abs (cs_store st))"
proof -
  from assms(2) obtain tr where tr: "persist_save now mem io (cs_store st) p (cs_fs st) = Some (PERSIST_OK, tr)"
    "st' = st\<lparr>cs_fs := last tr\<rparr>" by (auto simp: save_at_exit_def split: bind_splits)
  from save_load [OF cmd_inv_store [OF assms(1)] tr(1) assms(3,4)] obtain s' where
    s': "persist_load now' \<lparr>io_open = True, io_mem = True, io_fread = True\<rparr> (last tr) p store_create = Some (PERSIST_OK, s')"
      "store_abs s' = live now' (store_abs (cs_store st))" by blast
  have "cs_store (cmd_set_save_path (Some p) (fresh_state fs)) = store_create" for fs
    by (simp add: cmd_set_save_path_def fresh_state_def Let_def)
  with s' tr(2) have "\<exists>st''. load_at_start now' \<lparr>io_open = True, io_mem = True, io_fread = True\<rparr> (Some p) (cs_fs st') =
      Some (Some PERSIST_OK, st'') \<and> store_abs (cs_store st'') = live now' (store_abs (cs_store st))"
    by (simp add: load_at_start_def Let_def)
  then show ?thesis using load_at_start_inv by blast
qed

lemma pipeline_prefix_ok:
  assumes "list_all request_ok reqs" and "a @ b = concat (map enc_request reqs)"
  shows "snd (snd (drain (resp_parse (\<lambda>_. True)) a)) = None"
proof -
  from pipeline_prefix [OF assms] obtain n j r where
    "request_ok r" "j < length (enc_request r)" "a = concat (map enc_request (take n reqs)) @ take j (enc_request r)" by blast
  moreover have "list_all request_ok (take n reqs)" using assms(1) by (auto simp: list_all_iff dest: in_set_takeD)
  ultimately show ?thesis using drain_requests [of "take n reqs" r j] by simp
qed

end
