(* ===== verification/Server.thy ===== *)
theory Server
  imports Session
begin

text \<open>
  The event-driven server (\<open>src/server.c\<close>): connections, the connection table, the handlers and the
  event loop. Sockets and \<open>epoll\<close> are not under the program's control: their outcomes come with each
  event, and the interest list the kernel keeps is a field of the state. The set of open client
  descriptors is part of the state too, so that closing one that is not open is undefined here.
\<close>

definition DEFAULT_PORT :: int where "DEFAULT_PORT = 6380"
definition READ_CHUNK :: nat where "READ_CHUNK = 16384"
definition MAX_CONN_INPUT_BUF :: nat where "MAX_CONN_INPUT_BUF = 16 * 1024 * 1024"

record conn =
  c_fd :: nat
  c_in :: gbuf
  c_out :: gbuf
  out_sent :: nat
  closing :: bool
  want_write :: bool

text \<open>
  \<open>g_conns_cap\<close> is the length of \<open>g_conns\<close>. \<open>sv_epoll\<close> maps a registered descriptor to whether \<open>EPOLLOUT\<close>
  is armed (\<open>EPOLLIN\<close> always is), \<open>sv_fds\<close> holds the open client descriptors, and \<open>sv_tick\<close> counts the
  commands executed so far, which is the position in the world.
\<close>

record server =
  sv_cmd :: cmd_state
  g_conns :: "conn option list"
  sv_epoll :: "nat \<rightharpoonup> bool"
  sv_fds :: "nat set"
  sv_listen :: nat
  sv_tick :: nat

section \<open>The connection table\<close>

definition conns_table_ensure :: "nat \<Rightarrow> server \<Rightarrow> server" where
  "conns_table_ensure fd s =
     (let cap = length (g_conns s) in
      if fd < cap then s
      else
        (let newcap = double_until (fd + 1) (if cap \<noteq> 0 then cap * 2 else 64)
         in s\<lparr>g_conns := g_conns s @ replicate (newcap - cap) None\<rparr>))"

text \<open>Writing through the pointer \<open>c\<close>, which the table cell of its descriptor holds.\<close>

definition put_conn :: "conn \<Rightarrow> server \<Rightarrow> server option" where
  "put_conn c s = do {
     _ \<leftarrow> rd (g_conns s) (c_fd c);
     Some (s\<lparr>g_conns := (g_conns s)[c_fd c := Some c]\<rparr>)
   }"

definition conn_create :: "nat \<Rightarrow> server \<Rightarrow> (conn \<times> server) option" where
  "conn_create fd s =
     (let c = \<lparr>c_fd = fd, c_in = gb_null, c_out = resp_buf_init, out_sent = 0, closing = False, want_write = False\<rparr>
      in do { s \<leftarrow> put_conn c (conns_table_ensure fd s); Some (c, s) })"

definition conn_close :: "conn \<Rightarrow> server \<Rightarrow> server option" where
  "conn_close c s = do {
     _ \<leftarrow> rd (g_conns s) (c_fd c);
     if c_fd c \<in> sv_fds s
     then Some (s\<lparr>sv_epoll := (sv_epoll s)(c_fd c := None), sv_fds := sv_fds s - {c_fd c},
                  g_conns := (g_conns s)[c_fd c := None]\<rparr>)
     else None
   }"

section \<open>Input\<close>

definition conn_in_append :: "gbuf \<Rightarrow> bytes \<Rightarrow> gbuf option" where
  "conn_in_append b d = gb_append 4096 b d"

definition conn_in_consume :: "gbuf \<Rightarrow> nat \<Rightarrow> gbuf option" where
  "conn_in_consume b n = gb_consume b n"

lemma gb_consume_len: "gb_consume b n = Some b' \<Longrightarrow> gb_len b' = gb_len b - n \<and> n \<le> gb_len b"
  by (auto simp: gb_consume_def size_sub_def split: if_splits bind_splits)

text \<open>
  The loop of \<open>conn_process_input\<close>. The buffer read is the whole input, and the i-th command of
  the server's life runs in the world's i-th environment.
\<close>

function conn_process_input :: "world \<Rightarrow> nat \<Rightarrow> cmd_state \<Rightarrow> conn \<Rightarrow> (cmd_state \<times> conn \<times> nat) option" where
  "conn_process_input w i st c =
     (if gb_len (c_in c) > 0 \<and> \<not> closing c then do {
        buf \<leftarrow> gb_read (c_in c) 0 (gb_len (c_in c));
        r \<leftarrow> resp_parse (w_mem w i) buf;
        case r of
          RESP_PARSE_INCOMPLETE \<Rightarrow> Some (st, c, i)
        | RESP_PARSE_ERROR err \<Rightarrow> do {
            out \<leftarrow> resp_reply_error err (c_out c);
            Some (st, c\<lparr>c_out := out, closing := True\<rparr>, i)
          }
        | RESP_PARSE_OK argv consumed \<Rightarrow> do {
            r \<leftarrow> cmd_dispatch (w_env w i) argv st (c_out c);
            inb \<leftarrow> conn_in_consume (c_in c) consumed;
            conn_process_input w (i + 1) (fst r) (c\<lparr>c_out := snd r, c_in := inb\<rparr>)
          }
      } else Some (st, c, i))"
  by pat_completeness auto
termination
proof (relation "measure (\<lambda>(w, i, st, c). gb_len (c_in c))", goal_cases)
  case 1
  show ?case by simp
next
  case (2 w i st c buf r argv consumed r' inb)
  then show ?case
    using resp.parse_progress [of "w_mem w i" buf argv consumed] gb_consume_len [of "c_in c" consumed inb]
    by (auto simp: conn_in_consume_def)
qed

declare conn_process_input.simps [simp del]

section \<open>Output\<close>

text \<open>
  The outcomes of the successive \<open>write\<close> calls; a socket whose outcomes are used up would block. The
  third component of the result is what went out.
\<close>

primrec conn_flush_output :: "write_res list \<Rightarrow> conn \<Rightarrow> bytes \<Rightarrow> (int \<times> conn \<times> bytes) option" where
  "conn_flush_output [] c sent =
     (if out_sent c < gb_len (c_out c) then Some (0, c, sent)
      else Some (1, c\<lparr>c_out := (c_out c)\<lparr>gb_len := 0\<rparr>, out_sent := 0\<rparr>, sent))"
| "conn_flush_output (r # rs) c sent =
     (if out_sent c < gb_len (c_out c) then do {
        d \<leftarrow> gb_read (c_out c) (out_sent c) (gb_len (c_out c) - out_sent c);
        case r of
          Wr k \<Rightarrow>
            (let n = min k (length d) in
             if n > 0 then conn_flush_output rs (c\<lparr>out_sent := out_sent c + n\<rparr>) (sent @ take n d)
             else Some (- 1, c, sent))
        | Wr_errno EINTR \<Rightarrow> conn_flush_output rs c sent
        | Wr_errno EAGAIN \<Rightarrow> Some (0, c, sent)
        | Wr_errno _ \<Rightarrow> Some (- 1, c, sent)
      } else Some (1, c\<lparr>c_out := (c_out c)\<lparr>gb_len := 0\<rparr>, out_sent := 0\<rparr>, sent))"

text \<open>\<open>ctl\<close> is whether \<open>epoll_ctl\<close> succeeds.\<close>

definition conn_arm_write_interest :: "bool \<Rightarrow> bool \<Rightarrow> conn \<Rightarrow> server \<Rightarrow> server option" where
  "conn_arm_write_interest ctl want c s =
     (if want = want_write c then put_conn c s
      else put_conn (c\<lparr>want_write := want\<rparr>)
             (if ctl then s\<lparr>sv_epoll := (sv_epoll s)(c_fd c \<mapsto> want)\<rparr> else s))"

definition conn_service_output :: "bool \<Rightarrow> write_res list \<Rightarrow> conn \<Rightarrow> server \<Rightarrow> (server \<times> bytes) option" where
  "conn_service_output ctl ws c s = do {
     (rc, c, sent) \<leftarrow> conn_flush_output ws c [];
     s \<leftarrow> (if rc < 0 then conn_close c s
           else if rc = 0 then conn_arm_write_interest ctl True c s
           else if closing c then conn_close c s
           else conn_arm_write_interest ctl False c s);
     Some (s, sent)
   }"

section \<open>Handlers\<close>

text \<open>The read loop of \<open>handle_client_readable\<close>; \<open>True\<close> when the connection is to be closed at once.\<close>

primrec read_loop :: "read_res list \<Rightarrow> conn \<Rightarrow> (bool \<times> conn) option" where
  "read_loop [] c = Some (False, c)"
| "read_loop (r # rs) c =
     (case r of
        Rd d \<Rightarrow>
          if length d > 0 then
            (if gb_len (c_in c) + length d > MAX_CONN_INPUT_BUF then do {
               out \<leftarrow> resp_reply_error ''ERR input buffer limit exceeded'' (c_out c);
               Some (False, c\<lparr>c_out := out, closing := True\<rparr>)
             } else do {
               inb \<leftarrow> conn_in_append (c_in c) d;
               (if length d < READ_CHUNK then Some (False, c\<lparr>c_in := inb\<rparr>) else read_loop rs (c\<lparr>c_in := inb\<rparr>))
             })
          else Some (True, c)
      | Rd_errno EINTR \<Rightarrow> read_loop rs c
      | Rd_errno EAGAIN \<Rightarrow> Some (False, c)
      | Rd_errno _ \<Rightarrow> Some (True, c))"

definition handle_client_readable ::
    "world \<Rightarrow> bool \<Rightarrow> read_res list \<Rightarrow> write_res list \<Rightarrow> conn \<Rightarrow> server \<Rightarrow> (server \<times> bytes) option" where
  "handle_client_readable w ctl rs ws c s = do {
     (gone, c) \<leftarrow> read_loop rs c;
     if gone then do { s \<leftarrow> conn_close c s; Some (s, []) }
     else do {
       (st, c, i) \<leftarrow> (if \<not> closing c then conn_process_input w (sv_tick s) (sv_cmd s) c else Some (sv_cmd s, c, sv_tick s));
       conn_service_output ctl ws c (s\<lparr>sv_cmd := st, sv_tick := i\<rparr>)
     }
   }"

text \<open>An accepted descriptor comes with the outcome of its registration.\<close>

datatype accept_res = Acc nat bool | Acc_errno errno

primrec handle_listen_readable :: "accept_res list \<Rightarrow> server \<Rightarrow> server option" where
  "handle_listen_readable [] s = Some s"
| "handle_listen_readable (r # rs) s =
     (case r of
        Acc_errno EINTR \<Rightarrow> handle_listen_readable rs s
      | Acc_errno _ \<Rightarrow> Some s
      | Acc fd added \<Rightarrow> do {
          (c, s) \<leftarrow> conn_create fd (s\<lparr>sv_fds := insert fd (sv_fds s)\<rparr>);
          s \<leftarrow> (if added then Some (s\<lparr>sv_epoll := (sv_epoll s)(fd \<mapsto> False)\<rparr>) else conn_close c s);
          handle_listen_readable rs s
        })"

section \<open>The event loop\<close>

record event =
  ev_fd :: nat
  ev_hup :: bool
  ev_in :: bool
  ev_out :: bool
  ev_accepts :: "accept_res list"
  ev_reads :: "read_res list"
  ev_writes :: "write_res list"
  ev_writes_out :: "write_res list"
  ev_ctl :: bool

definition conn_at :: "server \<Rightarrow> nat \<Rightarrow> conn option" where
  "conn_at s fd = (if fd < length (g_conns s) then g_conns s ! fd else None)"

text \<open>One turn of the loop over the events, with the bytes written to the connection.\<close>

definition handle_event :: "world \<Rightarrow> event \<Rightarrow> server \<Rightarrow> (server \<times> bytes) option" where
  "handle_event w e s =
     (if ev_fd e = sv_listen s then do { s \<leftarrow> handle_listen_readable (ev_accepts e) s; Some (s, []) }
      else
        (case conn_at s (ev_fd e) of
           None \<Rightarrow> Some (s, [])
         | Some c \<Rightarrow>
             if ev_hup e then do { s \<leftarrow> conn_close c s; Some (s, []) }
             else do {
               (s, sent) \<leftarrow> (if ev_in e then handle_client_readable w (ev_ctl e) (ev_reads e) (ev_writes e) c s
                             else Some (s, []));
               (case conn_at s (ev_fd e) of
                  None \<Rightarrow> Some (s, sent)
                | Some c \<Rightarrow>
                    if ev_out e then do {
                      (s, sent') \<leftarrow> conn_service_output (ev_ctl e) (ev_writes_out e) c s;
                      Some (s, sent @ sent')
                    } else Some (s, sent))
             }))"

primrec handle_events :: "world \<Rightarrow> event list \<Rightarrow> server \<Rightarrow> (nat \<times> bytes) list \<Rightarrow> (server \<times> (nat \<times> bytes) list) option" where
  "handle_events w [] s wire = Some (s, wire)"
| "handle_events w (e # es) s wire = do {
     (s, sent) \<leftarrow> handle_event w e s;
     handle_events w es s (wire @ [(ev_fd e, sent)])
   }"

text \<open>
  The outcomes of \<open>epoll_wait\<close> up to the turn at which the loop finds \<open>g_shutdown_requested\<close> set.
\<close>

datatype wait_res = Events "event list" | Wait_errno errno

primrec event_loop :: "world \<Rightarrow> wait_res list \<Rightarrow> server \<Rightarrow> (nat \<times> bytes) list \<Rightarrow> (server \<times> (nat \<times> bytes) list) option" where
  "event_loop w [] s wire = Some (s, wire)"
| "event_loop w (x # xs) s wire =
     (case x of
        Events es \<Rightarrow> do { (s, wire) \<leftarrow> handle_events w es s wire; event_loop w xs s wire }
      | Wait_errno EINTR \<Rightarrow> event_loop w xs s wire
      | Wait_errno _ \<Rightarrow> Some (s, wire))"

section \<open>\<open>main\<close>\<close>

text \<open>The connections still open are closed in the order of their descriptors; then the store goes.\<close>

primrec close_all :: "nat list \<Rightarrow> server \<Rightarrow> server option" where
  "close_all [] s = Some s"
| "close_all (fd # fds) s =
     (case conn_at s fd of
        None \<Rightarrow> close_all fds s
      | Some c \<Rightarrow> do { s \<leftarrow> conn_close c s; close_all fds s })"

definition shutdown_cleanly :: "server \<Rightarrow> (server \<times> store_entry list) option" where
  "shutdown_cleanly s = do {
     s \<leftarrow> close_all [0..<length (g_conns s)] s;
     Some (s\<lparr>g_conns := [], sv_epoll := Map.empty\<rparr>, store_destroy (cs_store (sv_cmd s)))
   }"

datatype server_args = Usage | Args int "bytes option"

text \<open>The loop over \<open>argv[1..]\<close>.\<close>

fun main_args :: "bytes list \<Rightarrow> int \<Rightarrow> bytes option \<Rightarrow> server_args option" where
  "main_args [] port save_path = Some (Args port save_path)"
| "main_args (a # as) port save_path =
     (if is_save_flag a \<and> as \<noteq> [] then main_args (drop 1 as) port (Some (hd as))
      else do {
        port \<leftarrow> atoi a;
        if port \<le> 0 \<or> port > 65535 then Some Usage else main_args as port save_path
      })"

text \<open>The state when the event loop starts, the listening socket registered.\<close>

definition server_start :: "nat \<Rightarrow> cmd_state \<Rightarrow> server" where
  "server_start listen_fd st =
     \<lparr>sv_cmd = st, g_conns = [], sv_epoll = [listen_fd \<mapsto> False], sv_fds = {}, sv_listen = listen_fd, sv_tick = 0\<rparr>"

text \<open>
  \<open>main\<close> after the arguments are read: load, serve until asked to stop, save, clean up. The result is
  the outcome of the final save, the bytes written, the file system and the entries freed.
\<close>

record server_io =
  si_load_now :: int
  si_load :: load_io
  si_listen_fd :: nat
  si_waits :: "wait_res list"
  si_save_now :: int
  si_save_mem :: "nat \<Rightarrow> bool"
  si_save :: save_io

text \<open>From the event loop on, in the state \<open>st\<close> and with a listening socket.\<close>

definition server_serve ::
    "world \<Rightarrow> server_io \<Rightarrow> bytes option \<Rightarrow> cmd_state \<Rightarrow>
       (persist_status option \<times> (nat \<times> bytes) list \<times> fs \<times> server \<times> store_entry list) option" where
  "server_serve w io save_path st = do {
     (s, wire) \<leftarrow> event_loop w (si_waits io) (server_start (si_listen_fd io) st) [];
     (r, st) \<leftarrow> save_at_exit (si_save_now io) (si_save_mem io) (si_save io) save_path (sv_cmd s);
     (s, freed) \<leftarrow> shutdown_cleanly (s\<lparr>sv_cmd := st\<rparr>);
     Some (r, wire, cs_fs st, s, freed)
   }"

definition server_main ::
    "world \<Rightarrow> server_io \<Rightarrow> bytes option \<Rightarrow> fs \<Rightarrow>
       (persist_status option \<times> (nat \<times> bytes) list \<times> fs \<times> server \<times> store_entry list) option" where
  "server_main w io save_path fs = do {
     (_, st) \<leftarrow> load_at_start (si_load_now io) (si_load io) save_path fs;
     server_serve w io save_path st
   }"

section \<open>Buffers of a connection\<close>

interpretation conn_in: byte_fifo gb_wf gb_bytes conn_in_append conn_in_consume
proof
  show "\<exists>b'. conn_in_append b d = Some b' \<and> gb_wf b' \<and> gb_bytes b' = gb_bytes b @ d" if "gb_wf b" for b d
    using gb_append_ok [OF that, of 4096 d] by (simp add: conn_in_append_def)
  show "\<exists>b'. conn_in_consume b n = Some b' \<and> gb_wf b' \<and> gb_bytes b' = drop n (gb_bytes b)"
    if "gb_wf b" "n \<le> length (gb_bytes b)" for b n
    using gb_consume_ok [OF that] by (simp add: conn_in_consume_def)
qed

text \<open>What is still to be written.\<close>

definition pending :: "conn \<Rightarrow> bytes" where
  "pending c = drop (out_sent c) (gb_bytes (c_out c))"

definition conn_ok :: "conn \<Rightarrow> bool" where
  "conn_ok c \<longleftrightarrow> gb_wf (c_in c) \<and> gb_len (c_in c) \<le> MAX_CONN_INPUT_BUF \<and> gb_wf (c_out c) \<and> out_sent c \<le> gb_len (c_out c)"

section \<open>Input processing refines the reference\<close>

lemma conn_process_input_serve:
  assumes "gb_wf (c_in c)" and "\<not> closing c"
  shows "case serve w i (gb_bytes (c_in c)) st (c_out c) of
      None \<Rightarrow> conn_process_input w i st c = None
    | Some (st', out', i', r, e) \<Rightarrow> \<exists>inb. conn_process_input w i st c =
        Some (st', c\<lparr>c_in := inb, c_out := out', closing := (e \<noteq> None)\<rparr>, i') \<and> gb_wf inb \<and> gb_bytes inb = r"
  using assms
proof (induction "gb_len (c_in c)" arbitrary: i st c rule: less_induct)
  case less
  let ?b = "gb_bytes (c_in c)"
  note len = gb_len_bytes [OF less.prems(1)]
  have rdb: "gb_read (c_in c) 0 (gb_len (c_in c)) = Some ?b"
    using gb_read_ok [OF less.prems(1), of 0 "length ?b"] len by simp
  obtain s where s: "resp_parse (w_mem w i) ?b = Some s" using resp.parse_defined by blast
  show ?case
  proof (cases s)
    case (RESP_PARSE_OK argv n)
    with s have ok: "resp_parse (w_mem w i) ?b = Some (RESP_PARSE_OK argv n)" by simp
    note p = resp.parse_progress [OF ok]
    from conn_in.consume_law [OF less.prems(1), of n] p obtain inb where
      inb: "conn_in_consume (c_in c) n = Some inb" "gb_wf inb" "gb_bytes inb = drop n ?b" by auto
    have step: "conn_process_input w i st c = cmd_dispatch (w_env w i) argv st (c_out c) \<bind>
        (\<lambda>r. conn_process_input w (i + 1) (fst r) (c\<lparr>c_out := snd r, c_in := inb\<rparr>))"
      using p len rdb ok inb(1) less.prems(2) by (subst conn_process_input.simps) auto
    have l: "gb_len inb < gb_len (c_in c)" using p len gb_len_bytes [OF inb(2)] inb(3) by auto
    show ?thesis
    proof (cases "cmd_dispatch (w_env w i) argv st (c_out c)")
      case None
      then show ?thesis using step by (simp add: serve_ok [OF ok])
    next
      case (Some r1)
      obtain st1 out1 where r1: "r1 = (st1, out1)" by (cases r1)
      let ?c = "c\<lparr>c_out := out1, c_in := inb\<rparr>"
      have "gb_len (c_in ?c) < gb_len (c_in c)" "gb_wf (c_in ?c)" "\<not> closing ?c" using l inb(2) less.prems(2) by simp_all
      from less.hyps [OF this, of "i + 1" st1] have IH: "case serve w (i + 1) (drop n ?b) st1 out1 of
          None \<Rightarrow> conn_process_input w (i + 1) st1 ?c = None
        | Some (st', out', i', r, e) \<Rightarrow> \<exists>inb. conn_process_input w (i + 1) st1 ?c =
            Some (st', c\<lparr>c_in := inb, c_out := out', closing := (e \<noteq> None)\<rparr>, i') \<and> gb_wf inb \<and> gb_bytes inb = r"
        using inb(3) by (auto split: option.splits)
      have "conn_process_input w i st c = conn_process_input w (i + 1) st1 ?c"
        "serve w i ?b st (c_out c) = serve w (i + 1) (drop n ?b) st1 out1"
        using step Some r1 by (simp_all add: serve_ok [OF ok])
      with IH show ?thesis by (simp only:)
    qed
  next
    case RESP_PARSE_INCOMPLETE
    with s have inc: "resp_parse (w_mem w i) ?b = Some RESP_PARSE_INCOMPLETE" by simp
    have "conn_process_input w i st c = Some (st, c, i)"
      using less.prems(2) rdb inc by (subst conn_process_input.simps) simp
    with less.prems show ?thesis by (simp add: serve_incomplete [OF inc]) (intro exI [of _ "c_in c"], simp)
  next
    case (RESP_PARSE_ERROR e)
    with s have err: "resp_parse (w_mem w i) ?b = Some (RESP_PARSE_ERROR e)" by simp
    then have "?b \<noteq> []" using resp.parse_empty by auto
    then have "conn_process_input w i st c =
        resp_reply_error e (c_out c) \<bind> (\<lambda>out. Some (st, c\<lparr>c_out := out, closing := True\<rparr>, i))"
      using less.prems(2) rdb err len by (subst conn_process_input.simps) simp
    with less.prems show ?thesis
      by (cases "resp_reply_error e (c_out c)") (simp_all add: serve_error [OF err], intro exI [of _ "c_in c"], simp)
  qed
qed

section \<open>Flushing\<close>

lemma gb_reset: "gb_wf b \<Longrightarrow> gb_wf (b\<lparr>gb_len := 0\<rparr>) \<and> gb_bytes (b\<lparr>gb_len := 0\<rparr>) = []"
  by (simp add: gb_wf_def gb_bytes_def)

text \<open>Outcomes of \<open>write\<close> that leave the connection usable.\<close>

fun benign :: "write_res \<Rightarrow> bool" where
  "benign (Wr k) = (0 < k)"
| "benign (Wr_errno e) = (e = EINTR \<or> e = EAGAIN)"

text \<open>
  A flush writes the front of what is pending and keeps the rest; it returns 1 only when nothing is
  left, and 0 only when something is.
\<close>

lemma conn_flush_output_ok:
  assumes "gb_wf (c_out c)" and "out_sent c \<le> gb_len (c_out c)"
  shows "\<exists>rc out n d. conn_flush_output ws c sent = Some (rc, c\<lparr>c_out := out, out_sent := n\<rparr>, sent @ d) \<and>
    gb_wf out \<and> n \<le> gb_len out \<and> pending c = d @ drop n (gb_bytes out) \<and>
    (rc = 1 \<and> gb_len out = 0 \<or> rc = 0 \<and> n < gb_len out \<or> rc = - 1 \<and> \<not> list_all benign ws)"
  using assms
proof (induction ws arbitrary: c sent)
  case Nil
  note len = gb_len_bytes [OF Nil.prems(1)]
  show ?case
  proof (cases "out_sent c < gb_len (c_out c)")
    case True
    then show ?thesis
      using Nil.prems by (intro exI [of _ 0] exI [of _ "c_out c"] exI [of _ "out_sent c"] exI [of _ "[]"]) (simp add: pending_def)
  next
    case False
    then show ?thesis
      using Nil.prems gb_reset [OF Nil.prems(1)] len
      by (intro exI [of _ 1] exI [of _ "(c_out c)\<lparr>gb_len := 0\<rparr>"] exI [of _ 0] exI [of _ "[]"]) (simp add: pending_def)
  qed
next
  case (Cons r ws)
  note len = gb_len_bytes [OF Cons.prems(1)]
  show ?case
  proof (cases "out_sent c < gb_len (c_out c)")
    case False
    then show ?thesis
      using Cons.prems gb_reset [OF Cons.prems(1)] len
      by (intro exI [of _ 1] exI [of _ "(c_out c)\<lparr>gb_len := 0\<rparr>"] exI [of _ 0] exI [of _ "[]"]) (simp add: pending_def)
  next
    case True
    have rdo: "gb_read (c_out c) (out_sent c) (gb_len (c_out c) - out_sent c) = Some (pending c)"
      using gb_read_ok [OF Cons.prems(1), of "out_sent c" "gb_len (c_out c) - out_sent c"] True len by (simp add: pending_def)
    have stay: ?thesis if "conn_flush_output (r # ws) c sent = Some (rc, c, sent)" "rc = 0 \<or> rc = - 1 \<and> \<not> benign r" for rc
      using that Cons.prems True
      by (intro exI [of _ rc] exI [of _ "c_out c"] exI [of _ "out_sent c"] exI [of _ "[]"]) (auto simp: pending_def)
    show ?thesis
    proof (cases r)
      case (Wr k)
      let ?n = "min k (length (pending c))" and ?c = "c\<lparr>out_sent := out_sent c + min k (length (pending c))\<rparr>"
      show ?thesis
      proof (cases "0 < ?n")
        case False
        have "pending c \<noteq> []" using True len by (simp add: pending_def)
        with False Wr True rdo show ?thesis by (intro stay [of "- 1"]) auto
      next
        case pos: True
        then have step: "conn_flush_output (r # ws) c sent = conn_flush_output ws ?c (sent @ take ?n (pending c))"
          using Wr True rdo by (simp add: Let_def)
        have "out_sent ?c \<le> gb_len (c_out ?c)" using len True by (simp add: pending_def)
        from Cons.IH [of ?c, OF _ this, of "sent @ take ?n (pending c)"] Cons.prems(1) obtain rc out n d where
          h: "conn_flush_output ws ?c (sent @ take ?n (pending c)) =
              Some (rc, ?c\<lparr>c_out := out, out_sent := n\<rparr>, (sent @ take ?n (pending c)) @ d)"
            "gb_wf out" "n \<le> gb_len out" "pending ?c = d @ drop n (gb_bytes out)"
            "rc = 1 \<and> gb_len out = 0 \<or> rc = 0 \<and> n < gb_len out \<or> rc = - 1 \<and> \<not> list_all benign ws" by auto
        have "pending ?c = drop ?n (pending c)" by (simp add: pending_def add.commute)
        then have "pending c = (take ?n (pending c) @ d) @ drop n (gb_bytes out)"
          using append_take_drop_id [of ?n "pending c"] h(4) by (simp del: append_take_drop_id)
        with h step show ?thesis
          by (intro exI [of _ rc] exI [of _ out] exI [of _ n] exI [of _ "take ?n (pending c) @ d"]) auto
      qed
    next
      case (Wr_errno e)
      show ?thesis
      proof (cases e)
        case EINTR
        then have "conn_flush_output (r # ws) c sent = conn_flush_output ws c sent" using Wr_errno True rdo by simp
        with Cons.IH [OF Cons.prems] EINTR Wr_errno show ?thesis by simp
      next
        case EAGAIN
        with Wr_errno True rdo show ?thesis by (intro stay [of 0]) simp_all
      next
        case EMFILE
        with Wr_errno True rdo show ?thesis by (intro stay [of "- 1"]) simp_all
      next
        case EIO
        with Wr_errno True rdo show ?thesis by (intro stay [of "- 1"]) simp_all
      qed
    qed
  qed
qed

section \<open>Reading\<close>

text \<open>The reference for the read loop: the bytes it appends to the input, and how it ends.\<close>

datatype read_end = Drained | Gone | Over

primrec recv :: "read_res list \<Rightarrow> nat \<Rightarrow> bytes \<times> read_end" where
  "recv [] n = ([], Drained)"
| "recv (r # rs) n =
     (case r of
        Rd d \<Rightarrow>
          if d = [] then ([], Gone)
          else if n + length d > MAX_CONN_INPUT_BUF then ([], Over)
          else if length d < READ_CHUNK then (d, Drained)
          else (let (d', e) = recv rs (n + length d) in (d @ d', e))
      | Rd_errno EINTR \<Rightarrow> recv rs n
      | Rd_errno EAGAIN \<Rightarrow> ([], Drained)
      | Rd_errno _ \<Rightarrow> ([], Gone))"

definition limit_reply :: "read_end \<Rightarrow> reply list" where
  "limit_reply e = (if e = Over then [Err ''ERR input buffer limit exceeded''] else [])"

lemma recv_limit:
  "n \<le> MAX_CONN_INPUT_BUF \<Longrightarrow> recv rs n = (d, e) \<Longrightarrow> n + length d \<le> MAX_CONN_INPUT_BUF"
proof (induction rs arbitrary: n d)
  case Nil
  then show ?case by simp
next
  case (Cons r rs)
  show ?case
  proof (cases r)
    case (Rd x)
    show ?thesis
    proof (cases "x \<noteq> [] \<and> \<not> n + length x > MAX_CONN_INPUT_BUF \<and> \<not> length x < READ_CHUNK")
      case True
      with Rd Cons.prems(2) obtain d' where d': "recv rs (n + length x) = (d', e)" "d = x @ d'"
        by (auto split: prod.splits)
      from Cons.IH [OF _ d'(1)] True d'(2) show ?thesis by simp
    qed (use Rd Cons.prems in \<open>auto split: if_splits\<close>)
  next
    case (Rd_errno x)
    with Cons show ?thesis by (cases x) auto
  qed
qed

lemma read_loop_recv:
  assumes "gb_wf (c_in c)" and "gb_wf (c_out c)" and "recv rs (gb_len (c_in c)) = (d, e)"
  shows "\<exists>inb out. read_loop rs c = Some (e = Gone, c\<lparr>c_in := inb, c_out := out, closing := (closing c \<or> e = Over)\<rparr>) \<and>
    gb_wf inb \<and> gb_bytes inb = gb_bytes (c_in c) @ d \<and> gb_wf out \<and> (e \<noteq> Over \<longrightarrow> out = c_out c) \<and>
    gb_bytes out = gb_bytes (c_out c) @ concat (map enc_reply (limit_reply e))"
  using assms
proof (induction rs arbitrary: c d)
  case Nil
  then show ?case by (intro exI [of _ "c_in c"] exI [of _ "c_out c"]) (auto simp: limit_reply_def)
next
  case (Cons r rs)
  have same: ?case if "read_loop (r # rs) c = Some (e = Gone, c)" "d = []" "e \<noteq> Over"
    using that Cons.prems by (intro exI [of _ "c_in c"] exI [of _ "c_out c"]) (simp add: limit_reply_def)
  show ?case
  proof (cases r)
    case (Rd x)
    consider "x = []" | "x \<noteq> []" "gb_len (c_in c) + length x > MAX_CONN_INPUT_BUF"
      | "x \<noteq> []" "\<not> gb_len (c_in c) + length x > MAX_CONN_INPUT_BUF" by blast
    then show ?thesis
    proof cases
      case 1
      then show ?thesis using Rd Cons.prems by (intro same) auto
    next
      case 2
      have "appends (resp_reply_error ''ERR input buffer limit exceeded'') (enc_reply (Err ''ERR input buffer limit exceeded''))"
        using appends_error [of "''ERR input buffer limit exceeded''"] by (simp add: cstr_id)
      from appendsE [OF this Cons.prems(2)] obtain out where
        o: "resp_reply_error ''ERR input buffer limit exceeded'' (c_out c) = Some out" "gb_wf out"
          "gb_bytes out = gb_bytes (c_out c) @ enc_reply (Err ''ERR input buffer limit exceeded'')" .
      with 2 Rd Cons.prems show ?thesis
        by (intro exI [of _ "c_in c"] exI [of _ out]) (auto simp: limit_reply_def)
    next
      case 3
      from conn_in.append_law [OF Cons.prems(1), of x] obtain inb where
        inb: "conn_in_append (c_in c) x = Some inb" "gb_wf inb" "gb_bytes inb = gb_bytes (c_in c) @ x" by blast
      show ?thesis
      proof (cases "length x < READ_CHUNK")
        case True
        with 3 Rd Cons.prems inb show ?thesis
          by (intro exI [of _ inb] exI [of _ "c_out c"]) (auto simp: limit_reply_def)
      next
        case False
        let ?c = "c\<lparr>c_in := inb\<rparr>"
        have l: "gb_len inb = gb_len (c_in c) + length x"
          using gb_len_bytes [OF inb(2)] gb_len_bytes [OF Cons.prems(1)] inb(3) by simp
        obtain d' where d': "recv rs (gb_len (c_in ?c)) = (d', e)" "d = x @ d'"
          using Cons.prems(3) 3 False Rd l by (auto split: prod.splits)
        from Cons.IH [of ?c d', OF _ _ d'(1)] inb(2) Cons.prems(2) obtain inb' out where
          "read_loop rs ?c = Some (e = Gone, ?c\<lparr>c_in := inb', c_out := out, closing := (closing c \<or> e = Over)\<rparr>)"
          "gb_wf inb'" "gb_bytes inb' = gb_bytes inb @ d'" "gb_wf out" "e \<noteq> Over \<longrightarrow> out = c_out c"
          "gb_bytes out = gb_bytes (c_out c) @ concat (map enc_reply (limit_reply e))" by auto
        with 3 False Rd inb d'(2) show ?thesis by (intro exI [of _ inb'] exI [of _ out]) simp
      qed
    qed
  next
    case (Rd_errno x)
    show ?thesis
    proof (cases x)
      case EINTR
      with Rd_errno Cons.IH [OF Cons.prems(1,2), of d] Cons.prems(3) show ?thesis by simp
    qed (use Rd_errno Cons.prems in \<open>intro same; simp\<close>)+
  qed
qed

section \<open>The invariant of the server\<close>

text \<open>
  Between two events a connection with unsent output has \<open>EPOLLOUT\<close> armed; one that is about to close
  has output left to flush; and the unparsed input of an open connection is an incomplete command.
\<close>

definition conn_settled :: "conn \<Rightarrow> bool" where
  "conn_settled c \<longleftrightarrow>
     (if want_write c then out_sent c < gb_len (c_out c)
      else gb_len (c_out c) = 0 \<and> out_sent c = 0 \<and> \<not> closing c) \<and>
     (closing c \<or> (\<exists>mem. resp_parse mem (gb_bytes (c_in c)) = Some RESP_PARSE_INCOMPLETE))"

definition table_inv :: "server \<Rightarrow> bool" where
  "table_inv s \<longleftrightarrow> sv_fds s = {fd. conn_at s fd \<noteq> None} \<and> sv_listen s \<notin> sv_fds s \<and>
     (\<forall>fd c. conn_at s fd = Some c \<longrightarrow> c_fd c = fd) \<and>
     (\<forall>fd. sv_epoll s fd = (if fd = sv_listen s then Some False else map_option want_write (conn_at s fd)))"

definition server_inv :: "server \<Rightarrow> bool" where
  "server_inv s \<longleftrightarrow> cmd_inv (sv_cmd s) \<and> table_inv s \<and>
     (\<forall>fd c. conn_at s fd = Some c \<longrightarrow> conn_ok c \<and> conn_settled c)"

text \<open>The table as a map.\<close>

lemma conn_at_ensure [simp]: "conn_at (conns_table_ensure fd s) = conn_at s"
proof
  fix k
  show "conn_at (conns_table_ensure fd s) k = conn_at s k"
    by (auto simp: conns_table_ensure_def conn_at_def Let_def nth_append)
qed

lemma ensure_fields [simp]:
  "sv_cmd (conns_table_ensure fd s) = sv_cmd s" "sv_epoll (conns_table_ensure fd s) = sv_epoll s"
  "sv_fds (conns_table_ensure fd s) = sv_fds s" "sv_listen (conns_table_ensure fd s) = sv_listen s"
  "sv_tick (conns_table_ensure fd s) = sv_tick s"
  by (simp_all add: conns_table_ensure_def Let_def)

text \<open>After it the descriptor has a cell.\<close>

lemma ensure_room: "fd < length (g_conns (conns_table_ensure fd s))"
proof -
  let ?c = "if length (g_conns s) \<noteq> 0 then length (g_conns s) * 2 else 64"
  have "fd + 1 \<le> double_until (fd + 1) ?c" by (rule double_until_ge) simp
  then show ?thesis by (auto simp: conns_table_ensure_def Let_def)
qed

lemma put_conn_ok:
  assumes "c_fd c < length (g_conns s)"
  shows "\<exists>s'. put_conn c s = Some s' \<and> s' = s\<lparr>g_conns := g_conns s'\<rparr> \<and> conn_at s' = (conn_at s)(c_fd c \<mapsto> c)"
  using assms by (auto simp: put_conn_def conn_at_def fun_eq_iff)

lemma conn_close_ok:
  assumes "c_fd c < length (g_conns s)" and "c_fd c \<in> sv_fds s"
  shows "\<exists>s'. conn_close c s = Some s' \<and> conn_at s' = (conn_at s)(c_fd c := None) \<and> sv_cmd s' = sv_cmd s \<and>
    sv_epoll s' = (sv_epoll s)(c_fd c := None) \<and> sv_fds s' = sv_fds s - {c_fd c} \<and> sv_listen s' = sv_listen s \<and> sv_tick s' = sv_tick s"
  using assms by (auto simp: conn_close_def conn_at_def fun_eq_iff)

lemma conn_at_length: "conn_at s fd = Some c \<Longrightarrow> fd < length (g_conns s)"
  by (auto simp: conn_at_def split: if_splits)

definition others_ok :: "server \<Rightarrow> nat \<Rightarrow> bool" where
  "others_ok s fd \<longleftrightarrow> (\<forall>fd' c'. fd' \<noteq> fd \<longrightarrow> conn_at s fd' = Some c' \<longrightarrow> conn_ok c' \<and> conn_settled c')"

lemma server_inv_split:
  "server_inv s \<longleftrightarrow> cmd_inv (sv_cmd s) \<and> table_inv s \<and> others_ok s fd \<and>
     (\<forall>c. conn_at s fd = Some c \<longrightarrow> conn_ok c \<and> conn_settled c)"
  by (auto simp: server_inv_def others_ok_def)

text \<open>Closing a connection in the table keeps the rest.\<close>

lemma conn_close_inv:
  assumes "table_inv s" and "conn_at s (c_fd c) \<noteq> None" and "others_ok s (c_fd c)" and "cmd_inv (sv_cmd s)"
  shows "\<exists>s'. conn_close c s = Some s' \<and> server_inv s' \<and> conn_at s' = (conn_at s)(c_fd c := None) \<and>
    sv_cmd s' = sv_cmd s \<and> sv_tick s' = sv_tick s \<and> sv_listen s' = sv_listen s"
proof -
  obtain c0 where c0: "conn_at s (c_fd c) = Some c0" using assms(2) by blast
  then have "c_fd c \<in> sv_fds s" "sv_listen s \<noteq> c_fd c" using assms(1) by (auto simp: table_inv_def)
  from conn_close_ok [OF conn_at_length [OF c0] this(1)] obtain s' where
    s': "conn_close c s = Some s'" "conn_at s' = (conn_at s)(c_fd c := None)" "sv_cmd s' = sv_cmd s"
      "sv_epoll s' = (sv_epoll s)(c_fd c := None)" "sv_fds s' = sv_fds s - {c_fd c}" "sv_listen s' = sv_listen s"
      "sv_tick s' = sv_tick s" by blast
  have "table_inv s'"
    using assms(1) s' \<open>sv_listen s \<noteq> c_fd c\<close> by (auto simp: table_inv_def)
  with assms(3,4) s' have "server_inv s'" by (auto simp: server_inv_split [of s' "c_fd c"] others_ok_def)
  with s' show ?thesis by blast
qed

text \<open>Setting the write interest of a connection, when \<open>epoll_ctl\<close> succeeds.\<close>

lemma conn_arm_inv:
  assumes "table_inv s" and "conn_at s (c_fd c) = Some c0" and "want_write c0 = want_write c"
    and "others_ok s (c_fd c)" and "cmd_inv (sv_cmd s)"
    and "conn_ok (c\<lparr>want_write := want\<rparr>)" and "conn_settled (c\<lparr>want_write := want\<rparr>)"
  shows "\<exists>s'. conn_arm_write_interest True want c s = Some s' \<and> server_inv s' \<and>
    conn_at s' = (conn_at s)(c_fd c \<mapsto> c\<lparr>want_write := want\<rparr>) \<and>
    sv_cmd s' = sv_cmd s \<and> sv_tick s' = sv_tick s \<and> sv_listen s' = sv_listen s"
proof -
  let ?c = "c\<lparr>want_write := want\<rparr>" and ?s = "s\<lparr>sv_epoll := (sv_epoll s)(c_fd c \<mapsto> want)\<rparr>"
  have fd: "c_fd c \<in> sv_fds s" "sv_listen s \<noteq> c_fd c" using assms(1,2) by (auto simp: table_inv_def)
  have "sv_epoll s (c_fd c) = Some (want_write c)" using assms(1-3) fd(2) by (simp add: table_inv_def)
  then have "want = want_write c \<Longrightarrow> ?s = s" by (simp add: fun_upd_idem)
  then have arm: "conn_arm_write_interest True want c s = put_conn ?c ?s"
    by (cases "want = want_write c") (simp_all add: conn_arm_write_interest_def)
  have at: "conn_at ?s = conn_at s" by (simp add: conn_at_def fun_eq_iff)
  have "c_fd ?c < length (g_conns ?s)" using conn_at_length [OF assms(2)] by simp
  from put_conn_ok [OF this] obtain s' where
    s': "put_conn ?c ?s = Some s'" "s' = ?s\<lparr>g_conns := g_conns s'\<rparr>" "conn_at s' = (conn_at s)(c_fd c \<mapsto> ?c)"
    unfolding at by auto
  have f: "sv_cmd s' = sv_cmd s" "sv_tick s' = sv_tick s" "sv_listen s' = sv_listen s" "sv_fds s' = sv_fds s"
    "sv_epoll s' = (sv_epoll s)(c_fd c \<mapsto> want)"
    by (subst s'(2); simp)+
  have "table_inv s'" using assms(1,2) fd s'(3) f by (auto simp: table_inv_def)
  with assms(4-7) s'(3) f have "server_inv s'" by (auto simp: server_inv_split [of s' "c_fd c"] others_ok_def)
  with arm s' f show ?thesis by auto
qed

text \<open>
  Servicing the output: what is written is the front of what was pending; if the connection stays
  open the rest is still pending, with \<open>EPOLLOUT\<close> armed exactly when it is not empty.
\<close>

lemma conn_service_output_inv:
  assumes "table_inv s" and "conn_at s (c_fd c) = Some c0" and "want_write c0 = want_write c"
    and "others_ok s (c_fd c)" and "cmd_inv (sv_cmd s)" and "conn_ok c"
    and "closing c \<or> (\<exists>mem. resp_parse mem (gb_bytes (c_in c)) = Some RESP_PARSE_INCOMPLETE)"
  shows "\<exists>s' sent rest. conn_service_output True ws c s = Some (s', sent) \<and> server_inv s' \<and> pending c = sent @ rest \<and>
    (\<forall>fd. fd \<noteq> c_fd c \<longrightarrow> conn_at s' fd = conn_at s fd) \<and>
    sv_cmd s' = sv_cmd s \<and> sv_tick s' = sv_tick s \<and> sv_listen s' = sv_listen s \<and>
    (\<forall>c'. conn_at s' (c_fd c) = Some c' \<longrightarrow> c_in c' = c_in c \<and> closing c' = closing c \<and> pending c' = rest) \<and>
    (list_all benign ws \<longrightarrow> \<not> closing c \<longrightarrow> conn_at s' (c_fd c) \<noteq> None)"
proof -
  from assms(6) have "gb_wf (c_out c)" "out_sent c \<le> gb_len (c_out c)" by (simp_all add: conn_ok_def)
  from conn_flush_output_ok [OF this, of ws "[]"] obtain rc out n d where
    f: "conn_flush_output ws c [] = Some (rc, c\<lparr>c_out := out, out_sent := n\<rparr>, d)" "gb_wf out" "n \<le> gb_len out"
      "pending c = d @ drop n (gb_bytes out)" "rc = 1 \<and> gb_len out = 0 \<or> rc = 0 \<and> n < gb_len out \<or> rc = - 1 \<and> \<not> list_all benign ws" by auto
  let ?c = "c\<lparr>c_out := out, out_sent := n\<rparr>"
  have ok: "conn_ok (?c\<lparr>want_write := b\<rparr>)" for b using assms(6) f(2,3) by (simp add: conn_ok_def)
  have pen: "pending (?c\<lparr>want_write := b\<rparr>) = drop n (gb_bytes out)" for b by (simp add: pending_def)
  consider (close) "rc = - 1 \<and> \<not> list_all benign ws \<or> rc = 1 \<and> closing c"
    | (keep) "rc = 0 \<and> n < gb_len out \<or> rc = 1 \<and> gb_len out = 0 \<and> \<not> closing c"
    using f(5) by auto
  then show ?thesis
  proof cases
    case close
    from conn_close_inv [of s ?c] assms(1,2,4,5) obtain s' where
      s': "conn_close ?c s = Some s'" "server_inv s'" "conn_at s' = (conn_at s)(c_fd c := None)" "sv_cmd s' = sv_cmd s"
        "sv_tick s' = sv_tick s" "sv_listen s' = sv_listen s" by auto
    have "conn_service_output True ws c s = Some (s', d)" using close f(1) s'(1) by (auto simp: conn_service_output_def)
    with s' f(4) close show ?thesis by (intro exI [of _ s'] exI [of _ d] exI [of _ "drop n (gb_bytes out)"]) auto
  next
    case keep
    let ?w = "rc = 0"
    have "conn_settled (?c\<lparr>want_write := ?w\<rparr>)" using keep assms(7) f(3) by (auto simp: conn_settled_def)
    from conn_arm_inv [of s ?c c0 ?w, OF assms(1) _ _ _ assms(5) ok this] assms(2-4) obtain s' where
      s': "conn_arm_write_interest True ?w ?c s = Some s'" "server_inv s'"
        "conn_at s' = (conn_at s)(c_fd c \<mapsto> ?c\<lparr>want_write := ?w\<rparr>)" "sv_cmd s' = sv_cmd s"
        "sv_tick s' = sv_tick s" "sv_listen s' = sv_listen s" by auto
    have "conn_service_output True ws c s = Some (s', d)" using keep f(1) s'(1) by (auto simp: conn_service_output_def)
    with s' f(4) pen show ?thesis by (intro exI [of _ s'] exI [of _ d] exI [of _ "drop n (gb_bytes out)"]) simp
  qed
qed

section \<open>Handlers\<close>

lemma server_inv_conn:
  assumes "server_inv s" and "conn_at s fd = Some c"
  shows "c_fd c = fd" "conn_ok c" "conn_settled c" "table_inv s" "others_ok s fd" "cmd_inv (sv_cmd s)"
  using assms by (auto simp: server_inv_def table_inv_def others_ok_def)

lemma state_update [simp]:
  "conn_at (s\<lparr>sv_cmd := a, sv_tick := b\<rparr>) = conn_at s" "table_inv (s\<lparr>sv_cmd := a, sv_tick := b\<rparr>) = table_inv s"
  "others_ok (s\<lparr>sv_cmd := a, sv_tick := b\<rparr>) fd = others_ok s fd"
proof -
  show at: "conn_at (s\<lparr>sv_cmd := a, sv_tick := b\<rparr>) = conn_at s" by (simp add: conn_at_def fun_eq_iff)
  show "table_inv (s\<lparr>sv_cmd := a, sv_tick := b\<rparr>) = table_inv s" unfolding table_inv_def at by simp
  show "others_ok (s\<lparr>sv_cmd := a, sv_tick := b\<rparr>) fd = others_ok s fd" unfolding others_ok_def at by simp
qed

text \<open>Bytes that end a readable event with the input drained: the reference is what happens.\<close>

lemma readable_serve:
  assumes "server_inv s" and "conn_at s fd = Some c" and "\<not> closing c" and "recv rs (gb_len (c_in c)) = (d, Drained)"
    and "serve w (sv_tick s) (gb_bytes (c_in c) @ d) (sv_cmd s) (c_out c) = Some (st', out', i', r, pe)"
    and "cmd_inv st'" and "gb_wf out'" and "gb_bytes out' = gb_bytes (c_out c) @ x"
  shows "\<exists>s' sent rest. handle_client_readable w True rs ws c s = Some (s', sent) \<and> server_inv s' \<and>
    pending c @ x = sent @ rest \<and> (\<forall>fd'. fd' \<noteq> fd \<longrightarrow> conn_at s' fd' = conn_at s fd') \<and>
    sv_cmd s' = st' \<and> sv_tick s' = i' \<and> sv_listen s' = sv_listen s \<and>
    (\<forall>c'. conn_at s' fd = Some c' \<longrightarrow> gb_bytes (c_in c') = r \<and> closing c' = (pe \<noteq> None) \<and> pending c' = rest) \<and>
    (list_all benign ws \<longrightarrow> pe = None \<longrightarrow> conn_at s' fd \<noteq> None)"
proof -
  note c = server_inv_conn [OF assms(1,2)]
  have wf: "gb_wf (c_in c)" "gb_wf (c_out c)" "gb_len (c_in c) \<le> MAX_CONN_INPUT_BUF" "out_sent c \<le> gb_len (c_out c)"
    using c(2) by (simp_all add: conn_ok_def)
  note len = gb_len_bytes [OF wf(1)] gb_len_bytes [OF wf(2)]
  have "c\<lparr>c_in := b, closing := False\<rparr> = c\<lparr>c_in := b\<rparr>" for b using assms(3) by (cases c) simp
  with read_loop_recv [OF wf(1,2) assms(4)] obtain inb where
    rl: "read_loop rs c = Some (False, c\<lparr>c_in := inb\<rparr>)" "gb_wf inb" "gb_bytes inb = gb_bytes (c_in c) @ d"
    using assms(3) by auto
  from conn_process_input_serve [of "c\<lparr>c_in := inb\<rparr>" w "sv_tick s" "sv_cmd s"] rl(2,3) assms(3,5) obtain inb' where
    p: "conn_process_input w (sv_tick s) (sv_cmd s) (c\<lparr>c_in := inb\<rparr>) =
        Some (st', c\<lparr>c_in := inb', c_out := out', closing := (pe \<noteq> None)\<rparr>, i')" "gb_wf inb'" "gb_bytes inb' = r" by auto
  let ?c = "c\<lparr>c_in := inb', c_out := out', closing := (pe \<noteq> None)\<rparr>" and ?s = "s\<lparr>sv_cmd := st', sv_tick := i'\<rparr>"
  have "length r \<le> MAX_CONN_INPUT_BUF"
    using serve_left(1) [OF assms(5)] recv_limit [OF wf(3) assms(4)] len by simp
  then have ok: "conn_ok ?c"
    using p(2,3) assms(7,8) wf(4) len gb_len_bytes [OF p(2)] gb_len_bytes [OF assms(7)] by (simp add: conn_ok_def)
  have left: "closing ?c \<or> (\<exists>mem. resp_parse mem (gb_bytes (c_in ?c)) = Some RESP_PARSE_INCOMPLETE)"
    using serve_left(2) [OF assms(5)] p(3) by auto
  have "table_inv ?s" "others_ok ?s (c_fd ?c)" using c by simp_all
  from conn_service_output_inv [of ?s ?c c, OF this(1) _ _ this(2) _ ok left, of ws] c(1) assms(2,6)
  obtain s' sent rest where s': "conn_service_output True ws ?c ?s = Some (s', sent)" "server_inv s'" "pending ?c = sent @ rest"
      "\<forall>fd'. fd' \<noteq> fd \<longrightarrow> conn_at s' fd' = conn_at s fd'" "sv_cmd s' = st'" "sv_tick s' = i'" "sv_listen s' = sv_listen s"
      "\<forall>c'. conn_at s' fd = Some c' \<longrightarrow> c_in c' = inb' \<and> closing c' = (pe \<noteq> None) \<and> pending c' = rest"
      "list_all benign ws \<longrightarrow> pe = None \<longrightarrow> conn_at s' fd \<noteq> None" by auto
  have "pending ?c = pending c @ x" using assms(8) wf(4) len by (simp add: pending_def)
  moreover have "handle_client_readable w True rs ws c s = Some (s', sent)"
    using rl(1) p(1) s'(1) assms(3) by (simp add: handle_client_readable_def)
  ultimately show ?thesis using s' p(3) by (intro exI [of _ s'] exI [of _ sent] exI [of _ rest]) auto
qed

text \<open>The peer is gone: the connection is closed and nothing else happens.\<close>

lemma readable_gone:
  assumes "server_inv s" and "conn_at s fd = Some c" and "recv rs (gb_len (c_in c)) = (d, Gone)"
  shows "\<exists>s'. handle_client_readable w ctl rs ws c s = Some (s', []) \<and> server_inv s' \<and> conn_at s' = (conn_at s)(fd := None) \<and>
    sv_cmd s' = sv_cmd s \<and> sv_tick s' = sv_tick s \<and> sv_listen s' = sv_listen s"
proof -
  note c = server_inv_conn [OF assms(1,2)]
  have wf: "gb_wf (c_in c)" "gb_wf (c_out c)" using c(2) by (simp_all add: conn_ok_def)
  from read_loop_recv [OF this assms(3)] obtain inb where
    rl: "read_loop rs c = Some (True, c\<lparr>c_in := inb\<rparr>)" by auto
  from conn_close_inv [of s "c\<lparr>c_in := inb\<rparr>"] c assms(2) rl show ?thesis
    by (auto simp: handle_client_readable_def)
qed

text \<open>Nothing more is executed for a connection over its limit or already closing.\<close>

lemma readable_closing:
  assumes "server_inv s" and "conn_at s fd = Some c" and "recv rs (gb_len (c_in c)) = (d, e)" and "e \<noteq> Gone"
    and "closing c \<or> e = Over"
  shows "\<exists>s' sent rest. handle_client_readable w True rs ws c s = Some (s', sent) \<and> server_inv s' \<and>
    pending c @ concat (map enc_reply (limit_reply e)) = sent @ rest \<and>
    (\<forall>fd'. fd' \<noteq> fd \<longrightarrow> conn_at s' fd' = conn_at s fd') \<and>
    sv_cmd s' = sv_cmd s \<and> sv_tick s' = sv_tick s \<and> sv_listen s' = sv_listen s \<and>
    (\<forall>c'. conn_at s' fd = Some c' \<longrightarrow> closing c' \<and> pending c' = rest)"
proof -
  note c = server_inv_conn [OF assms(1,2)]
  have wf: "gb_wf (c_in c)" "gb_wf (c_out c)" "gb_len (c_in c) \<le> MAX_CONN_INPUT_BUF" "out_sent c \<le> gb_len (c_out c)"
    using c(2) by (simp_all add: conn_ok_def)
  note len = gb_len_bytes [OF wf(1)] gb_len_bytes [OF wf(2)]
  from read_loop_recv [OF wf(1,2) assms(3)] obtain inb out where
    rl: "read_loop rs c = Some (False, c\<lparr>c_in := inb, c_out := out, closing := True\<rparr>)" "gb_wf inb"
      "gb_bytes inb = gb_bytes (c_in c) @ d" "gb_wf out"
      "gb_bytes out = gb_bytes (c_out c) @ concat (map enc_reply (limit_reply e))"
    using assms(4,5) by auto
  let ?c = "c\<lparr>c_in := inb, c_out := out, closing := True\<rparr>"
  have ok: "conn_ok ?c"
    using rl recv_limit [OF wf(3) assms(3)] wf(4) len gb_len_bytes [OF rl(2)] gb_len_bytes [OF rl(4)] by (simp add: conn_ok_def)
  have "pending ?c = pending c @ concat (map enc_reply (limit_reply e))" using rl(5) wf(4) len by (simp add: pending_def)
  with conn_service_output_inv [of s ?c c, OF c(4) _ _ _ c(6) ok, of ws] c(1,5) assms(2) rl(1) show ?thesis
    by (auto simp: handle_client_readable_def)
qed

text \<open>
  What is documented of \<open>accept4\<close> and \<open>epoll_ctl\<close>: a new descriptor is not one that is open, and changing
  the events of a registered descriptor succeeds.
\<close>

primrec fresh_accepts :: "nat set \<Rightarrow> accept_res list \<Rightarrow> bool" where
  "fresh_accepts open_fds [] = True"
| "fresh_accepts open_fds (r # rs) =
     (case r of
        Acc fd added \<Rightarrow> fd \<notin> open_fds \<and> fresh_accepts (if added then insert fd open_fds else open_fds) rs
      | Acc_errno _ \<Rightarrow> fresh_accepts open_fds rs)"

definition event_ok :: "event \<Rightarrow> server \<Rightarrow> bool" where
  "event_ok e s \<longleftrightarrow> ev_ctl e \<and> fresh_accepts (insert (sv_listen s) (sv_fds s)) (ev_accepts e)"

lemma conn_create_ok:
  assumes "server_inv s" and "fd \<notin> insert (sv_listen s) (sv_fds s)"
  shows "\<exists>c s1. conn_create fd (s\<lparr>sv_fds := insert fd (sv_fds s)\<rparr>) = Some (c, s1) \<and> c_fd c = fd \<and>
    conn_ok c \<and> conn_settled c \<and> \<not> want_write c \<and> conn_at s1 = (conn_at s)(fd \<mapsto> c) \<and>
    sv_cmd s1 = sv_cmd s \<and> sv_tick s1 = sv_tick s \<and> sv_listen s1 = sv_listen s \<and>
    sv_fds s1 = insert fd (sv_fds s) \<and> sv_epoll s1 = sv_epoll s"
proof -
  let ?c = "\<lparr>c_fd = fd, c_in = gb_null, c_out = resp_buf_init, out_sent = 0, closing = False, want_write = False\<rparr>"
  let ?s = "conns_table_ensure fd (s\<lparr>sv_fds := insert fd (sv_fds s)\<rparr>)"
  have at: "conn_at ?s = conn_at s" by (simp add: conn_at_def fun_eq_iff)
  have "c_fd ?c < length (g_conns ?s)" using ensure_room by simp
  from put_conn_ok [OF this] obtain s1 where
    s1: "put_conn ?c ?s = Some s1" "s1 = ?s\<lparr>g_conns := g_conns s1\<rparr>" "conn_at s1 = (conn_at s)(fd \<mapsto> ?c)"
    unfolding at by auto
  have f: "sv_cmd s1 = sv_cmd s" "sv_tick s1 = sv_tick s" "sv_listen s1 = sv_listen s"
    "sv_fds s1 = insert fd (sv_fds s)" "sv_epoll s1 = sv_epoll s"
    by (subst s1(2); simp)+
  have "conn_ok ?c" by (simp add: conn_ok_def) (simp add: gb_null_def)
  moreover have "conn_settled ?c"
    using resp.parse_empty by (auto simp: conn_settled_def resp_buf_init_def)
  ultimately show ?thesis using s1 f by (intro exI [of _ ?c] exI [of _ s1]) (simp add: conn_create_def)
qed

text \<open>One accepted connection, registered or dropped again.\<close>

lemma accept_one:
  assumes "server_inv s" and "fd \<notin> insert (sv_listen s) (sv_fds s)"
  shows "\<exists>c s1 s2. conn_create fd (s\<lparr>sv_fds := insert fd (sv_fds s)\<rparr>) = Some (c, s1) \<and>
    (if added then Some (s1\<lparr>sv_epoll := (sv_epoll s1)(fd \<mapsto> False)\<rparr>) else conn_close c s1) = Some s2 \<and>
    server_inv s2 \<and> sv_cmd s2 = sv_cmd s \<and> sv_tick s2 = sv_tick s \<and> sv_listen s2 = sv_listen s \<and>
    sv_fds s2 = (if added then insert fd (sv_fds s) else sv_fds s) \<and> conn_at s \<subseteq>\<^sub>m conn_at s2"
proof -
  have inv: "cmd_inv (sv_cmd s)" "table_inv s" "\<And>fd c. conn_at s fd = Some c \<Longrightarrow> conn_ok c \<and> conn_settled c"
    using assms(1) by (auto simp: server_inv_def)
  have free: "conn_at s fd = None" "sv_epoll s fd = None" using inv(2) assms(2) by (auto simp: table_inv_def)
  from conn_create_ok [OF assms] obtain c s1 where
    c: "conn_create fd (s\<lparr>sv_fds := insert fd (sv_fds s)\<rparr>) = Some (c, s1)" "c_fd c = fd" "conn_ok c" "conn_settled c"
      "\<not> want_write c" "conn_at s1 = (conn_at s)(fd \<mapsto> c)" "sv_cmd s1 = sv_cmd s" "sv_tick s1 = sv_tick s"
      "sv_listen s1 = sv_listen s" "sv_fds s1 = insert fd (sv_fds s)" "sv_epoll s1 = sv_epoll s" by blast
  show ?thesis
  proof (cases added)
    case True
    let ?s2 = "s1\<lparr>sv_epoll := (sv_epoll s1)(fd \<mapsto> False)\<rparr>"
    have at: "conn_at ?s2 = (conn_at s)(fd \<mapsto> c)" unfolding c(6) [symmetric] by (simp add: conn_at_def fun_eq_iff)
    have "table_inv ?s2" using inv(2) c assms(2) free at by (auto simp: table_inv_def)
    then have "server_inv ?s2" using inv(1,3) c(3,4,7) at by (simp add: server_inv_def)
    with True c at free(1) show ?thesis by (auto simp: map_le_def)
  next
    case False
    have l: "c_fd c < length (g_conns s1)" "c_fd c \<in> sv_fds s1" using conn_at_length [of s1 fd c] c(2,6,10) by simp_all
    from conn_close_ok [OF this] obtain s2 where
      s2: "conn_close c s1 = Some s2" "conn_at s2 = (conn_at s1)(fd := None)" "sv_cmd s2 = sv_cmd s1"
        "sv_epoll s2 = (sv_epoll s1)(fd := None)" "sv_fds s2 = sv_fds s1 - {fd}" "sv_listen s2 = sv_listen s1" "sv_tick s2 = sv_tick s1"
      unfolding c(2) by blast
    have at: "conn_at s2 = conn_at s" "sv_epoll s2 = sv_epoll s" "sv_fds s2 = sv_fds s"
      using s2 c(6,10,11) free assms(2) by (simp_all add: fun_upd_idem)
    have "server_inv s2" using assms(1) unfolding server_inv_def table_inv_def at s2(3,6) c(7,9) .
    with False c(1,7-9) s2 at show ?thesis by auto
  qed
qed

lemma handle_listen_ok:
  assumes "server_inv s" and "fresh_accepts (insert (sv_listen s) (sv_fds s)) rs"
  shows "\<exists>s'. handle_listen_readable rs s = Some s' \<and> server_inv s' \<and> sv_cmd s' = sv_cmd s \<and> sv_tick s' = sv_tick s \<and>
    sv_listen s' = sv_listen s \<and> conn_at s \<subseteq>\<^sub>m conn_at s'"
  using assms
proof (induction rs arbitrary: s)
  case Nil
  then show ?case by simp
next
  case (Cons r rs)
  show ?case
  proof (cases r)
    case (Acc fd added)
    with Cons.prems(2) have fd: "fd \<notin> insert (sv_listen s) (sv_fds s)" by simp
    from accept_one [OF Cons.prems(1) fd, of added] obtain c s1 s2 where
      s2: "conn_create fd (s\<lparr>sv_fds := insert fd (sv_fds s)\<rparr>) = Some (c, s1)"
        "(if added then Some (s1\<lparr>sv_epoll := (sv_epoll s1)(fd \<mapsto> False)\<rparr>) else conn_close c s1) = Some s2"
        "server_inv s2" "sv_cmd s2 = sv_cmd s" "sv_tick s2 = sv_tick s" "sv_listen s2 = sv_listen s"
        "sv_fds s2 = (if added then insert fd (sv_fds s) else sv_fds s)" "conn_at s \<subseteq>\<^sub>m conn_at s2" by blast
    have "handle_listen_readable (r # rs) s = handle_listen_readable rs s2" using Acc s2(1,2) by simp
    moreover have "fresh_accepts (insert (sv_listen s2) (sv_fds s2)) rs"
      using Cons.prems(2) Acc s2(6,7) by (auto simp: insert_commute split: if_splits)
    from Cons.IH [OF s2(3) this] obtain s' where
      "handle_listen_readable rs s2 = Some s'" "server_inv s'" "sv_cmd s' = sv_cmd s2" "sv_tick s' = sv_tick s2"
      "sv_listen s' = sv_listen s2" "conn_at s2 \<subseteq>\<^sub>m conn_at s'" by blast
    ultimately show ?thesis using s2(4-6) map_le_trans [OF s2(8)] by auto
  next
    case (Acc_errno x)
    with Cons show ?thesis by (cases x) auto
  qed
qed

section \<open>Events\<close>

text \<open>The commands that an event makes the server execute.\<close>

definition read_cmds :: "world \<Rightarrow> read_res list \<Rightarrow> conn \<Rightarrow> nat \<Rightarrow> bytes list list" where
  "read_cmds w rs c i =
     (let (d, e) = recv rs (gb_len (c_in c)) in
      if closing c \<or> e \<noteq> Drained then [] else fst (requests w i (gb_bytes (c_in c) @ d)))"

definition event_cmds :: "world \<Rightarrow> event \<Rightarrow> server \<Rightarrow> bytes list list" where
  "event_cmds w e s =
     (case conn_at s (ev_fd e) of
        None \<Rightarrow> []
      | Some c \<Rightarrow> if ev_hup e \<or> \<not> ev_in e then [] else read_cmds w (ev_reads e) c (sv_tick s))"

text \<open>The replies to the commands of a readable event, when none overflows.\<close>

lemma readable_replies:
  assumes "server_inv s" and "conn_at s fd = Some c" and "\<not> closing c" and "recv rs (gb_len (c_in c)) = (d, Drained)"
    and "world_ok w" and "requests w (sv_tick s) (gb_bytes (c_in c) @ d) = (cs, r, pe)" and "\<not> overflows w (sv_tick s) cs"
  shows "\<exists>s' sent rest replies. handle_client_readable w True rs ws c s = Some (s', sent) \<and> server_inv s' \<and>
    list_all reply_safe replies \<and> length replies = length (filter (\<lambda>q. q \<noteq> []) cs) \<and>
    pending c @ concat (map enc_reply (replies @ err_reply pe)) = sent @ rest \<and>
    (\<forall>fd'. fd' \<noteq> fd \<longrightarrow> conn_at s' fd' = conn_at s fd') \<and>
    exec_cmds w (sv_tick s) cs (sv_cmd s) = Some (sv_cmd s', concat (map enc_reply replies)) \<and>
    sv_tick s' = sv_tick s + length cs \<and> sv_listen s' = sv_listen s \<and>
    (\<forall>c'. conn_at s' fd = Some c' \<longrightarrow> gb_bytes (c_in c') = r \<and> closing c' = (pe \<noteq> None) \<and> pending c' = rest) \<and>
    (list_all benign ws \<longrightarrow> pe = None \<longrightarrow> conn_at s' fd \<noteq> None)"
proof -
  note c = server_inv_conn [OF assms(1,2)]
  have wf: "gb_wf (c_in c)" "gb_wf (c_out c)" "gb_len (c_in c) \<le> MAX_CONN_INPUT_BUF" using c(2) by (simp_all add: conn_ok_def)
  have "length (gb_bytes (c_in c) @ d) < 2 ^ 63"
    using recv_limit [OF wf(3) assms(4)] gb_len_bytes [OF wf(1)] by (simp add: MAX_CONN_INPUT_BUF_def)
  from serve_replies [OF c(6) wf(2) assms(5) this assms(6,7)] obtain st' out2 replies where
    sv: "serve w (sv_tick s) (gb_bytes (c_in c) @ d) (sv_cmd s) (c_out c) = Some (st', out2, sv_tick s + length cs, r, pe)"
      "cmd_inv st'" "gb_wf out2" "list_all reply_safe replies" "length replies = length (filter (\<lambda>q. q \<noteq> []) cs)"
      "exec_cmds w (sv_tick s) cs (sv_cmd s) = Some (st', concat (map enc_reply replies))"
      "gb_bytes out2 = gb_bytes (c_out c) @ concat (map enc_reply (replies @ err_reply pe))" by blast
  from readable_serve [OF assms(1-4) sv(1-3,7), of ws] obtain s' sent rest where
    "handle_client_readable w True rs ws c s = Some (s', sent)" "server_inv s'"
    "pending c @ concat (map enc_reply (replies @ err_reply pe)) = sent @ rest"
    "\<forall>fd'. fd' \<noteq> fd \<longrightarrow> conn_at s' fd' = conn_at s fd'" "sv_cmd s' = st'" "sv_tick s' = sv_tick s + length cs"
    "sv_listen s' = sv_listen s"
    "\<forall>c'. conn_at s' fd = Some c' \<longrightarrow> gb_bytes (c_in c') = r \<and> closing c' = (pe \<noteq> None) \<and> pending c' = rest"
    "list_all benign ws \<longrightarrow> pe = None \<longrightarrow> conn_at s' fd \<noteq> None" by blast
  with sv(4-6) show ?thesis by (intro exI [of _ s'] exI [of _ sent] exI [of _ rest] exI [of _ replies]) simp
qed

lemma readable_ok:
  assumes "server_inv s" and "conn_at s fd = Some c" and "world_ok w" and "\<not> overflows w (sv_tick s) (read_cmds w rs c (sv_tick s))"
  shows "\<exists>s' sent. handle_client_readable w True rs ws c s = Some (s', sent) \<and> server_inv s' \<and>
    (\<forall>fd'. fd' \<noteq> fd \<longrightarrow> conn_at s' fd' = conn_at s fd') \<and>
    sv_tick s' = sv_tick s + length (read_cmds w rs c (sv_tick s)) \<and> sv_listen s' = sv_listen s"
proof -
  obtain d e where de: "recv rs (gb_len (c_in c)) = (d, e)" by fastforce
  consider (gone) "e = Gone" | (stop) "e \<noteq> Gone" "closing c \<or> e = Over" | (go) "e = Drained" "\<not> closing c"
    by (cases e) auto
  then show ?thesis
  proof cases
    case gone
    then have "read_cmds w rs c (sv_tick s) = []" using de by (simp add: read_cmds_def)
    with readable_gone [OF assms(1,2), of rs d w True ws] de gone show ?thesis by auto
  next
    case stop
    then have "read_cmds w rs c (sv_tick s) = []" using de by (auto simp: read_cmds_def)
    with readable_closing [OF assms(1,2) de stop, of w ws] show ?thesis by auto
  next
    case go
    obtain cs r pe where rq: "requests w (sv_tick s) (gb_bytes (c_in c) @ d) = (cs, r, pe)"
      by (cases "requests w (sv_tick s) (gb_bytes (c_in c) @ d)")
    then have cs: "read_cmds w rs c (sv_tick s) = cs" using de go by (simp add: read_cmds_def)
    from readable_replies [OF assms(1,2) go(2) de [unfolded go(1)] assms(3) rq assms(4) [unfolded cs], of ws] show ?thesis
      unfolding cs by (elim exE conjE) (intro exI conjI, assumption+)
  qed
qed

lemma writable_ok:
  assumes "server_inv s" and "conn_at s fd = Some c"
  shows "\<exists>s' sent. conn_service_output True ws c s = Some (s', sent) \<and> server_inv s' \<and> sv_listen s' = sv_listen s \<and>
    (\<forall>fd'. fd' \<noteq> fd \<longrightarrow> conn_at s' fd' = conn_at s fd') \<and> sv_cmd s' = sv_cmd s \<and> sv_tick s' = sv_tick s \<and>
    (\<exists>rest. pending c = sent @ rest \<and> (\<forall>c'. conn_at s' fd = Some c' \<longrightarrow>
       c_in c' = c_in c \<and> closing c' = closing c \<and> pending c' = rest))"
proof -
  note c = server_inv_conn [OF assms]
  have "closing c \<or> (\<exists>mem. resp_parse mem (gb_bytes (c_in c)) = Some RESP_PARSE_INCOMPLETE)"
    using c(3) by (simp add: conn_settled_def)
  from conn_service_output_inv [of s c c, OF c(4) _ refl _ c(6,2) this, of ws] c(1,5) assms(2) show ?thesis by auto
qed

text \<open>The two halves of an event on a connection.\<close>

definition read_phase :: "world \<Rightarrow> event \<Rightarrow> conn \<Rightarrow> server \<Rightarrow> (server \<times> bytes) option" where
  "read_phase w e c s =
     (if ev_in e then handle_client_readable w (ev_ctl e) (ev_reads e) (ev_writes e) c s else Some (s, []))"

definition write_phase :: "event \<Rightarrow> server \<times> bytes \<Rightarrow> (server \<times> bytes) option" where
  "write_phase e x =
     (case conn_at (fst x) (ev_fd e) of
        None \<Rightarrow> Some x
      | Some c \<Rightarrow>
          if ev_out e then conn_service_output (ev_ctl e) (ev_writes_out e) c (fst x) \<bind> (\<lambda>(s, sent'). Some (s, snd x @ sent'))
          else Some x)"

lemma handle_event_phases:
  assumes "ev_fd e \<noteq> sv_listen s" and "conn_at s (ev_fd e) = Some c" and "\<not> ev_hup e"
  shows "handle_event w e s = read_phase w e c s \<bind> write_phase e"
  using assms
  by (cases "read_phase w e c s")
    (auto simp: handle_event_def read_phase_def write_phase_def split_beta split: option.splits)

lemma write_phase_ok:
  assumes "server_inv s" and "ev_ctl e"
  shows "\<exists>s' sent'. write_phase e (s, sent) = Some (s', sent @ sent') \<and> server_inv s' \<and> sv_listen s' = sv_listen s \<and>
    (\<forall>fd. fd \<noteq> ev_fd e \<longrightarrow> conn_at s' fd = conn_at s fd) \<and> sv_cmd s' = sv_cmd s \<and> sv_tick s' = sv_tick s \<and>
    (\<forall>c. conn_at s (ev_fd e) = Some c \<longrightarrow> (\<exists>rest. pending c = sent' @ rest \<and> (\<forall>c'. conn_at s' (ev_fd e) = Some c' \<longrightarrow>
       c_in c' = c_in c \<and> closing c' = closing c \<and> pending c' = rest)))"
proof (cases "conn_at s (ev_fd e)")
  case None
  then show ?thesis using assms(1) by (simp add: write_phase_def)
next
  case (Some c)
  from writable_ok [OF assms(1) Some, of "ev_writes_out e"] Some assms show ?thesis
    by (cases "ev_out e") (auto simp: write_phase_def)
qed

text \<open>Every event is handled without undefined behaviour unless a command it executes overflows.\<close>

lemma handle_event_ok:
  assumes "server_inv s" and "event_ok e s" and "world_ok w" and "\<not> overflows w (sv_tick s) (event_cmds w e s)"
  shows "\<exists>s' sent. handle_event w e s = Some (s', sent) \<and> server_inv s' \<and> sv_listen s' = sv_listen s \<and>
    (ev_fd e \<noteq> sv_listen s \<longrightarrow> (\<forall>fd. fd \<noteq> ev_fd e \<longrightarrow> conn_at s' fd = conn_at s fd))"
proof -
  have ctl: "ev_ctl e" and acc: "fresh_accepts (insert (sv_listen s) (sv_fds s)) (ev_accepts e)"
    using assms(2) by (simp_all add: event_ok_def)
  consider (listen) "ev_fd e = sv_listen s" | (none) "ev_fd e \<noteq> sv_listen s" "conn_at s (ev_fd e) = None"
    | (hup) c where "ev_fd e \<noteq> sv_listen s" "conn_at s (ev_fd e) = Some c" "ev_hup e"
    | (io) c where "ev_fd e \<noteq> sv_listen s" "conn_at s (ev_fd e) = Some c" "\<not> ev_hup e" by fastforce
  then show ?thesis
  proof cases
    case listen
    with handle_listen_ok [OF assms(1) acc] show ?thesis by (auto simp: handle_event_def)
  next
    case none
    then show ?thesis using assms(1) by (simp add: handle_event_def)
  next
    case hup
    note c = server_inv_conn [OF assms(1) hup(2)]
    from conn_close_inv [of s c] c hup show ?thesis by (auto simp: handle_event_def)
  next
    case io
    have "\<exists>s1 sent1. read_phase w e c s = Some (s1, sent1) \<and> server_inv s1 \<and> sv_listen s1 = sv_listen s \<and>
        (\<forall>fd. fd \<noteq> ev_fd e \<longrightarrow> conn_at s1 fd = conn_at s fd)"
    proof (cases "ev_in e")
      case True
      then have "event_cmds w e s = read_cmds w (ev_reads e) c (sv_tick s)" using io by (simp add: event_cmds_def)
      with readable_ok [OF assms(1) io(2) assms(3), of "ev_reads e" "ev_writes e"] assms(4) True ctl show ?thesis
        by (auto simp: read_phase_def)
    qed (use assms(1) in \<open>simp add: read_phase_def\<close>)
    then obtain s1 sent1 where s1: "read_phase w e c s = Some (s1, sent1)" "server_inv s1" "sv_listen s1 = sv_listen s"
      "\<forall>fd. fd \<noteq> ev_fd e \<longrightarrow> conn_at s1 fd = conn_at s fd" by blast
    from write_phase_ok [OF s1(2) ctl, of sent1] s1 handle_event_phases [OF io, of w] show ?thesis by auto
  qed
qed

end
