(* ===== verification/Server_Run.thy ===== *)
theory Server_Run
  imports Server
begin

text \<open>
  Runs of the event-driven server: the states it can reach from its start, a conversation with a
  client whose bytes arrive in pieces, and \<open>main\<close> from the load of the snapshot to the final save.
  The properties of \<open>src/server.c\<close> stand here.
\<close>

section \<open>Reachable states\<close>

text \<open>
  The server from its start on: events in any order, and at any time the turn of a child that \<open>BGSAVE\<close>
  forked.
\<close>

inductive server_reachable :: "world \<Rightarrow> server \<Rightarrow> bool" for w where
  start: "cmd_inv st \<Longrightarrow> server_reachable w (server_start listen_fd st)"
| event: "server_reachable w s \<Longrightarrow> event_ok e s \<Longrightarrow> handle_event w e s = Some (s', sent) \<Longrightarrow> server_reachable w s'"
| child: "server_reachable w s \<Longrightarrow> bgsave_child now mem io i (sv_cmd s) = Some st \<Longrightarrow> server_reachable w (s\<lparr>sv_cmd := st\<rparr>)"

lemma server_start_inv: "cmd_inv st \<Longrightarrow> server_inv (server_start listen_fd st)"
  by (simp add: server_inv_def table_inv_def server_start_def conn_at_def)

lemma bgsave_child_inv: "cmd_inv st \<Longrightarrow> bgsave_child now mem io i st = Some st' \<Longrightarrow> cmd_inv st'"
  by (auto simp: bgsave_child_def cmd_inv_def split: bind_splits)

lemma server_inv_child:
  assumes "server_inv s" and "bgsave_child now mem io i (sv_cmd s) = Some st"
  shows "server_inv (s\<lparr>sv_cmd := st\<rparr>)"
proof -
  have e: "s\<lparr>sv_cmd := st\<rparr> = s\<lparr>sv_cmd := st, sv_tick := sv_tick s\<rparr>" by (cases s) simp
  have "cmd_inv st" using assms bgsave_child_inv by (auto simp: server_inv_def)
  with assms(1) have "server_inv (s\<lparr>sv_cmd := st, sv_tick := sv_tick s\<rparr>)" unfolding server_inv_def state_update by simp
  then show ?thesis unfolding e [symmetric] .
qed

text \<open>Converse of \<open>handle_event_ok\<close>: an overflow leaves the event without a result.\<close>

lemma handle_event_overflow:
  assumes "server_inv s" and "world_ok w" and "overflows w (sv_tick s) (event_cmds w e s)"
  shows "handle_event w e s = None"
proof -
  from assms(3) obtain c where c: "conn_at s (ev_fd e) = Some c" "\<not> ev_hup e" "ev_in e"
    and o: "overflows w (sv_tick s) (read_cmds w (ev_reads e) c (sv_tick s))"
    by (auto simp: event_cmds_def split: option.splits if_splits)
  have nl: "ev_fd e \<noteq> sv_listen s" using assms(1) c(1) by (auto simp: server_inv_def table_inv_def)
  from o obtain d where d: "recv (ev_reads e) (gb_len (c_in c)) = (d, Drained)" "\<not> closing c"
    and o: "overflows w (sv_tick s) (fst (requests w (sv_tick s) (gb_bytes (c_in c) @ d)))"
    by (auto simp: read_cmds_def Let_def split: prod.splits if_splits)
  have wf: "gb_wf (c_in c)" "gb_wf (c_out c)"
    using server_inv_conn(2) [OF assms(1) c(1)] by (simp_all add: conn_ok_def)
  from read_loop_recv [OF wf d(1)] obtain inb where
    rl: "read_loop (ev_reads e) c = Some (False, c\<lparr>c_in := inb, closing := False\<rparr>)" "gb_wf inb" "gb_bytes inb = gb_bytes (c_in c) @ d"
    using d(2) by auto
  have "serve w (sv_tick s) (gb_bytes inb) (sv_cmd s) (c_out c) = None"
    unfolding rl(3) serve_def using run_cmds_overflow [OF assms(2) o] by (simp add: split_beta)
  with conn_process_input_serve [of "c\<lparr>c_in := inb, closing := False\<rparr>" w "sv_tick s" "sv_cmd s"] rl(2)
  have "conn_process_input w (sv_tick s) (sv_cmd s) (c\<lparr>c_in := inb, closing := False\<rparr>) = None" by simp
  with rl(1) have "read_phase w e c s = None" using c(3) by (simp add: read_phase_def handle_client_readable_def)
  then show ?thesis using handle_event_phases [OF nl c(1,2), of w] by simp
qed

lemma server_reachable_server_inv:
  assumes "world_ok w" and "server_reachable w s"
  shows "server_inv s"
  using assms(2)
proof induction
  case (start st listen_fd)
  then show ?case by (rule server_start_inv)
next
  case (event s e s' sent)
  then have "\<not> overflows w (sv_tick s) (event_cmds w e s)" using handle_event_overflow [OF event.IH assms(1)] by auto
  from handle_event_ok [OF event.IH event.hyps(2) assms(1) this] event.hyps(3) show ?case by auto
next
  case (child s now mem io i st)
  then show ?case by (simp add: server_inv_child)
qed

text \<open>A server with one connection, for the witnesses.\<close>

definition demo_world :: world where
  "demo_world = \<lparr>w_mem = (\<lambda>_ _. True), w_env = (\<lambda>_. demo_env)\<rparr>"

definition demo_conn :: conn where
  "demo_conn = \<lparr>c_fd = 5, c_in = gb_null, c_out = resp_buf_init, out_sent = 0, closing = False, want_write = False\<rparr>"

definition demo_event :: event where
  "demo_event = \<lparr>ev_fd = 5, ev_hup = False, ev_in = True, ev_out = False, ev_accepts = [], ev_reads = [], ev_writes = [],
     ev_writes_out = [], ev_ctl = True\<rparr>"

definition demo_server :: server where
  "demo_server = \<lparr>sv_cmd = demo_state, g_conns = (replicate 64 None)[5 := Some demo_conn], sv_epoll = [3 \<mapsto> False, 5 \<mapsto> False],
     sv_fds = {5}, sv_listen = 3, sv_tick = 0\<rparr>"

lemma demo_world_ok: "world_ok demo_world"
  using demo_env_ok by (simp add: world_ok_def demo_world_def)

lemma demo_accept:
  "handle_event demo_world (demo_event\<lparr>ev_fd := 3, ev_accepts := [Acc 5 True, Acc_errno EAGAIN]\<rparr>) (server_start 3 demo_state) =
     Some (demo_server, [])"
proof -
  have "double_until 6 64 = 64" by (rule double_until_noop) simp
  then show ?thesis
    by (simp add: handle_event_def demo_event_def server_start_def conn_create_def conns_table_ensure_def put_conn_def
        demo_server_def demo_conn_def rd_def Let_def)
qed

lemma demo_server_reachable: "server_reachable demo_world demo_server"
  by (rule server_reachable.event [OF server_reachable.start [OF demo_state_inv] _ demo_accept])
    (simp add: event_ok_def demo_event_def server_start_def)

lemma demo_server_inv: "server_inv demo_server"
  by (rule server_reachable_server_inv [OF demo_world_ok demo_server_reachable])

lemma demo_conn_at: "conn_at demo_server 5 = Some demo_conn" "sv_listen demo_server = 3" "sv_tick demo_server = 0"
  "sv_cmd demo_server = demo_state"
  by (simp_all add: conn_at_def demo_server_def)

section \<open>Properties\<close>





lemma event_replies:
  assumes "world_ok w" and "server_inv s" and "event_ok e s" and "conn_at s (ev_fd e) = Some c" and "\<not> closing c"
    and "ev_in e" and "\<not> ev_hup e" and "recv (ev_reads e) (gb_len (c_in c)) = (d, Drained)"
    and "requests w (sv_tick s) (gb_bytes (c_in c) @ d) = (cs, r, pe)" and "\<not> overflows w (sv_tick s) cs"
  shows "\<exists>s' sent rest replies. handle_event w e s = Some (s', sent) \<and> server_inv s' \<and>
    list_all reply_safe replies \<and> length replies = length (filter (\<lambda>q. q \<noteq> []) cs) \<and>
    exec_cmds w (sv_tick s) cs (sv_cmd s) = Some (sv_cmd s', concat (map enc_reply replies)) \<and>
    pending c @ concat (map enc_reply (replies @ err_reply pe)) = sent @ rest \<and>
    sv_tick s' = sv_tick s + length cs \<and>
    (\<forall>c'. conn_at s' (ev_fd e) = Some c' \<longrightarrow> gb_bytes (c_in c') = r \<and> closing c' = (pe \<noteq> None) \<and> pending c' = rest) \<and>
    (list_all benign (ev_writes e) \<longrightarrow> \<not> ev_out e \<longrightarrow> pe = None \<longrightarrow> conn_at s' (ev_fd e) \<noteq> None)"
proof -
  have ctl: "ev_ctl e" using assms(3) by (simp add: event_ok_def)
  have nl: "ev_fd e \<noteq> sv_listen s" using assms(2,4) by (auto simp: server_inv_def table_inv_def)
  from readable_replies [OF assms(2,4,5,8,1,9,10), of "ev_writes e"] obtain s1 sent1 rest1 replies where
    s1: "handle_client_readable w True (ev_reads e) (ev_writes e) c s = Some (s1, sent1)" "server_inv s1"
      "list_all reply_safe replies" "length replies = length (filter (\<lambda>q. q \<noteq> []) cs)"
      "pending c @ concat (map enc_reply (replies @ err_reply pe)) = sent1 @ rest1"
      "exec_cmds w (sv_tick s) cs (sv_cmd s) = Some (sv_cmd s1, concat (map enc_reply replies))"
      "sv_tick s1 = sv_tick s + length cs"
      "\<forall>c'. conn_at s1 (ev_fd e) = Some c' \<longrightarrow> gb_bytes (c_in c') = r \<and> closing c' = (pe \<noteq> None) \<and> pending c' = rest1"
      "list_all benign (ev_writes e) \<longrightarrow> pe = None \<longrightarrow> conn_at s1 (ev_fd e) \<noteq> None"
    by (elim exE conjE) (rule that, assumption+)
  have "read_phase w e c s = Some (s1, sent1)" using s1(1) assms(6) ctl by (simp add: read_phase_def)
  then have ev: "handle_event w e s = write_phase e (s1, sent1)" using handle_event_phases [OF nl assms(4,7), of w] by simp
  show ?thesis
  proof (cases "conn_at s1 (ev_fd e)")
    case None
    then have "write_phase e (s1, sent1) = Some (s1, sent1)" by (simp add: write_phase_def)
    with ev s1 None show ?thesis
      by (intro exI [of _ s1] exI [of _ sent1] exI [of _ rest1] exI [of _ replies]) simp
  next
    case (Some c1)
    from write_phase_ok [OF s1(2) ctl, of sent1] Some obtain s2 sent2 rest2 where
      s2: "write_phase e (s1, sent1) = Some (s2, sent1 @ sent2)" "server_inv s2" "sv_cmd s2 = sv_cmd s1" "sv_tick s2 = sv_tick s1"
        "pending c1 = sent2 @ rest2" "\<forall>c'. conn_at s2 (ev_fd e) = Some c' \<longrightarrow>
           c_in c' = c_in c1 \<and> closing c' = closing c1 \<and> pending c' = rest2" by blast
    have "\<not> ev_out e \<Longrightarrow> s2 = s1" using s2(1) Some by (simp add: write_phase_def)
    moreover have "gb_bytes (c_in c1) = r" "closing c1 = (pe \<noteq> None)" "rest1 = sent2 @ rest2" using s1(8) Some s2(5) by auto
    ultimately show ?thesis using ev s1 s2
      by (intro exI [of _ s2] exI [of _ "sent1 @ sent2"] exI [of _ rest2] exI [of _ replies]) simp
  qed
qed

text \<open>
  C15: a readable event on a connection conserves its replies: the commands that are complete with the bytes
  just read are executed once each and in order, a protocol error is answered after them, and the
  bytes written during the event followed by those still pending are the bytes that were pending
  before followed by the new replies. Nothing is lost, duplicated or reordered by partial writes.
\<close>

theorem event_conserves_replies:
  assumes "world_ok w" and "server_inv s" and "event_ok e s" and "conn_at s (ev_fd e) = Some c" and "\<not> closing c"
    and "ev_in e" and "\<not> ev_hup e" and "recv (ev_reads e) (gb_len (c_in c)) = (d, Drained)"
    and "requests w (sv_tick s) (gb_bytes (c_in c) @ d) = (cs, r, pe)" and "\<not> overflows w (sv_tick s) cs"
  shows "\<exists>s' sent rest replies. handle_event w e s = Some (s', sent) \<and>
    length replies = length (filter (\<lambda>q. q \<noteq> []) cs) \<and>
    exec_cmds w (sv_tick s) cs (sv_cmd s) = Some (sv_cmd s', concat (map enc_reply replies)) \<and>
    pending c @ concat (map enc_reply (replies @ err_reply pe)) = sent @ rest \<and>
    (\<forall>c'. conn_at s' (ev_fd e) = Some c' \<longrightarrow> gb_bytes (c_in c') = r \<and> closing c' = (pe \<noteq> None) \<and> pending c' = rest)"
  using event_replies [OF assms] by (elim exE conjE) (intro exI conjI, assumption+)

theorem event_conserves_replies_witness:
  "\<exists>s' sent rest replies. handle_event demo_world (demo_event\<lparr>ev_reads := [Rd (enc_request [''GET'', ''a''])], ev_writes := [Wr 2]\<rparr>)
      demo_server = Some (s', sent) \<and> length replies = 1 \<and>
    exec_cmds demo_world 0 [[''GET'', ''a'']] demo_state = Some (sv_cmd s', concat (map enc_reply replies)) \<and>
    concat (map enc_reply replies) = sent @ rest"
proof -
  let ?r = "[''GET'', ''a'']" and ?e = "demo_event\<lparr>ev_reads := [Rd (enc_request [''GET'', ''a''])], ev_writes := [Wr 2]\<rparr>"
  have "\<not> arg_eq_ci ''GET'' ''SET''" "\<not> arg_eq_ci ''GET'' ''EXPIRE''" by code_simp+
  then have ov: "\<not> overflows demo_world (sv_tick demo_server) [?r]" by (simp add: ttl_overflow_def)
  have ok: "list_all request_ok [?r]" "request_ok ?r" by (simp_all add: request_ok_def resp_limits)
  have len: "length (enc_request ?r) = 20"
    by (simp add: enc_request_def enc_bulk_def show_size_def show_nat.simps)
  then have rc: "recv (ev_reads ?e) (gb_len (c_in demo_conn)) = (enc_request ?r, Drained)"
    by (auto simp: demo_conn_def gb_null_def MAX_CONN_INPUT_BUF_def READ_CHUNK_def)
  have "requests demo_world (sv_tick demo_server) (gb_bytes (c_in demo_conn) @ enc_request ?r) = ([?r], [], None)"
    using drain_requests [OF ok, of 0] len by (simp add: requests_drain demo_world_def demo_conn_def)
  from event_conserves_replies [OF demo_world_ok demo_server_inv _ _ _ _ _ rc this ov] show ?thesis
    by (simp add: demo_conn_at event_ok_def demo_event_def demo_conn_def pending_def err_reply_def) blast
qed

section \<open>A whole conversation\<close>

text \<open>
  A client whose bytes arrive in pieces, each piece in an event of its own with its own \<open>write\<close> outcomes,
  and everything that is written back to it.
\<close>

definition chunk_event :: "nat \<Rightarrow> bytes \<Rightarrow> write_res list \<Rightarrow> event" where
  "chunk_event fd d ws = \<lparr>ev_fd = fd, ev_hup = False, ev_in = True, ev_out = False, ev_accepts = [], ev_reads = [Rd d],
     ev_writes = ws, ev_writes_out = [], ev_ctl = True\<rparr>"

primrec feed :: "world \<Rightarrow> nat \<Rightarrow> (bytes \<times> write_res list) list \<Rightarrow> server \<Rightarrow> (server \<times> bytes) option" where
  "feed w fd [] s = Some (s, [])"
| "feed w fd (x # xs) s = do {
     (s, sent) \<leftarrow> handle_event w (chunk_event fd (fst x) (snd x)) s;
     (s, sent') \<leftarrow> feed w fd xs s;
     Some (s, sent @ sent')
   }"

lemma recv_chunk: "d \<noteq> [] \<Longrightarrow> n + length d \<le> MAX_CONN_INPUT_BUF \<Longrightarrow> recv [Rd d] n = (d, Drained)"
  by simp

lemma exec_cmds_nil: "exec_cmds w i [] st = Some (st, [])"
  by (simp add: exec_cmds_def)

lemma feed_ok:
  assumes "world_ok w" and "\<And>i. w_mem w i = (\<lambda>_. True)"
    and "list_all (\<lambda>(d, ws). d \<noteq> [] \<and> list_all benign ws) xs"
    and "\<And>k. snd (snd (drain (resp_parse (\<lambda>_. True)) (gb_bytes (c_in c) @ concat (map fst (take k xs))))) = None"
    and "server_inv s" and "conn_at s fd = Some c" and "\<not> closing c"
    and "resp_parse (\<lambda>_. True) (gb_bytes (c_in c)) = Some RESP_PARSE_INCOMPLETE"
    and "gb_len (c_in c) + length (concat (map fst xs)) \<le> MAX_CONN_INPUT_BUF"
    and "drain (resp_parse (\<lambda>_. True)) (gb_bytes (c_in c) @ concat (map fst xs)) = (cs, r, pe)"
    and "\<not> overflows w (sv_tick s) cs"
  shows "\<exists>s' sent c' x. feed w fd xs s = Some (s', sent) \<and> server_inv s' \<and> conn_at s' fd = Some c' \<and>
    gb_bytes (c_in c') = r \<and> exec_cmds w (sv_tick s) cs (sv_cmd s) = Some (sv_cmd s', x) \<and> pending c @ x = sent @ pending c'"
  using assms(3-)
proof (induction xs arbitrary: s c cs)
  case Nil
  then have "cs = []" "r = gb_bytes (c_in c)" by (simp_all add: drain.simps)
  with Nil.prems(3,4) show ?case by (simp add: exec_cmds_nil)
next
  case (Cons y xs)
  let ?p = "resp_parse (\<lambda>_. True)" and ?b = "gb_bytes (c_in c)" and ?rest = "concat (map fst xs)"
  obtain d ws where y: "y = (d, ws)" by (cases y)
  let ?e = "chunk_event fd d ws"
  have d: "d \<noteq> []" "list_all benign ws" "list_all (\<lambda>(d, ws). d \<noteq> [] \<and> list_all benign ws) xs" using Cons.prems(1) y by simp_all
  have lim: "gb_len (c_in c) + length d + length ?rest \<le> MAX_CONN_INPUT_BUF" using Cons.prems(7) y by simp
  then have rc: "recv (ev_reads ?e) (gb_len (c_in c)) = (d, Drained)" using d(1) by (simp add: chunk_event_def)
  note wf = server_inv_conn(2) [OF Cons.prems(3,4), unfolded conn_ok_def]
  note len = gb_len_bytes [OF wf [THEN conjunct1]]
  obtain cs1 r1 where dr1: "drain ?p (?b @ d) = (cs1, r1, None)"
    using Cons.prems(2) [of 1] y by (cases "drain ?p (?b @ d)") simp
  then have rq: "requests w (sv_tick s) (?b @ d) = (cs1, r1, None)" by (simp add: requests_drain [OF assms(2)])
  obtain cs2 where dr2: "drain ?p (r1 @ ?rest) = (cs2, r, pe)" "cs = cs1 @ cs2"
    using resp.drain_append [OF dr1, of ?rest] Cons.prems(8) y by (auto simp: Let_def split: prod.splits)
  have ov: "\<not> overflows w (sv_tick s) cs1" "\<not> overflows w (sv_tick s + length cs1) cs2"
    using Cons.prems(9) dr2(2) by (simp_all add: overflows_append)
  have ev: "event_ok ?e s" "ev_in ?e" "\<not> ev_hup ?e" "ev_fd ?e = fd" "ev_writes ?e = ws" "\<not> ev_out ?e"
    by (simp_all add: event_ok_def chunk_event_def)
  from event_replies [OF assms(1) Cons.prems(3) ev(1) _ Cons.prems(5) ev(2,3) rc rq ov(1)] Cons.prems(4) d(2) ev(4-6)
  obtain s1 sent1 c1 x1 where s1: "handle_event w ?e s = Some (s1, sent1)" "server_inv s1" "conn_at s1 fd = Some c1"
      "exec_cmds w (sv_tick s) cs1 (sv_cmd s) = Some (sv_cmd s1, x1)" "pending c @ x1 = sent1 @ pending c1"
      "sv_tick s1 = sv_tick s + length cs1" "gb_bytes (c_in c1) = r1" "\<not> closing c1"
    by (auto simp: err_reply_def)
  note len1 = gb_len_bytes [OF server_inv_conn(2) [OF s1(2,3), unfolded conn_ok_def, THEN conjunct1]]
  have r1: "length r1 \<le> length (?b @ d)" using requests_props(1) [OF rq] by auto
  have inc: "?p (gb_bytes (c_in c1)) = Some RESP_PARSE_INCOMPLETE" using requests_left [OF rq] assms(2) s1(7) by simp
  have ok: "snd (snd (drain ?p (gb_bytes (c_in c1) @ concat (map fst (take k xs))))) = None" for k
    using Cons.prems(2) [of "Suc k"] resp.drain_append [OF dr1, of "concat (map fst (take k xs))"] y s1(7)
    by (simp add: Let_def split: prod.splits)
  have "gb_len (c_in c1) + length ?rest \<le> MAX_CONN_INPUT_BUF" using lim r1 len len1 s1(7) by simp
  from Cons.IH [OF d(3) ok s1(2,3,8) inc this dr2(1) [folded s1(7)] ov(2) [folded s1(6)]] obtain s2 sent2 c2 x2 where
    s2: "feed w fd xs s1 = Some (s2, sent2)" "server_inv s2" "conn_at s2 fd = Some c2" "gb_bytes (c_in c2) = r"
      "exec_cmds w (sv_tick s1) cs2 (sv_cmd s1) = Some (sv_cmd s2, x2)" "pending c1 @ x2 = sent2 @ pending c2" by blast
  have "length (?b @ concat (map fst (y # xs))) \<le> MAX_CONN_INPUT_BUF" using Cons.prems(7) len by simp
  then have "list_all (\<lambda>c. length c < 2 ^ 63) cs"
    using requests_props(2) [of w "sv_tick s" "?b @ concat (map fst (y # xs))" cs r pe] Cons.prems(8) requests_drain [OF assms(2)]
    by (auto simp: list_all_iff MAX_CONN_INPUT_BUF_def RESP_MAX_ARGC_def)
  from exec_cmds_append [OF _ assms(1) this [unfolded dr2(2)] Cons.prems(9) [unfolded dr2(2)] s1(4) s2(5) [unfolded s1(6)]]
  have "exec_cmds w (sv_tick s) cs (sv_cmd s) = Some (sv_cmd s2, x1 @ x2)"
    using server_inv_conn(6) [OF Cons.prems(3,4)] dr2(2) by simp
  moreover have "pending c @ x1 @ x2 = (sent1 @ sent2) @ pending c2" using s1(5) s2(6) by (metis append_assoc)
  ultimately show ?case using s1(1) s2(1-4) y by (intro exI [of _ s2] exI [of _ "sent1 @ sent2"] exI [of _ c2] exI [of _ "x1 @ x2"]) simp
qed

lemma feed_replies:
  assumes "world_ok w" and "\<And>i. w_mem w i = (\<lambda>_. True)" and "server_inv s" and "conn_at s fd = Some c"
    and "\<not> closing c" and "gb_bytes (c_in c) = []" and "pending c = []"
    and "list_all request_ok reqs" and "concat (map fst xs) = concat (map enc_request reqs)"
    and "list_all (\<lambda>(d, ws). d \<noteq> [] \<and> list_all benign ws) xs"
    and "length (concat (map fst xs)) \<le> MAX_CONN_INPUT_BUF" and "\<not> overflows w (sv_tick s) reqs"
  shows "\<exists>s' sent c' x. feed w fd xs s = Some (s', sent) \<and> conn_at s' fd = Some c' \<and> gb_bytes (c_in c') = [] \<and>
    exec_cmds w (sv_tick s) reqs (sv_cmd s) = Some (sv_cmd s', x) \<and> sent @ pending c' = x"
proof -
  let ?p = "resp_parse (\<lambda>_. True)"
  have q: "request_ok [''PING'']" "0 < length (enc_request [''PING''])"
    by (simp_all add: request_ok_def resp_limits enc_request_def)
  have all: "drain ?p (gb_bytes (c_in c) @ concat (map fst xs)) = (reqs, [], None)"
    using drain_requests [OF assms(8) q] assms(6,9) by simp
  have pre: "snd (snd (drain ?p (gb_bytes (c_in c) @ concat (map fst (take k xs))))) = None" for k
  proof -
    have "concat (map fst (take k xs)) @ concat (map fst (drop k xs)) = concat (map enc_request reqs)"
      unfolding assms(9) [symmetric] concat_append [symmetric] map_append [symmetric] append_take_drop_id ..
    from pipeline_prefix_ok [OF assms(8) this] show ?thesis using assms(6) by simp
  qed
  have wf: "gb_wf (c_in c)" using server_inv_conn(2) [OF assms(3,4)] by (simp add: conn_ok_def)
  have lim: "gb_len (c_in c) + length (concat (map fst xs)) \<le> MAX_CONN_INPUT_BUF"
    using gb_len_bytes [OF wf] assms(6,11) by simp
  have inc: "?p (gb_bytes (c_in c)) = Some RESP_PARSE_INCOMPLETE" using assms(6) resp.parse_empty by simp
  from feed_ok [OF assms(1,2,10) pre assms(3,4,5) inc lim all assms(12)] assms(7) show ?thesis by auto
qed

text \<open>
  A pipeline of commands gets the replies of executing them one after the other, however its bytes
  are cut into pieces on the way and however the writes are cut short or delayed: what is written
  back followed by what is still pending is exactly the encoding of those replies, and the data is
  in the state of that execution.
\<close>

theorem pipeline_replies:
  assumes "world_ok w" and "\<forall>i. w_mem w i = (\<lambda>_. True)" and "server_inv s" and "conn_at s fd = Some c"
    and "\<not> closing c" and "gb_bytes (c_in c) = []" and "pending c = []"
    and "list_all request_ok reqs" and "concat (map fst xs) = concat (map enc_request reqs)"
    and "list_all (\<lambda>(d, ws). d \<noteq> [] \<and> list_all benign ws) xs"
    and "length (concat (map fst xs)) \<le> MAX_CONN_INPUT_BUF" and "\<not> overflows w (sv_tick s) reqs"
  shows "\<exists>s' sent c' x. feed w fd xs s = Some (s', sent) \<and> conn_at s' fd = Some c' \<and> gb_bytes (c_in c') = [] \<and>
    exec_cmds w (sv_tick s) reqs (sv_cmd s) = Some (sv_cmd s', x) \<and> sent @ pending c' = x"
  using feed_replies [OF assms(1) _ assms(3-)] assms(2) by blast

theorem pipeline_replies_witness:
  "\<exists>s' sent c' x. feed demo_world 5 [(take 3 (enc_request [''GET'', ''a'']), [Wr 1]), (drop 3 (enc_request [''GET'', ''a'']), [Wr 1, Wr 2])]
     demo_server = Some (s', sent) \<and> conn_at s' 5 = Some c' \<and> gb_bytes (c_in c') = [] \<and>
     exec_cmds demo_world 0 [[''GET'', ''a'']] demo_state = Some (sv_cmd s', x) \<and> sent @ pending c' = x"
proof -
  let ?r = "[''GET'', ''a'']"
  let ?xs = "[(take 3 (enc_request ?r), [Wr 1]), (drop 3 (enc_request ?r), [Wr 1, Wr 2])]"
  have len: "length (enc_request ?r) = 20"
    by (simp add: enc_request_def enc_bulk_def show_size_def show_nat.simps)
  have "\<not> arg_eq_ci ''GET'' ''SET''" "\<not> arg_eq_ci ''GET'' ''EXPIRE''" by code_simp+
  then have ov: "\<not> overflows demo_world (sv_tick demo_server) [?r]" by (simp add: ttl_overflow_def)
  have ok: "list_all request_ok [?r]" by (simp add: request_ok_def resp_limits)
  have "list_all (\<lambda>(d, ws). d \<noteq> [] \<and> list_all benign ws) ?xs" using len by auto
  from pipeline_replies [OF demo_world_ok _ demo_server_inv demo_conn_at(1) _ _ _ ok _ this _ ov] len show ?thesis
    by (simp add: demo_conn_at demo_conn_def demo_world_def pending_def MAX_CONN_INPUT_BUF_def)
qed

text \<open>
  C38: a client that sends a burst of exactly \<open>READ_CHUNK\<close> bytes and shuts its side down is never
  answered: the read loop meets the end of the stream before anything is parsed, and the connection
  is closed with the commands still in the buffer.
\<close>

theorem burst_before_eof_is_lost:
  assumes "server_inv s" and "conn_at s (ev_fd e) = Some c" and "ev_in e" and "\<not> ev_hup e"
    and "ev_reads e = [Rd d, Rd []]" and "length d = READ_CHUNK" and "gb_len (c_in c) + length d \<le> MAX_CONN_INPUT_BUF"
  shows "\<exists>s'. handle_event w e s = Some (s', []) \<and> conn_at s' (ev_fd e) = None \<and> sv_cmd s' = sv_cmd s"
proof -
  have nl: "ev_fd e \<noteq> sv_listen s" using assms(1,2) by (auto simp: server_inv_def table_inv_def)
  have "recv (ev_reads e) (gb_len (c_in c)) = (d, Gone)" using assms(5-7) by (auto simp: READ_CHUNK_def)
  from readable_gone [OF assms(1,2) this, of w "ev_ctl e" "ev_writes e"] obtain s' where
    s': "handle_client_readable w (ev_ctl e) (ev_reads e) (ev_writes e) c s = Some (s', [])"
      "conn_at s' = (conn_at s)(ev_fd e := None)" "sv_cmd s' = sv_cmd s" by blast
  then show ?thesis using handle_event_phases [OF nl assms(2,4), of w] assms(3)
    by (simp add: read_phase_def write_phase_def)
qed

theorem burst_before_eof_is_lost_witness:
  "\<exists>s'. handle_event demo_world (demo_event\<lparr>ev_reads := [Rd (concat (replicate 2048 (''DBSIZE'' @ crlf))), Rd []]\<rparr>) demo_server =
     Some (s', []) \<and> sv_cmd s' = demo_state"
proof -
  let ?d = "concat (replicate 2048 (''DBSIZE'' @ crlf))"
  have "length ?d = READ_CHUNK" by (simp add: length_concat sum_list_replicate READ_CHUNK_def)
  then show ?thesis
    using burst_before_eof_is_lost [OF demo_server_inv, of "demo_event\<lparr>ev_reads := [Rd ?d, Rd []]\<rparr>" demo_conn ?d demo_world]
    by (simp add: demo_conn_at demo_event_def demo_conn_def MAX_CONN_INPUT_BUF_def READ_CHUNK_def gb_null_def) blast
qed

section \<open>From start to exit\<close>

text \<open>The events of a run are as the kernel's documentation has them, in the state in which they occur.\<close>

primrec events_ok :: "world \<Rightarrow> event list \<Rightarrow> server \<Rightarrow> bool" where
  "events_ok w [] s = True"
| "events_ok w (e # es) s = (event_ok e s \<and> (case handle_event w e s of None \<Rightarrow> True | Some (s', _) \<Rightarrow> events_ok w es s'))"

primrec waits_ok :: "world \<Rightarrow> wait_res list \<Rightarrow> server \<Rightarrow> bool" where
  "waits_ok w [] s = True"
| "waits_ok w (x # xs) s =
     (case x of
        Events es \<Rightarrow> events_ok w es s \<and> (case handle_events w es s [] of None \<Rightarrow> True | Some (s', _) \<Rightarrow> waits_ok w xs s')
      | Wait_errno _ \<Rightarrow> waits_ok w xs s)"

lemma handle_events_wire:
  "handle_events w es s wire = map_option (\<lambda>(s', wire'). (s', wire @ wire')) (handle_events w es s [])"
proof (induction es arbitrary: s wire)
  case Nil
  then show ?case by simp
next
  case (Cons e es)
  show ?case
  proof (cases "handle_event w e s")
    case None
    then show ?thesis by simp
  next
    case (Some r)
    obtain s1 sent where r: "r = (s1, sent)" by (cases r)
    show ?thesis
      using Some r Cons.IH [of s1 "wire @ [(ev_fd e, sent)]"] Cons.IH [of s1 "[(ev_fd e, sent)]"]
      by (cases "handle_events w es s1 []") auto
  qed
qed

lemma handle_events_reachable:
  assumes "server_reachable w s" and "events_ok w es s" and "handle_events w es s wire = Some (s', wire')"
  shows "server_reachable w s'"
  using assms
proof (induction es arbitrary: s wire)
  case Nil
  then show ?case by simp
next
  case (Cons e es)
  from Cons.prems(3) obtain s1 sent where s1: "handle_event w e s = Some (s1, sent)"
    "handle_events w es s1 (wire @ [(ev_fd e, sent)]) = Some (s', wire')" by (auto split: bind_splits)
  have "server_reachable w s1" using server_reachable.event [OF Cons.prems(1) _ s1(1)] Cons.prems(2) by simp
  from Cons.IH [OF this _ s1(2)] Cons.prems(2) s1(1) show ?case by simp
qed

lemma event_loop_reachable:
  assumes "server_reachable w s" and "waits_ok w xs s" and "event_loop w xs s wire = Some (s', wire')"
  shows "server_reachable w s'"
  using assms
proof (induction xs arbitrary: s wire)
  case Nil
  then show ?case by simp
next
  case (Cons x xs)
  show ?case
  proof (cases x)
    case (Events es)
    with Cons.prems(3) obtain s1 wire1 where s1: "handle_events w es s wire = Some (s1, wire1)" "event_loop w xs s1 wire1 = Some (s', wire')"
      by (auto split: bind_splits)
    then obtain wire2 where "handle_events w es s [] = Some (s1, wire2)" by (subst (asm) handle_events_wire) auto
    with Cons.prems(2) Events have "events_ok w es s" "waits_ok w xs s1" by simp_all
    with Cons.IH [OF handle_events_reachable [OF Cons.prems(1) _ s1(1)]] s1(2) show ?thesis by blast
  next
    case (Wait_errno y)
    with Cons show ?thesis by (cases y) auto
  qed
qed

text \<open>The clean-up closes every connection that is left, each once.\<close>

lemma close_all_ok:
  assumes "server_inv s"
  shows "\<exists>s'. close_all fds s = Some s' \<and> server_inv s' \<and> sv_cmd s' = sv_cmd s \<and>
    conn_at s' = (\<lambda>fd. if fd \<in> set fds then None else conn_at s fd)"
  using assms
proof (induction fds arbitrary: s)
  case Nil
  then show ?case by simp
next
  case (Cons fd fds)
  show ?case
  proof (cases "conn_at s fd")
    case None
    with Cons.IH [OF Cons.prems] show ?thesis by (auto simp: fun_eq_iff)
  next
    case (Some c)
    note c = server_inv_conn [OF Cons.prems Some]
    from conn_close_inv [of s c] c Some obtain s1 where
      s1: "conn_close c s = Some s1" "server_inv s1" "conn_at s1 = (conn_at s)(fd := None)" "sv_cmd s1 = sv_cmd s" by auto
    from Cons.IH [OF s1(2)] s1 Some show ?thesis by (auto simp: fun_eq_iff)
  qed
qed

lemma shutdown_ok:
  assumes "server_inv s"
  shows "\<exists>s'. shutdown_cleanly s = Some (s', store_entries (cs_store (sv_cmd s))) \<and> sv_fds s' = {} \<and> sv_cmd s' = sv_cmd s"
proof -
  from close_all_ok [OF assms, of "[0..<length (g_conns s)]"] obtain s1 where
    s1: "close_all [0..<length (g_conns s)] s = Some s1" "server_inv s1" "sv_cmd s1 = sv_cmd s"
      "conn_at s1 = (\<lambda>fd. if fd \<in> set [0..<length (g_conns s)] then None else conn_at s fd)" by blast
  have "conn_at s1 fd = None" for fd using s1(4) by (simp add: conn_at_def [of s])
  with s1(2) have "sv_fds s1 = {}" by (simp add: server_inv_def table_inv_def)
  moreover have "store_destroy (cs_store (sv_cmd s1)) = store_entries (cs_store (sv_cmd s))"
    using store_destroy_all assms s1(3) by (simp add: server_inv_def cmd_inv_def)
  ultimately show ?thesis using s1(1,3) by (simp add: shutdown_cleanly_def)
qed


lemma map_of_singleton:
  assumes "distinct (map fst xs)" and "map_of xs = [k \<mapsto> v]"
  shows "xs = [(k, v)]"
proof -
  have "x = (k, v)" if "x \<in> set xs" for x
  proof -
    from that have "map_of xs (fst x) = Some (snd x)" using assms(1) by simp
    then show ?thesis unfolding assms(2) by (cases x) (simp split: if_splits)
  qed
  moreover have "(k, v) \<in> set xs" by (rule map_of_SomeD) (simp only: assms(2) fun_upd_same)
  ultimately have "set xs = {(k, v)}" by blast
  moreover have "distinct xs" using assms(1) by (simp add: distinct_map)
  ultimately have "length xs = 1" using distinct_card [of xs] by simp
  with \<open>set xs = {(k, v)}\<close> show ?thesis by (cases xs) auto
qed

lemma one_key_entries: "map entry_kv (live_entries 0 (snd (store_set store_create ''k'' ''v'' 0))) = [(''k'', ''v'', 0)]"
proof (rule map_of_singleton)
  let ?s = "snd (store_set store_create ''k'' ''v'' 0)"
  have inv: "store_inv ?s" by (simp add: store_set_ok store_create_inv)
  show "map_of (map entry_kv (live_entries 0 ?s)) = [''k'' \<mapsto> (''v'', 0)]"
    using live_entries_map [OF inv, of 0]
    by (simp add: entries_map_def store_set_ok store_create_inv store_create_abs expired_def)
  show "distinct (map fst (map entry_kv (live_entries 0 ?s)))"
    using live_entries_distinct [OF inv, of 0] by (simp add: entry_kv_def o_def)
qed


text \<open>The arguments of \<open>main\<close>: a port between 1 and 65535 and a path, or the usage message.\<close>

lemma main_args_port:
  assumes "main_args as port sp = Some (Args port' sp')" and "0 < port" and "port \<le> 65535"
  shows "0 < port' \<and> port' \<le> 65535"
  using assms by (induction as port sp rule: main_args.induct) (auto split: if_splits bind_splits)

end
