(* ===== verification/Work_Queue.thy ===== *)
theory Work_Queue
  imports Session
begin

text \<open>
  The work queue of \<open>src/server_threaded.c\<close>: a ring of \<open>QUEUE_CAPACITY\<close> descriptors under a mutex. Each call
  is one critical section; where the code waits on a condition variable the model returns
  \<open>Push_Waits\<close> or \<open>Pop_Waits\<close> and the caller tries again when it is woken. A locale states what the
  threads rely on, a bounded first-in first-out queue, and the ring is shown to be one. The second
  half is the pool: the accepting thread, the workers and the two condition variables, as a step
  relation over all interleavings.
\<close>

definition QUEUE_CAPACITY :: nat where "QUEUE_CAPACITY = 512"

record work_queue =
  wq_fds :: "nat list"
  wq_head :: nat
  wq_tail :: nat
  wq_count :: nat
  wq_down :: bool

text \<open>The cells are not initialised; \<open>cells\<close> is what they happen to hold.\<close>

definition wq_init :: "nat list \<Rightarrow> work_queue" where
  "wq_init cells = \<lparr>wq_fds = cells, wq_head = 0, wq_tail = 0, wq_count = 0, wq_down = False\<rparr>"

datatype push_result = Pushed | Push_Waits | Push_Closed

definition wq_push :: "work_queue \<Rightarrow> nat \<Rightarrow> (push_result \<times> work_queue) option" where
  "wq_push q fd =
     (if wq_count q = QUEUE_CAPACITY \<and> \<not> wq_down q then Some (Push_Waits, q)
      else if \<not> wq_down q then do {
        _ \<leftarrow> rd (wq_fds q) (wq_tail q);
        Some (Pushed, q\<lparr>wq_fds := (wq_fds q)[wq_tail q := fd], wq_tail := (wq_tail q + 1) mod QUEUE_CAPACITY,
                        wq_count := wq_count q + 1\<rparr>)
      } else Some (Push_Closed, q))"

datatype pop_result = Popped nat | Pop_Waits | Pop_Stop

definition wq_pop :: "work_queue \<Rightarrow> (pop_result \<times> work_queue) option" where
  "wq_pop q =
     (if wq_count q = 0 \<and> \<not> wq_down q then Some (Pop_Waits, q)
      else if wq_count q > 0 then do {
        fd \<leftarrow> rd (wq_fds q) (wq_head q);
        Some (Popped fd, q\<lparr>wq_head := (wq_head q + 1) mod QUEUE_CAPACITY, wq_count := wq_count q - 1\<rparr>)
      } else Some (Pop_Stop, q))"

definition wq_shutdown :: "work_queue \<Rightarrow> work_queue" where
  "wq_shutdown q = q\<lparr>wq_down := True\<rparr>"

section \<open>What the threads rely on\<close>

locale bounded_queue =
  fixes invar :: "'q \<Rightarrow> bool"
    and contents :: "'q \<Rightarrow> nat list"
    and capacity :: nat
    and down :: "'q \<Rightarrow> bool"
    and push :: "'q \<Rightarrow> nat \<Rightarrow> (push_result \<times> 'q) option"
    and pop :: "'q \<Rightarrow> (pop_result \<times> 'q) option"
    and stop :: "'q \<Rightarrow> 'q"
  assumes bound: "invar q \<Longrightarrow> length (contents q) \<le> capacity"
    and push_full: "invar q \<Longrightarrow> \<not> down q \<Longrightarrow> length (contents q) = capacity \<Longrightarrow> push q x = Some (Push_Waits, q)"
    and push_ok: "invar q \<Longrightarrow> \<not> down q \<Longrightarrow> length (contents q) < capacity \<Longrightarrow>
      \<exists>q'. push q x = Some (Pushed, q') \<and> invar q' \<and> \<not> down q' \<and> contents q' = contents q @ [x]"
    and push_down: "invar q \<Longrightarrow> down q \<Longrightarrow> push q x = Some (Push_Closed, q)"
    and pop_empty: "invar q \<Longrightarrow> contents q = [] \<Longrightarrow> pop q = Some (if down q then Pop_Stop else Pop_Waits, q)"
    and pop_ok: "invar q \<Longrightarrow> contents q = x # xs \<Longrightarrow>
      \<exists>q'. pop q = Some (Popped x, q') \<and> invar q' \<and> down q' = down q \<and> contents q' = xs"
    and stop_ok: "invar q \<Longrightarrow> invar (stop q) \<and> down (stop q) \<and> contents (stop q) = contents q"
begin

text \<open>Every call is defined.\<close>

lemma push_defined: "invar q \<Longrightarrow> \<exists>r q'. push q x = Some (r, q') \<and> invar q'"
  using bound push_full push_ok push_down by (cases "down q"; cases "length (contents q) = capacity") (metis le_neq_implies_less)+

lemma pop_defined: "invar q \<Longrightarrow> \<exists>r q'. pop q = Some (r, q') \<and> invar q'"
  using pop_empty pop_ok by (cases "contents q") metis+

end

section \<open>The ring is such a queue\<close>

definition wq_inv :: "work_queue \<Rightarrow> bool" where
  "wq_inv q \<longleftrightarrow> length (wq_fds q) = QUEUE_CAPACITY \<and> wq_head q < QUEUE_CAPACITY \<and> wq_count q \<le> QUEUE_CAPACITY \<and>
     wq_tail q = (wq_head q + wq_count q) mod QUEUE_CAPACITY"

definition wq_contents :: "work_queue \<Rightarrow> nat list" where
  "wq_contents q = map (\<lambda>i. wq_fds q ! ((wq_head q + i) mod QUEUE_CAPACITY)) [0..<wq_count q]"

lemma wq_init_ok: "length cells = QUEUE_CAPACITY \<Longrightarrow> wq_inv (wq_init cells) \<and> wq_contents (wq_init cells) = [] \<and> \<not> wq_down (wq_init cells)"
  by (simp add: wq_inv_def wq_init_def wq_contents_def QUEUE_CAPACITY_def)

lemma length_wq_contents [simp]: "length (wq_contents q) = wq_count q"
  by (simp add: wq_contents_def)

text \<open>The cell behind the last is none of those in use.\<close>

lemma ring_distinct:
  assumes "i < n" and "n < c"
  shows "(h + i) mod c \<noteq> (h + n) mod (c :: nat)"
proof
  assume "(h + i) mod c = (h + n) mod c"
  then have "c dvd (h + n) - (h + i)" using assms(1) by (intro mod_eq_dvd_iff_nat [THEN iffD1]) simp_all
  then have "c dvd n - i" by simp
  then have "c \<le> n - i" using assms(1) by (intro dvd_imp_le) simp_all
  then show False using assms by simp
qed

lemma wq_push_ok:
  assumes "wq_inv q" and "\<not> wq_down q" and "wq_count q < QUEUE_CAPACITY"
  shows "\<exists>q'. wq_push q fd = Some (Pushed, q') \<and> wq_inv q' \<and> \<not> wq_down q' \<and> wq_contents q' = wq_contents q @ [fd]"
proof -
  let ?q = "q\<lparr>wq_fds := (wq_fds q)[wq_tail q := fd], wq_tail := (wq_tail q + 1) mod QUEUE_CAPACITY, wq_count := wq_count q + 1\<rparr>"
  note inv = assms(1) [unfolded wq_inv_def]
  have pos: "0 < QUEUE_CAPACITY" by (simp add: QUEUE_CAPACITY_def)
  have t: "wq_tail q < length (wq_fds q)" using inv pos by simp
  have "wq_push q fd = Some (Pushed, ?q)" using assms(2,3) t by (simp add: wq_push_def)
  moreover have "wq_inv ?q" using inv assms(3) by (simp add: wq_inv_def mod_simps)
  moreover have "(wq_head q + i) mod QUEUE_CAPACITY \<noteq> wq_tail q" if "i < wq_count q" for i
    using ring_distinct [OF that assms(3)] inv by simp
  then have "wq_contents ?q = wq_contents q @ [fd]"
    using inv t by (fastforce simp: wq_contents_def nth_list_update)
  ultimately show ?thesis using assms(2) by (intro exI [of _ ?q]) simp
qed

lemma wq_pop_ok:
  assumes "wq_inv q" and "wq_contents q = x # xs"
  shows "\<exists>q'. wq_pop q = Some (Popped x, q') \<and> wq_inv q' \<and> wq_down q' = wq_down q \<and> wq_contents q' = xs"
proof -
  let ?q = "q\<lparr>wq_head := (wq_head q + 1) mod QUEUE_CAPACITY, wq_count := wq_count q - 1\<rparr>"
  note inv = assms(1) [unfolded wq_inv_def]
  have n: "wq_count q = Suc (length xs)" using arg_cong [OF assms(2), of length] by simp
  have h: "wq_head q < length (wq_fds q)" using inv by simp
  have c: "wq_contents q = wq_fds q ! wq_head q # map (\<lambda>i. wq_fds q ! ((wq_head q + 1 + i) mod QUEUE_CAPACITY)) [0..<length xs]"
    using inv by (simp add: wq_contents_def n upt_conv_Cons map_Suc_upt [symmetric] del: upt_Suc)
  have "wq_pop q = Some (Popped x, ?q)" using n h c assms(2) by (simp add: wq_pop_def)
  moreover have "wq_inv ?q" using inv n by (simp add: wq_inv_def QUEUE_CAPACITY_def mod_simps)
  moreover have "wq_contents ?q = xs" using c assms(2) n by (simp add: wq_contents_def mod_simps)
  ultimately show ?thesis by (intro exI [of _ ?q]) simp
qed

interpretation wq: bounded_queue wq_inv wq_contents QUEUE_CAPACITY wq_down wq_push wq_pop wq_shutdown
proof
  fix q x xs assume inv: "wq_inv q"
  show "length (wq_contents q) \<le> QUEUE_CAPACITY" using inv by (simp add: wq_inv_def)
  show "wq_push q x = Some (Push_Waits, q)" if "\<not> wq_down q" "length (wq_contents q) = QUEUE_CAPACITY"
    using that by (simp add: wq_push_def)
  show "\<exists>q'. wq_push q x = Some (Pushed, q') \<and> wq_inv q' \<and> \<not> wq_down q' \<and> wq_contents q' = wq_contents q @ [x]"
    if "\<not> wq_down q" "length (wq_contents q) < QUEUE_CAPACITY"
    using wq_push_ok [OF inv] that by simp
  show "wq_push q x = Some (Push_Closed, q)" if "wq_down q" using that by (simp add: wq_push_def)
  show "wq_pop q = Some (if wq_down q then Pop_Stop else Pop_Waits, q)" if "wq_contents q = []"
    using arg_cong [OF that, of length] by (simp add: wq_pop_def)
  show "\<exists>q'. wq_pop q = Some (Popped x, q') \<and> wq_inv q' \<and> wq_down q' = wq_down q \<and> wq_contents q' = xs"
    if "wq_contents q = x # xs" by (rule wq_pop_ok [OF inv that])
  show "wq_inv (wq_shutdown q) \<and> wq_down (wq_shutdown q) \<and> wq_contents (wq_shutdown q) = wq_contents q"
    using inv by (simp add: wq_inv_def wq_shutdown_def wq_contents_def)
qed

declare length_wq_contents [simp del]

section \<open>The pool\<close>

text \<open>
  A worker is about to enter (or re-test the condition of) \<open>wq_pop\<close>, asleep on \<open>not_empty\<close>, inside
  \<open>handle_conn\<close>, or gone; the accepting thread is in \<open>accept\<close>, in \<open>wq_push\<close>, asleep on \<open>not_full\<close>, in
  \<open>pthread_join\<close>, or past it.
\<close>

datatype worker = W_Run | W_Sleep | W_Conn nat | W_Exit
datatype acceptor = M_Accept | M_Push nat | M_Sleep nat | M_Join | M_Done

record pool =
  po_queue :: work_queue
  po_main :: acceptor
  po_workers :: "worker list"
  po_accepted :: "nat list"
  po_served :: "nat list"
  po_dropped :: "nat list"

text \<open>\<open>pthread_cond_signal\<close> wakes a waiter if there is one; \<open>pthread_cond_broadcast\<close> wakes all.\<close>

inductive signals :: "worker list \<Rightarrow> worker list \<Rightarrow> bool" where
  none: "W_Sleep \<notin> set ws \<Longrightarrow> signals ws ws"
| one: "i < length ws \<Longrightarrow> ws ! i = W_Sleep \<Longrightarrow> signals ws (ws[i := W_Run])"

fun wake_main :: "acceptor \<Rightarrow> acceptor" where
  "wake_main (M_Sleep fd) = M_Push fd"
| "wake_main m = m"

definition wake_all :: "worker list \<Rightarrow> worker list" where
  "wake_all = map (\<lambda>x. if x = W_Sleep then W_Run else x)"

text \<open>
  One step is one critical section, one wake-up or one return from \<open>accept\<close> or \<open>handle_conn\<close>. A call of \<open>accept\<close> that
  fails with \<open>EINTR\<close>, \<open>EMFILE\<close> or \<open>ENFILE\<close> is retried and changes nothing; any other failure, like a signal,
  ends the loop (\<open>stop\<close>).
\<close>

inductive pool_step :: "pool \<Rightarrow> pool \<Rightarrow> bool" where
  accept: "po_main p = M_Accept \<Longrightarrow>
    pool_step p (p\<lparr>po_main := M_Push fd, po_accepted := po_accepted p @ [fd]\<rparr>)"
| push: "po_main p = M_Push fd \<Longrightarrow> wq_push (po_queue p) fd = Some (Pushed, q) \<Longrightarrow> signals (po_workers p) ws \<Longrightarrow>
    pool_step p (p\<lparr>po_main := M_Accept, po_queue := q, po_workers := ws\<rparr>)"
| push_wait: "po_main p = M_Push fd \<Longrightarrow> wq_push (po_queue p) fd = Some (Push_Waits, q) \<Longrightarrow>
    pool_step p (p\<lparr>po_main := M_Sleep fd, po_queue := q\<rparr>)"
| push_closed: "po_main p = M_Push fd \<Longrightarrow> wq_push (po_queue p) fd = Some (Push_Closed, q) \<Longrightarrow>
    pool_step p (p\<lparr>po_main := M_Accept, po_queue := q, po_dropped := po_dropped p @ [fd]\<rparr>)"
| stop: "po_main p = M_Accept \<Longrightarrow>
    pool_step p (p\<lparr>po_main := M_Join, po_queue := wq_shutdown (po_queue p), po_workers := wake_all (po_workers p)\<rparr>)"
| pop: "i < length (po_workers p) \<Longrightarrow> po_workers p ! i = W_Run \<Longrightarrow> wq_pop (po_queue p) = Some (Popped fd, q) \<Longrightarrow>
    pool_step p (p\<lparr>po_queue := q, po_main := wake_main (po_main p), po_workers := (po_workers p)[i := W_Conn fd],
                   po_served := po_served p @ [fd]\<rparr>)"
| pop_wait: "i < length (po_workers p) \<Longrightarrow> po_workers p ! i = W_Run \<Longrightarrow> wq_pop (po_queue p) = Some (Pop_Waits, q) \<Longrightarrow>
    pool_step p (p\<lparr>po_queue := q, po_workers := (po_workers p)[i := W_Sleep]\<rparr>)"
| pop_stop: "i < length (po_workers p) \<Longrightarrow> po_workers p ! i = W_Run \<Longrightarrow> wq_pop (po_queue p) = Some (Pop_Stop, q) \<Longrightarrow>
    pool_step p (p\<lparr>po_queue := q, po_workers := (po_workers p)[i := W_Exit]\<rparr>)"
| conn_done: "i < length (po_workers p) \<Longrightarrow> po_workers p ! i = W_Conn fd \<Longrightarrow>
    pool_step p (p\<lparr>po_workers := (po_workers p)[i := W_Run]\<rparr>)"
| spurious: "i < length (po_workers p) \<Longrightarrow> po_workers p ! i = W_Sleep \<Longrightarrow>
    pool_step p (p\<lparr>po_workers := (po_workers p)[i := W_Run]\<rparr>)"
| spurious_main: "pool_step p (p\<lparr>po_main := wake_main (po_main p)\<rparr>)"
| join: "po_main p = M_Join \<Longrightarrow> list_all (\<lambda>x. x = W_Exit) (po_workers p) \<Longrightarrow> pool_step p (p\<lparr>po_main := M_Done\<rparr>)"

text \<open>The pool as \<open>main\<close> sets it up.\<close>

definition pool_start :: "nat list \<Rightarrow> nat \<Rightarrow> pool" where
  "pool_start cells n = \<lparr>po_queue = wq_init cells, po_main = M_Accept, po_workers = replicate n W_Run,
     po_accepted = [], po_served = [], po_dropped = []\<rparr>"

inductive pool_reachable :: "nat list \<Rightarrow> nat \<Rightarrow> pool \<Rightarrow> bool" for cells n where
  start: "pool_reachable cells n (pool_start cells n)"
| step: "pool_reachable cells n p \<Longrightarrow> pool_step p p' \<Longrightarrow> pool_reachable cells n p'"

section \<open>Its invariant\<close>

fun in_hand :: "acceptor \<Rightarrow> nat list" where
  "in_hand (M_Push fd) = [fd]"
| "in_hand (M_Sleep fd) = [fd]"
| "in_hand _ = []"

text \<open>How many workers are in a given state.\<close>

definition tally :: "worker \<Rightarrow> worker list \<Rightarrow> nat" where
  "tally x ws = count (mset ws) x"

text \<open>
  The condition that excludes lost wake-ups: while a worker sleeps there are at least as many workers
  on their way into \<open>wq_pop\<close> as there are descriptors in the queue.
\<close>

definition pool_inv :: "pool \<Rightarrow> bool" where
  "pool_inv p \<longleftrightarrow>
     (let q = po_queue p; ws = po_workers p; m = po_main p in
      wq_inv q \<and> po_dropped p = [] \<and>
      po_accepted p = po_served p @ wq_contents q @ in_hand m \<and>
      (wq_down q \<longleftrightarrow> m = M_Join \<or> m = M_Done) \<and>
      (wq_down q \<longrightarrow> tally W_Sleep ws = 0) \<and>
      (0 < tally W_Sleep ws \<longrightarrow> length (wq_contents q) \<le> tally W_Run ws) \<and>
      (0 < tally W_Exit ws \<longrightarrow> wq_down q \<and> wq_contents q = []) \<and>
      (\<forall>fd. m = M_Sleep fd \<longrightarrow> length (wq_contents q) = QUEUE_CAPACITY) \<and>
      (m = M_Done \<longrightarrow> list_all (\<lambda>x. x = W_Exit) ws))"

lemma tally_update:
  assumes "i < length ws"
  shows "tally x (ws[i := v]) = tally x ws - (if ws ! i = x then 1 else 0) + (if v = x then 1 else 0)"
  using assms by (simp add: tally_def mset_update)

lemma tally_nth: "i < length ws \<Longrightarrow> ws ! i = x \<Longrightarrow> 0 < tally x ws"
  by (auto simp: tally_def count_greater_zero_iff)

lemma tally_pos: "0 < tally x ws \<longleftrightarrow> x \<in> set ws"
  by (simp add: tally_def)

lemma tally_wake_all: "tally W_Sleep (wake_all ws) = 0" "tally W_Exit (wake_all ws) = tally W_Exit ws"
  by (induction ws) (auto simp: wake_all_def tally_def)

lemma tally_start: "tally W_Sleep (replicate n W_Run) = 0" "tally W_Exit (replicate n W_Run) = 0"
  by (induction n) (simp_all add: tally_def)

lemma pool_start_inv: "length cells = QUEUE_CAPACITY \<Longrightarrow> pool_inv (pool_start cells n)"
  using wq_init_ok [of cells] by (simp add: pool_inv_def pool_start_def Let_def tally_start)

text \<open>Reading the outcome of a call back.\<close>

lemma push_outcome:
  assumes "wq_inv q" and "wq_push q x = Some (r, q')"
  shows "wq_inv q' \<and> wq_down q' = wq_down q \<and>
    (case r of
       Pushed \<Rightarrow> \<not> wq_down q \<and> wq_contents q' = wq_contents q @ [x]
     | Push_Waits \<Rightarrow> q' = q \<and> \<not> wq_down q \<and> length (wq_contents q) = QUEUE_CAPACITY
     | Push_Closed \<Rightarrow> q' = q \<and> wq_down q)"
proof -
  consider "wq_down q" | "\<not> wq_down q" "length (wq_contents q) = QUEUE_CAPACITY"
    | "\<not> wq_down q" "length (wq_contents q) < QUEUE_CAPACITY"
    using wq.bound [OF assms(1)] by fastforce
  then show ?thesis
  proof cases
    case 1
    then show ?thesis using wq.push_down [OF assms(1)] assms by auto
  next
    case 2
    then show ?thesis using wq.push_full [OF assms(1)] assms by auto
  next
    case 3
    then show ?thesis using wq.push_ok [OF assms(1), of x] assms(2) by auto
  qed
qed

lemma pop_outcome:
  assumes "wq_inv q" and "wq_pop q = Some (r, q')"
  shows "wq_inv q' \<and> wq_down q' = wq_down q \<and>
    (case r of
       Popped x \<Rightarrow> wq_contents q = x # wq_contents q'
     | Pop_Waits \<Rightarrow> q' = q \<and> \<not> wq_down q \<and> wq_contents q = []
     | Pop_Stop \<Rightarrow> q' = q \<and> wq_down q \<and> wq_contents q = [])"
proof (cases "wq_contents q")
  case Nil
  then show ?thesis using wq.pop_empty [OF assms(1)] assms by (auto split: if_splits)
next
  case (Cons x xs)
  then show ?thesis using wq.pop_ok [OF assms(1) Cons] assms(2) by auto
qed

lemma signals_count:
  assumes "signals ws ws'"
  shows "tally W_Exit ws' = tally W_Exit ws"
    "tally W_Sleep ws' = tally W_Sleep ws - 1"
    "0 < tally W_Sleep ws \<Longrightarrow> tally W_Run ws' = tally W_Run ws + 1"
  using assms by (cases; auto simp: tally_update tally_nth simp flip: tally_pos)+

lemma not_done:
  "pool_inv p \<Longrightarrow> i < length (po_workers p) \<Longrightarrow> po_workers p ! i \<noteq> W_Exit \<Longrightarrow> po_main p \<noteq> M_Done"
  by (auto simp: pool_inv_def Let_def list_all_length)

lemma pool_step_inv:
  assumes "pool_inv p" and "pool_step p p'"
  shows "pool_inv p'"
  using assms(2,1)
proof cases
  case (accept fd)
  then show ?thesis using assms(1) by (auto simp: pool_inv_def Let_def)
next
  case (push fd q ws)
  note o = push_outcome [OF _ push(3)]
  show ?thesis using assms(1) push o signals_count [OF push(4)] by (auto simp: pool_inv_def Let_def)
next
  case (push_wait fd q)
  then show ?thesis using assms(1) push_outcome [OF _ push_wait(3)] by (auto simp: pool_inv_def Let_def)
next
  case (push_closed fd q)
  then show ?thesis using assms(1) push_outcome [OF _ push_closed(3)] by (auto simp: pool_inv_def Let_def)
next
  case stop
  then show ?thesis using assms(1) wq.stop_ok by (auto simp: pool_inv_def Let_def tally_wake_all)
next
  case (pop i fd q)
  then show ?thesis using assms(1) pop_outcome [OF _ pop(4)] tally_nth [OF pop(2,3)] not_done [OF assms(1) pop(2)]
    by (cases "po_main p") (auto simp: pool_inv_def Let_def tally_update)
next
  case (pop_wait i q)
  then show ?thesis using assms(1) pop_outcome [OF _ pop_wait(4)] not_done [OF assms(1) pop_wait(2)]
    by (auto simp: pool_inv_def Let_def tally_update)
next
  case (pop_stop i q)
  then show ?thesis using assms(1) pop_outcome [OF _ pop_stop(4)] not_done [OF assms(1) pop_stop(2)]
    by (auto simp: pool_inv_def Let_def tally_update)
next
  case (conn_done i fd)
  then show ?thesis using assms(1) not_done [OF assms(1) conn_done(2)] by (auto simp: pool_inv_def Let_def tally_update)
next
  case (spurious i)
  then show ?thesis using assms(1) not_done [OF assms(1) spurious(2)] by (auto simp: pool_inv_def Let_def tally_update)
next
  case spurious_main
  then show ?thesis using assms(1) by (cases "po_main p") (auto simp: pool_inv_def Let_def)
next
  case join
  then show ?thesis using assms(1) by (auto simp: pool_inv_def Let_def)
qed

lemma pool_reachable_inv:
  assumes "length cells = QUEUE_CAPACITY" and "pool_reachable cells n p"
  shows "pool_inv p \<and> length (po_workers p) = n"
  using assms(2)
proof induction
  case start
  then show ?case using pool_start_inv [OF assms(1)] by (simp add: pool_start_def)
next
  case (step p p')
  have "length ws' = length ws" if "signals ws ws'" for ws ws' using that by cases simp_all
  with step.hyps(2) have "length (po_workers p') = length (po_workers p)" by cases (simp_all add: wake_all_def)
  with step.IH pool_step_inv [OF _ step.hyps(2)] show ?case by simp
qed

text \<open>A worker that is neither asleep nor gone can move.\<close>

lemma worker_moves:
  assumes "wq_inv (po_queue p)" and "wq_down (po_queue p)" and "i < length (po_workers p)"
    and "po_workers p ! i = W_Run \<or> (\<exists>fd. po_workers p ! i = W_Conn fd)"
  shows "\<exists>p'. pool_step p p' \<and> po_workers p' \<noteq> po_workers p"
proof -
  have ne: "(po_workers p)[i := x] \<noteq> po_workers p" if "x \<noteq> po_workers p ! i" for x
    using that assms(3) by (metis nth_list_update_eq)
  show ?thesis
  proof (cases "po_workers p ! i = W_Run")
    case False
    then obtain fd where fd: "po_workers p ! i = W_Conn fd" using assms(4) by blast
    show ?thesis by (rule exI, rule conjI, rule pool_step.conn_done [OF assms(3) fd]) (simp add: ne fd)
  next
    case True
    obtain r q' where r: "wq_pop (po_queue p) = Some (r, q')" using wq.pop_defined [OF assms(1)] by blast
    show ?thesis
    proof (cases r)
      case (Popped fd)
      show ?thesis by (rule exI, rule conjI, rule pool_step.pop [OF assms(3) True r [unfolded Popped]]) (simp add: ne True)
    next
      case Pop_Waits
      then show ?thesis using pop_outcome [OF assms(1) r] assms(2) by simp
    next
      case Pop_Stop
      show ?thesis by (rule exI, rule conjI, rule pool_step.pop_stop [OF assms(3) True r [unfolded Pop_Stop]]) (simp add: ne True)
    qed
  qed
qed

section \<open>The shutdown ends\<close>

text \<open>What is left to do once \<open>wq_shutdown\<close> has been called.\<close>

fun worker_work :: "worker \<Rightarrow> nat" where
  "worker_work (W_Conn fd) = 2"
| "worker_work W_Exit = 0"
| "worker_work _ = 1"

definition shutdown_work :: "pool \<Rightarrow> nat" where
  "shutdown_work p =
     3 * length (wq_contents (po_queue p)) + sum_list (map worker_work (po_workers p)) + (if po_main p = M_Join then 1 else 0)"

lemma sum_list_map_update:
  "i < length xs \<Longrightarrow> sum_list (map f (xs[i := v])) + f (xs ! i) = sum_list (map f xs) + (f v :: nat)"
  by (induction xs arbitrary: i) (auto split: nat.splits)

lemma worker_work_update:
  assumes "i < length ws" and "ws ! i = a"
  shows "sum_list (map worker_work (ws[i := v])) + worker_work a = sum_list (map worker_work ws) + worker_work v"
  using sum_list_map_update [OF assms(1), of worker_work v] assms(2) by simp

lemma shutdown_step:
  assumes "pool_inv p" and "po_main p = M_Join" and "pool_step p p'"
  shows "p' = p \<or> shutdown_work p' < shutdown_work p \<and> po_main p' \<in> {M_Join, M_Done}"
  using assms(3)
proof cases
  case (pop i fd q)
  have "wq_inv (po_queue p)" using assms(1) by (simp add: pool_inv_def Let_def)
  from pop_outcome [OF this pop(4)] worker_work_update [OF pop(2,3), of "W_Conn fd"] pop(1) assms(2) show ?thesis
    by (simp add: shutdown_work_def)
next
  case (pop_wait i q)
  have "wq_inv (po_queue p)" "wq_down (po_queue p)" using assms(1,2) by (simp_all add: pool_inv_def Let_def)
  with pop_outcome [OF this(1) pop_wait(4)] show ?thesis by simp
next
  case (pop_stop i q)
  have "wq_inv (po_queue p)" using assms(1) by (simp add: pool_inv_def Let_def)
  from pop_outcome [OF this pop_stop(4)] worker_work_update [OF pop_stop(2,3), of W_Exit] pop_stop(1) assms(2) show ?thesis
    by (simp add: shutdown_work_def)
next
  case (conn_done i fd)
  from worker_work_update [OF conn_done(2,3), of W_Run] conn_done(1) assms(2) show ?thesis by (simp add: shutdown_work_def)
next
  case (spurious i)
  have "tally W_Sleep (po_workers p) = 0" using assms(1,2) by (simp add: pool_inv_def Let_def)
  with tally_nth [OF spurious(2,3)] show ?thesis by simp
next
  case join
  then show ?thesis using assms(2) by (simp add: shutdown_work_def)
qed (use assms(2) in simp_all)

text \<open>While \<open>main\<close> waits, a worker that is not gone, or \<open>main\<close> itself, can move.\<close>

lemma shutdown_moves:
  assumes "pool_inv p" and "po_main p = M_Join"
  shows "\<exists>p'. pool_step p p' \<and> p' \<noteq> p"
proof (cases "list_all (\<lambda>x. x = W_Exit) (po_workers p)")
  case True
  from pool_step.join [OF assms(2) True] assms(2) show ?thesis by (intro exI conjI) (auto dest: arg_cong [of _ _ po_main])
next
  case False
  then obtain i where i: "i < length (po_workers p)" "po_workers p ! i \<noteq> W_Exit" by (auto simp: list_all_length)
  have q: "wq_inv (po_queue p)" "wq_down (po_queue p)" "tally W_Sleep (po_workers p) = 0"
    using assms by (auto simp: pool_inv_def Let_def)
  have "po_workers p ! i \<noteq> W_Sleep" using tally_nth [OF i(1) refl] q(3) by auto
  with i(2) have "po_workers p ! i = W_Run \<or> (\<exists>fd. po_workers p ! i = W_Conn fd)" by (cases "po_workers p ! i") auto
  from worker_moves [OF q(1,2) i(1) this] show ?thesis by metis
qed

lemma shutdown_reaches_done:
  assumes "pool_inv p" and "po_main p = M_Join"
  shows "\<exists>p'. pool_step\<^sup>*\<^sup>* p p' \<and> po_main p' = M_Done"
  using assms
proof (induction "shutdown_work p" arbitrary: p rule: less_induct)
  case less
  from shutdown_moves [OF less.prems] obtain p1 where p1: "pool_step p p1" "p1 \<noteq> p" by blast
  note d = shutdown_step [OF less.prems p1(1)]
  show ?case
  proof (cases "po_main p1 = M_Done")
    case True
    with p1(1) show ?thesis by blast
  next
    case False
    with d p1(2) have "shutdown_work p1 < shutdown_work p" "po_main p1 = M_Join" by auto
    from less.hyps [OF this(1) pool_step_inv [OF less.prems(1) p1(1)] this(2)] p1(1) show ?thesis
      by (meson converse_rtranclp_into_rtranclp)
  qed
qed

lemma pool_all_served:
  assumes "length cells = QUEUE_CAPACITY" and "pool_reachable cells n p" and "0 < n"
  shows "po_accepted p = po_served p @ wq_contents (po_queue p) @ in_hand (po_main p) \<and> po_dropped p = [] \<and>
    (po_main p = M_Done \<longrightarrow> po_served p = po_accepted p)"
proof -
  have inv: "pool_inv p" "length (po_workers p) = n" using pool_reachable_inv [OF assms(1,2)] by simp_all
  have "wq_contents (po_queue p) = []" if d: "po_main p = M_Done"
  proof -
    have "po_workers p ! 0 = W_Exit" using inv d assms(3) by (simp add: pool_inv_def Let_def list_all_length)
    then show ?thesis using inv assms(3) tally_nth [of 0 "po_workers p" W_Exit] by (simp add: pool_inv_def Let_def)
  qed
  then show ?thesis using inv(1) by (auto simp: pool_inv_def Let_def)
qed

lemma pool_reachable_steps: "pool_step\<^sup>*\<^sup>* p p' \<Longrightarrow> pool_reachable cells n p \<Longrightarrow> pool_reachable cells n p'"
  by (induction rule: rtranclp_induct) (auto intro: pool_reachable.step)

section \<open>Properties\<close>

text \<open>
  C29: the ring of descriptors is a first-in first-out queue of at most \<open>QUEUE_CAPACITY\<close> elements: no access
  leaves the array, a push into a full queue waits, a pop returns the oldest element, also while the
  queue is shutting down, and only an empty queue that is shutting down stops a worker.
\<close>

theorem work_queue_refines:
  assumes "wq_inv q"
  shows "(\<exists>r q'. wq_push q x = Some (r, q') \<and> wq_inv q' \<and>
      (if wq_down q then r = Push_Closed \<and> q' = q
       else if length (wq_contents q) = QUEUE_CAPACITY then r = Push_Waits \<and> q' = q
       else r = Pushed \<and> wq_contents q' = wq_contents q @ [x])) \<and>
    (\<exists>r q'. wq_pop q = Some (r, q') \<and> wq_inv q' \<and>
      (case wq_contents q of
         [] \<Rightarrow> r = (if wq_down q then Pop_Stop else Pop_Waits) \<and> q' = q
       | y # ys \<Rightarrow> r = Popped y \<and> wq_contents q' = ys))"
proof
  from wq.push_defined [OF assms, of x] obtain r q' where "wq_push q x = Some (r, q')" by blast
  with push_outcome [OF assms this] show "\<exists>r q'. wq_push q x = Some (r, q') \<and> wq_inv q' \<and>
      (if wq_down q then r = Push_Closed \<and> q' = q
       else if length (wq_contents q) = QUEUE_CAPACITY then r = Push_Waits \<and> q' = q
       else r = Pushed \<and> wq_contents q' = wq_contents q @ [x])"
    using wq.push_full [OF assms, of x] by (cases r) auto
next
  from wq.pop_defined [OF assms] obtain r q' where "wq_pop q = Some (r, q')" by blast
  with pop_outcome [OF assms this] show "\<exists>r q'. wq_pop q = Some (r, q') \<and> wq_inv q' \<and>
      (case wq_contents q of
         [] \<Rightarrow> r = (if wq_down q then Pop_Stop else Pop_Waits) \<and> q' = q
       | y # ys \<Rightarrow> r = Popped y \<and> wq_contents q' = ys)"
    by (cases r) auto
qed

theorem work_queue_refines_witness:
  "\<exists>q'. wq_push (wq_init (replicate 512 0)) 7 = Some (Pushed, q') \<and> wq_contents q' = [7]"
  using work_queue_refines [of "wq_init (replicate 512 0)" 7] wq_init_ok [of "replicate 512 0"]
  by (auto simp: QUEUE_CAPACITY_def)

text \<open>
  C12: in every interleaving of the accepting thread and the workers, with spurious wake-ups, connections
  are handed to workers in the order in which they were accepted; none is lost or handed out twice;
  none is dropped by the shutdown; and when \<open>main\<close> has joined its workers every one was served.
\<close>

theorem pool_serves_all:
  assumes "length cells = QUEUE_CAPACITY" and "pool_reachable cells n p" and "0 < n"
  shows "po_accepted p = po_served p @ wq_contents (po_queue p) @ in_hand (po_main p) \<and> po_dropped p = [] \<and>
    (po_main p = M_Done \<longrightarrow> po_served p = po_accepted p)"
  by (rule pool_all_served [OF assms])

text \<open>
  C13: no wake-up is lost: while a connection is queued and a worker sleeps, some worker is on its way to
  the queue; the accepting thread sleeps only while the queue is full; once a shutdown has begun
  nobody sleeps, so each worker that \<open>main\<close> waits for can take its next step.
\<close>

theorem pool_no_lost_wakeup:
  assumes "length cells = QUEUE_CAPACITY" and "pool_reachable cells n p"
  shows "(wq_contents (po_queue p) \<noteq> [] \<longrightarrow> W_Sleep \<in> set (po_workers p) \<longrightarrow> W_Run \<in> set (po_workers p)) \<and>
    (\<forall>fd. po_main p = M_Sleep fd \<longrightarrow> length (wq_contents (po_queue p)) = QUEUE_CAPACITY) \<and>
    (wq_down (po_queue p) \<longrightarrow> W_Sleep \<notin> set (po_workers p)) \<and>
    (po_main p = M_Join \<longrightarrow> (\<exists>p'. pool_step p p' \<and> p' \<noteq> p))"
proof -
  have inv: "pool_inv p" using pool_reachable_inv [OF assms] by simp
  have run: "W_Run \<in> set (po_workers p)" if "wq_contents (po_queue p) \<noteq> []" "W_Sleep \<in> set (po_workers p)"
    using inv that unfolding tally_pos [symmetric] by (cases "wq_contents (po_queue p)") (auto simp: pool_inv_def Let_def)
  have awake: "W_Sleep \<notin> set (po_workers p)" if "wq_down (po_queue p)"
    using inv that by (auto simp: pool_inv_def Let_def simp flip: tally_pos)
  with run shutdown_moves [OF inv] inv show ?thesis by (auto simp: pool_inv_def Let_def)
qed

theorem pool_serves_all_witness:
  "\<exists>p. pool_reachable (replicate 512 0) 4 p \<and> po_accepted p = [7] \<and> po_served p @ wq_contents (po_queue p) @ in_hand (po_main p) = [7]"
proof -
  let ?p = "pool_start (replicate 512 0) 4"
  let ?p1 = "?p\<lparr>po_main := M_Push 7, po_accepted := po_accepted ?p @ [7]\<rparr>"
  have "pool_step ?p ?p1" by (rule pool_step.accept) (simp add: pool_start_def)
  with pool_reachable.start have r: "pool_reachable (replicate 512 0) 4 ?p1" by (rule pool_reachable.step)
  have "po_accepted ?p1 = [7]" by (simp add: pool_start_def)
  with pool_serves_all [OF _ r] r show ?thesis by (intro exI [of _ ?p1]) (simp add: QUEUE_CAPACITY_def)
qed

theorem pool_no_lost_wakeup_witness:
  "\<exists>p. pool_reachable (replicate 512 0) 1 p \<and> po_main p = M_Join \<and> (\<exists>p'. pool_step p p' \<and> p' \<noteq> p)"
proof -
  let ?p = "pool_start (replicate 512 0) 1"
  let ?p1 = "?p\<lparr>po_main := M_Join, po_queue := wq_shutdown (po_queue ?p), po_workers := wake_all (po_workers ?p)\<rparr>"
  have "pool_step ?p ?p1" by (rule pool_step.stop) (simp add: pool_start_def)
  with pool_reachable.start have r: "pool_reachable (replicate 512 0) 1 ?p1" by (rule pool_reachable.step)
  with pool_no_lost_wakeup [OF _ r] show ?thesis by (intro exI [of _ ?p1]) (simp add: QUEUE_CAPACITY_def)
qed



end
