(* ===== verification/Server_Threaded.thy ===== *)
theory Server_Threaded
  imports Work_Queue
begin

text \<open>
  The threaded server (\<open>src/server_threaded.c\<close>) but for its work queue: the input buffer of a
  connection, \<open>write_all\<close>, \<open>handle_conn\<close> and the arguments of \<open>main\<close>. A worker holds \<open>g_store_mu\<close> for each call of
  \<open>cmd_dispatch\<close> and for nothing else, so what the other workers do to the shared state happens between
  two such calls: \<open>oth i\<close> is what they did before the i-th command of this connection.
\<close>

definition THREADED_DEFAULT_PORT :: int where "THREADED_DEFAULT_PORT = 6380"
definition DEFAULT_WORKERS :: int where "DEFAULT_WORKERS = 4"
definition MAX_INPUT_BUF :: nat where "MAX_INPUT_BUF = 16 * 1024 * 1024"

definition dyn_buf_append :: "gbuf \<Rightarrow> bytes \<Rightarrow> gbuf option" where
  "dyn_buf_append b d = gb_append 4096 b d"

definition dyn_buf_consume :: "gbuf \<Rightarrow> nat \<Rightarrow> gbuf option" where
  "dyn_buf_consume b n = gb_consume b n"

text \<open>
  \<open>write_all\<close> on a blocking socket: the result, the bytes that went out and the outcomes not used. A socket
  whose outcomes are used up takes everything.
\<close>

fun write_all :: "write_res list \<Rightarrow> bytes \<Rightarrow> int \<times> bytes \<times> write_res list" where
  "write_all [] d = (0, d, [])"
| "write_all (r # rs) d =
     (if d = [] then (0, [], r # rs)
      else
        (case r of
           Wr k \<Rightarrow>
             (let n = min k (length d) in
              if n > 0 then (let (rc, s, rs') = write_all rs (drop n d) in (rc, take n d @ s, rs')) else (- 1, [], rs))
         | Wr_errno EINTR \<Rightarrow> write_all rs d
         | Wr_errno _ \<Rightarrow> (- 1, [], rs)))"

text \<open>\<open>if (out.len > 0) { if (write_all (...) < 0) fatal = 1; out.len = 0; }\<close>\<close>

definition flush_replies :: "write_res list \<Rightarrow> gbuf \<Rightarrow> (int \<times> bytes \<times> write_res list \<times> gbuf) option" where
  "flush_replies ws out =
     (if gb_len out > 0 then do {
        d \<leftarrow> gb_read out 0 (gb_len out);
        let (rc, s, ws') = write_all ws d;
        Some (rc, s, ws', out\<lparr>gb_len := 0\<rparr>)
      } else Some (0, [], ws, out))"

lemma dyn_consume_len: "dyn_buf_consume b n = Some b' \<Longrightarrow> gb_len b' = gb_len b - n \<and> n \<le> gb_len b"
  by (auto simp: dyn_buf_consume_def gb_consume_def size_sub_def split: if_splits bind_splits)

record worker_conn =
  wc_in :: gbuf
  wc_out :: gbuf
  wc_ws :: "write_res list"
  wc_sent :: bytes

text \<open>
  The loop over the complete commands of the buffer: the shared state, the connection, the position in
  the world and whether the connection is to be dropped.
\<close>

function conn_commands ::
    "world \<Rightarrow> (nat \<Rightarrow> cmd_state \<Rightarrow> cmd_state) \<Rightarrow> nat \<Rightarrow> cmd_state \<Rightarrow> worker_conn \<Rightarrow> (cmd_state \<times> worker_conn \<times> nat \<times> bool) option" where
  "conn_commands w oth i st c =
     (if gb_len (wc_in c) > 0 then do {
        buf \<leftarrow> gb_read (wc_in c) 0 (gb_len (wc_in c));
        r \<leftarrow> resp_parse (w_mem w i) buf;
        case r of
          RESP_PARSE_INCOMPLETE \<Rightarrow> Some (st, c, i, False)
        | RESP_PARSE_ERROR err \<Rightarrow> do {
            out \<leftarrow> resp_reply_error err (wc_out c);
            (rc, s, ws, out) \<leftarrow> flush_replies (wc_ws c) out;
            Some (st, c\<lparr>wc_out := out, wc_ws := ws, wc_sent := wc_sent c @ s\<rparr>, i, True)
          }
        | RESP_PARSE_OK argv consumed \<Rightarrow> do {
            x \<leftarrow> cmd_dispatch (w_env w i) argv (oth i st) (wc_out c);
            inb \<leftarrow> dyn_buf_consume (wc_in c) consumed;
            y \<leftarrow> flush_replies (wc_ws c) (snd x);
            (let c' = c\<lparr>wc_in := inb, wc_out := snd (snd (snd y)), wc_ws := fst (snd (snd y)), wc_sent := wc_sent c @ fst (snd y)\<rparr>
             in if fst y < 0 then Some (fst x, c', i + 1, True) else conn_commands w oth (i + 1) (fst x) c')
          }
      } else Some (st, c, i, False))"
  by pat_completeness auto
termination
proof (relation "measure (\<lambda>(w, oth, i, st, c). gb_len (wc_in c))", goal_cases)
  case 1
  show ?case by simp
next
  case (2 w oth i st c buf r argv consumed x inb y c')
  then show ?case
    using resp.parse_progress [of "w_mem w i" buf argv consumed] dyn_consume_len [of "wc_in c" consumed inb] by auto
qed

declare conn_commands.simps [simp del]

text \<open>
  The read loop of \<open>handle_conn\<close>, over the outcomes of \<open>read\<close>; when they are used up the peer has closed.
\<close>

primrec conn_reads ::
    "world \<Rightarrow> (nat \<Rightarrow> cmd_state \<Rightarrow> cmd_state) \<Rightarrow> read_res list \<Rightarrow> nat \<Rightarrow> cmd_state \<Rightarrow> worker_conn \<Rightarrow> (cmd_state \<times> worker_conn \<times> nat) option" where
  "conn_reads w oth [] i st c = Some (st, c, i)"
| "conn_reads w oth (r # rs) i st c =
     (case r of
        Rd d \<Rightarrow>
          if length d = 0 then Some (st, c, i)
          else if gb_len (wc_in c) + length d > MAX_INPUT_BUF then do {
            out \<leftarrow> resp_reply_error ''ERR input buffer limit exceeded'' (wc_out c);
            d \<leftarrow> gb_read out 0 (gb_len out);
            (let (rc, s, ws) = write_all (wc_ws c) d
             in Some (st, c\<lparr>wc_out := out, wc_ws := ws, wc_sent := wc_sent c @ s\<rparr>, i))
          } else do {
            inb \<leftarrow> dyn_buf_append (wc_in c) d;
            (st, c, i, fatal) \<leftarrow> conn_commands w oth i st (c\<lparr>wc_in := inb\<rparr>);
            if fatal then Some (st, c, i) else conn_reads w oth rs i st c
          }
      | Rd_errno EINTR \<Rightarrow> conn_reads w oth rs i st c
      | Rd_errno _ \<Rightarrow> Some (st, c, i))"

text \<open>The state left behind, the bytes the client got and the number of commands executed.\<close>

definition handle_conn ::
    "world \<Rightarrow> (nat \<Rightarrow> cmd_state \<Rightarrow> cmd_state) \<Rightarrow> read_res list \<Rightarrow> write_res list \<Rightarrow> nat \<Rightarrow> cmd_state \<Rightarrow> (cmd_state \<times> bytes \<times> nat) option" where
  "handle_conn w oth rs ws i st = do {
     (st, c, i) \<leftarrow> conn_reads w oth rs i st \<lparr>wc_in = gb_null, wc_out = resp_buf_init, wc_ws = ws, wc_sent = []\<rparr>;
     Some (st, wc_sent c, i)
   }"

section \<open>The arguments of \<open>main\<close>\<close>

datatype threaded_args = T_Usage | T_Args int int "bytes option"

fun threaded_args_loop :: "bytes list \<Rightarrow> int \<Rightarrow> int \<Rightarrow> bytes option \<Rightarrow> threaded_args option" where
  "threaded_args_loop [] port num_workers save_path = Some (T_Args port num_workers save_path)"
| "threaded_args_loop (a # as) port num_workers save_path =
     (if is_save_flag a \<and> as \<noteq> [] then threaded_args_loop (drop 1 as) port num_workers (Some (hd as))
      else if port = THREADED_DEFAULT_PORT then do {
        v \<leftarrow> atoi a;
        if v > 0 then threaded_args_loop as v num_workers save_path else Some T_Usage
      }
      else if num_workers = DEFAULT_WORKERS then do {
        v \<leftarrow> atoi a;
        if v > 0 then threaded_args_loop as port v save_path else Some T_Usage
      }
      else Some T_Usage)"

definition threaded_main_args :: "bytes list \<Rightarrow> threaded_args option" where
  "threaded_main_args as = do {
     r \<leftarrow> threaded_args_loop as THREADED_DEFAULT_PORT DEFAULT_WORKERS None;
     (case r of
        T_Usage \<Rightarrow> Some T_Usage
      | T_Args port num_workers save_path \<Rightarrow>
          if port \<le> 0 \<or> port > 65535 \<or> num_workers \<le> 0 then Some T_Usage else Some r)
   }"

section \<open>Buffers and writes\<close>

interpretation dyn_buf: byte_fifo gb_wf gb_bytes dyn_buf_append dyn_buf_consume
proof
  show "\<exists>b'. dyn_buf_append b d = Some b' \<and> gb_wf b' \<and> gb_bytes b' = gb_bytes b @ d" if "gb_wf b" for b d
    using gb_append_ok [OF that, of 4096 d] by (simp add: dyn_buf_append_def)
  show "\<exists>b'. dyn_buf_consume b n = Some b' \<and> gb_wf b' \<and> gb_bytes b' = drop n (gb_bytes b)"
    if "gb_wf b" "n \<le> length (gb_bytes b)" for b n
    using gb_consume_ok [OF that] by (simp add: dyn_buf_consume_def)
qed

text \<open>Outcomes of a blocking \<open>write\<close> to a peer that is there.\<close>

fun steady :: "write_res \<Rightarrow> bool" where
  "steady (Wr k) = (0 < k)"
| "steady (Wr_errno e) = (e = EINTR)"

lemma write_all_ok:
  assumes "write_all ws d = (rc, s, ws')"
  shows "\<exists>rest. d = s @ rest \<and> (rc = 0 \<and> rest = [] \<or> rc = - 1 \<and> \<not> list_all steady ws) \<and> (list_all steady ws \<longrightarrow> list_all steady ws')"
  using assms
proof (induction ws d arbitrary: rc s rule: write_all.induct)
  case (1 d)
  then show ?case by simp
next
  case (2 r rs d)
  show ?case
  proof (cases "d = []")
    case True
    then show ?thesis using "2.prems" by auto
  next
    case False
    show ?thesis
    proof (cases r)
      case (Wr k)
      let ?n = "min k (length d)"
      show ?thesis
      proof (cases "0 < ?n")
        case True
        obtain rc' s' where w: "write_all rs (drop ?n d) = (rc', s', ws')" "rc = rc'" "s = take ?n d @ s'"
          using "2.prems" False Wr True by (auto simp: Let_def split: prod.splits)
        from "2.IH"(1) [OF False Wr refl True w(1)] obtain rest where
          "drop ?n d = s' @ rest" "rc' = 0 \<and> rest = [] \<or> rc' = - 1 \<and> \<not> list_all steady rs" "list_all steady rs \<longrightarrow> list_all steady ws'" by blast
        moreover from this(1) have "d = (take ?n d @ s') @ rest" using append_take_drop_id [of ?n d] by simp
        ultimately show ?thesis using w(2,3) Wr by auto
      qed (use "2.prems" False Wr in auto)
    next
      case (Wr_errno e)
      show ?thesis
      proof (cases e)
        case EINTR
        with "2.IH"(2) [OF False Wr_errno] "2.prems" False Wr_errno show ?thesis by simp
      qed (use "2.prems" False Wr_errno in auto)
    qed
  qed
qed

lemma flush_replies_ok:
  assumes "gb_wf out"
  shows "\<exists>rc s ws' out' rest. flush_replies ws out = Some (rc, s, ws', out') \<and> gb_wf out' \<and> gb_bytes out' = [] \<and>
    gb_bytes out = s @ rest \<and> (rc = 0 \<and> rest = [] \<or> rc = - 1 \<and> \<not> list_all steady ws) \<and> (list_all steady ws \<longrightarrow> list_all steady ws')"
proof (cases "gb_len out > 0")
  case True
  have rdo: "gb_read out 0 (gb_len out) = Some (gb_bytes out)"
    using gb_read_ok [OF assms, of 0 "length (gb_bytes out)"] gb_len_bytes [OF assms] by simp
  obtain rc s ws' where w: "write_all ws (gb_bytes out) = (rc, s, ws')" by (cases "write_all ws (gb_bytes out)")
  have "gb_wf (out\<lparr>gb_len := 0\<rparr>)" "gb_bytes (out\<lparr>gb_len := 0\<rparr>) = []" using assms by (simp_all add: gb_wf_def gb_bytes_def)
  with write_all_ok [OF w] True rdo w show ?thesis by (auto simp: flush_replies_def)
next
  case False
  then show ?thesis using assms gb_len_bytes [OF assms] by (simp add: flush_replies_def)
qed

section \<open>Commands interleaved with those of other connections\<close>

fun exec_shared ::
    "world \<Rightarrow> (nat \<Rightarrow> cmd_state \<Rightarrow> cmd_state) \<Rightarrow> nat \<Rightarrow> bytes list list \<Rightarrow> cmd_state \<Rightarrow> (cmd_state \<times> bytes) option" where
  "exec_shared w oth i [] st = Some (st, [])"
| "exec_shared w oth i (c # cs) st = do {
     (st1, x) \<leftarrow> exec_cmds w i [c] (oth i st);
     (st2, y) \<leftarrow> exec_shared w oth (i + 1) cs st1;
     Some (st2, x @ y)
   }"

text \<open>The other workers execute commands too, so they keep the invariant of the state.\<close>

definition oth_ok :: "(nat \<Rightarrow> cmd_state \<Rightarrow> cmd_state) \<Rightarrow> bool" where
  "oth_ok oth \<longleftrightarrow> (\<forall>i st. cmd_inv st \<longrightarrow> cmd_inv (oth i st))"

lemma exec_one:
  assumes "cmd_inv st" and "gb_wf out" and "world_ok w" and "length c < 2 ^ 63" and "\<not> ttl_overflow (w_env w i) c"
  shows "\<exists>st1 out1 x. exec_cmds w i [c] st = Some (st1, x) \<and> cmd_dispatch (w_env w i) c st out = Some (st1, out1) \<and>
    cmd_inv st1 \<and> gb_wf out1 \<and> gb_bytes out1 = gb_bytes out @ x"
  using run_cmds_exec [OF assms(1-3), of "[c]" i] assms(4,5) by (auto split: bind_splits)

lemma exec_shared_ok:
  assumes "cmd_inv st" and "oth_ok oth" and "world_ok w" and "list_all (\<lambda>c. length c < 2 ^ 63) cs" and "\<not> overflows w i cs"
  shows "\<exists>st' x. exec_shared w oth i cs st = Some (st', x) \<and> cmd_inv st'"
  using assms
proof (induction cs arbitrary: i st)
  case Nil
  then show ?case by simp
next
  case (Cons c cs)
  have "cmd_inv (oth i st)" using Cons.prems(1,2) by (simp add: oth_ok_def)
  from exec_one [OF this gb_wf_init Cons.prems(3), of c i] Cons.prems(4,5) obtain st1 x where
    s: "exec_cmds w i [c] (oth i st) = Some (st1, x)" "cmd_inv st1" by (auto simp: list_all_iff)
  from Cons.IH [OF s(2) Cons.prems(2,3), of "i + 1"] Cons.prems(4,5) s show ?case by (auto simp: list_all_iff)
qed

text \<open>Without interference this is the execution of one command after the other.\<close>

lemma exec_shared_alone:
  assumes "cmd_inv st" and "world_ok w" and "list_all (\<lambda>c. length c < 2 ^ 63) cs" and "\<not> overflows w i cs"
  shows "exec_shared w (\<lambda>_ st. st) i cs st = exec_cmds w i cs st"
  using assms
proof (induction cs arbitrary: i st)
  case Nil
  then show ?case by (simp add: exec_cmds_def)
next
  case (Cons c cs)
  note p = Cons.prems(3,4) [simplified]
  from exec_one [OF Cons.prems(1) gb_wf_init Cons.prems(2), of c i] p obtain st1 x where
    s: "exec_cmds w i [c] st = Some (st1, x)" "cmd_inv st1" by auto
  from run_cmds_exec [OF s(2) gb_wf_init Cons.prems(2), of cs "i + 1"] p obtain st2 y where
    r: "exec_cmds w (i + 1) cs st1 = Some (st2, y)" by auto
  from exec_cmds_append [OF Cons.prems(1,2), of "[c]" cs i st1 x st2 y] Cons.prems(3,4) s r Cons.IH [OF s(2) Cons.prems(2), of "i + 1"] p
  show ?case by simp
qed

section \<open>A connection from its first byte to its end\<close>

definition wc_ok :: "worker_conn \<Rightarrow> bool" where
  "wc_ok c \<longleftrightarrow> gb_wf (wc_in c) \<and> gb_len (wc_in c) \<le> MAX_INPUT_BUF \<and> gb_wf (wc_out c) \<and> gb_bytes (wc_out c) = []"

text \<open>
  The commands of a buffer: what goes out is the front of the replies of their interleaved execution
  and of the error, all of it when the peer is there.
\<close>

lemma conn_commands_ok:
  assumes "wc_ok c" and "cmd_inv st" and "oth_ok oth" and "world_ok w"
    and "requests w i (gb_bytes (wc_in c)) = (cs, r, e)" and "\<not> overflows w i cs" and "exec_shared w oth i cs st = Some (stx, x)"
  shows "\<exists>st' c' i' fatal d rest. conn_commands w oth i st c = Some (st', c', i', fatal) \<and> wc_ok c' \<and> cmd_inv st' \<and>
    wc_sent c' = wc_sent c @ d \<and> x @ concat (map enc_reply (err_reply e)) = d @ rest \<and>
    (list_all steady (wc_ws c) \<longrightarrow> rest = [] \<and> st' = stx \<and> i' = i + length cs \<and> fatal = (e \<noteq> None) \<and>
       gb_bytes (wc_in c') = r \<and> list_all steady (wc_ws c')) \<and>
    (\<not> list_all steady (wc_ws c) \<longrightarrow> fatal \<or> rest = [] \<and> st' = stx \<and> i' = i + length cs \<and> e = None \<and> gb_bytes (wc_in c') = r)"
  using assms
proof (induction "gb_len (wc_in c)" arbitrary: i st c cs x rule: less_induct)
  case less
  let ?b = "gb_bytes (wc_in c)"
  have wf: "gb_wf (wc_in c)" "gb_wf (wc_out c)" "gb_bytes (wc_out c) = []" "gb_len (wc_in c) \<le> MAX_INPUT_BUF"
    using less.prems(1) by (simp_all add: wc_ok_def)
  note len = gb_len_bytes [OF wf(1)]
  have rdb: "gb_read (wc_in c) 0 (gb_len (wc_in c)) = Some ?b"
    using gb_read_ok [OF wf(1), of 0 "length ?b"] len by simp
  obtain s where s: "resp_parse (w_mem w i) ?b = Some s" using resp.parse_defined by blast
  show ?case
  proof (cases s)
    case RESP_PARSE_INCOMPLETE
    with s have inc: "resp_parse (w_mem w i) ?b = Some RESP_PARSE_INCOMPLETE" by simp
    have cc: "conn_commands w oth i st c = Some (st, c, i, False)" using rdb inc by (subst conn_commands.simps) simp
    have q: "cs = []" "r = ?b" "e = None" using requests_incomplete [OF inc] less.prems(5) by simp_all
    show ?thesis
      by (rule exI [of _ st], rule exI [of _ c], rule exI [of _ i], rule exI [of _ False], rule exI [of _ "[]"], rule exI [of _ "[]"])
        (use cc q less.prems in \<open>auto simp: err_reply_def\<close>)
  next
    case (RESP_PARSE_ERROR m)
    with s have err: "resp_parse (w_mem w i) ?b = Some (RESP_PARSE_ERROR m)" by simp
    then have ne: "?b \<noteq> []" using resp.parse_empty by auto
    have q: "cs = []" "r = ?b" "e = Some m" using requests_error [OF err] less.prems(5) by simp_all
    have "appends (resp_reply_error m) (enc_reply (Err m))"
      using appends_error [of m] resp_parse_error_text [OF err] by (simp add: line_text_def cstr_id)
    from appendsE [OF this wf(2)] obtain o1 where
      o1: "resp_reply_error m (wc_out c) = Some o1" "gb_wf o1" "gb_bytes o1 = enc_reply (Err m)" using wf(3) by auto
    from flush_replies_ok [OF o1(2), of "wc_ws c"] obtain rc d ws o2 rest where
      f: "flush_replies (wc_ws c) o1 = Some (rc, d, ws, o2)" "gb_wf o2" "gb_bytes o2 = []" "gb_bytes o1 = d @ rest"
        "rc = 0 \<and> rest = [] \<or> rc = - 1 \<and> \<not> list_all steady (wc_ws c)" "list_all steady (wc_ws c) \<longrightarrow> list_all steady ws" by blast
    let ?c = "c\<lparr>wc_out := o2, wc_ws := ws, wc_sent := wc_sent c @ d\<rparr>"
    have cc: "conn_commands w oth i st c = Some (st, ?c, i, True)"
      using rdb err ne len o1(1) f(1) by (subst conn_commands.simps) simp
    have "wc_ok ?c" using wf f(2,3) by (simp add: wc_ok_def)
    show ?thesis
      by (rule exI [of _ st], rule exI [of _ ?c], rule exI [of _ i], rule exI [of _ True], rule exI [of _ d], rule exI [of _ rest])
        (use cc \<open>wc_ok ?c\<close> q f o1(3) less.prems(2,7) in \<open>auto simp: err_reply_def\<close>)
  next
    case (RESP_PARSE_OK argv n)
    with s have ok: "resp_parse (w_mem w i) ?b = Some (RESP_PARSE_OK argv n)" by simp
    note p = resp.parse_progress [OF ok]
    obtain cs1 where cs1: "requests w (i + 1) (drop n ?b) = (cs1, r, e)" "cs = argv # cs1"
      using less.prems(5) unfolding requests_ok [OF ok] by (auto simp: Let_def split: prod.splits)
    have al: "length argv < 2 ^ 63"
      using resp_parse_argc [OF ok] wf(4) len by (auto simp: MAX_INPUT_BUF_def RESP_MAX_ARGC_def max_def split: if_splits)
    have io: "cmd_inv (oth i st)" using less.prems(2,3) by (simp add: oth_ok_def)
    from exec_one [OF io wf(2) less.prems(4) al, of i] less.prems(6) cs1(2) wf(3) obtain st1 o1 x1 where
      d: "exec_cmds w i [argv] (oth i st) = Some (st1, x1)" "cmd_dispatch (w_env w i) argv (oth i st) (wc_out c) = Some (st1, o1)"
        "cmd_inv st1" "gb_wf o1" "gb_bytes o1 = x1" by auto
    obtain x2 where x2: "exec_shared w oth (i + 1) cs1 st1 = Some (stx, x2)" "x = x1 @ x2"
      using less.prems(7) cs1(2) d(1) by (auto split: bind_splits)
    from dyn_buf.consume_law [OF wf(1), of n] p obtain inb where
      inb: "dyn_buf_consume (wc_in c) n = Some inb" "gb_wf inb" "gb_bytes inb = drop n ?b" by auto
    from flush_replies_ok [OF d(4), of "wc_ws c"] obtain rc d1 ws o2 rest1 where
      f: "flush_replies (wc_ws c) o1 = Some (rc, d1, ws, o2)" "gb_wf o2" "gb_bytes o2 = []" "gb_bytes o1 = d1 @ rest1"
        "rc = 0 \<and> rest1 = [] \<or> rc = - 1 \<and> \<not> list_all steady (wc_ws c)" "list_all steady (wc_ws c) \<longrightarrow> list_all steady ws" by blast
    let ?c = "c\<lparr>wc_in := inb, wc_out := o2, wc_ws := ws, wc_sent := wc_sent c @ d1\<rparr>"
    have step: "conn_commands w oth i st c = (if rc < 0 then Some (st1, ?c, i + 1, True) else conn_commands w oth (i + 1) st1 ?c)"
      using p len rdb ok d(2) inb(1) f(1) by (subst conn_commands.simps) (auto simp: Let_def)
    have ilen: "gb_len inb < gb_len (wc_in c)" using p len gb_len_bytes [OF inb(2)] inb(3) by auto
    then have cok: "wc_ok ?c" using wf(4) inb(2) f(2,3) by (simp add: wc_ok_def)
    show ?thesis
    proof (cases "rc < 0")
      case True
      show ?thesis
        by (rule exI [of _ st1], rule exI [of _ ?c], rule exI [of _ "i + 1"], rule exI [of _ True], rule exI [of _ d1], rule exI [of _ "rest1 @ x2 @ concat (map enc_reply (err_reply e))"])
          (use True step cok d(3,5) f x2(2) in auto)
    next
      case False
      with f(5) have f': "d1 = x1" using f(4) d(5) by auto
      have "gb_len (wc_in ?c) < gb_len (wc_in c)" "requests w (i + 1) (gb_bytes (wc_in ?c)) = (cs1, r, e)" "\<not> overflows w (i + 1) cs1"
        using ilen inb(3) cs1 less.prems(6) by simp_all
      from less.hyps [OF this(1) cok d(3) less.prems(3,4) this(2,3) x2(1)] obtain st' c' i' fatal d2 rest where
        h: "conn_commands w oth (i + 1) st1 ?c = Some (st', c', i', fatal)" "wc_ok c'" "cmd_inv st'"
          "wc_sent c' = wc_sent ?c @ d2" "x2 @ concat (map enc_reply (err_reply e)) = d2 @ rest"
          "list_all steady (wc_ws ?c) \<longrightarrow> rest = [] \<and> st' = stx \<and> i' = i + 1 + length cs1 \<and> fatal = (e \<noteq> None) \<and> gb_bytes (wc_in c') = r \<and> list_all steady (wc_ws c')"
          "\<not> list_all steady (wc_ws ?c) \<longrightarrow> fatal \<or> rest = [] \<and> st' = stx \<and> i' = i + 1 + length cs1 \<and> e = None \<and> gb_bytes (wc_in c') = r"
        by (elim exE conjE) (rule that, assumption+)
      have r1: "conn_commands w oth i st c = Some (st', c', i', fatal)" using step False h(1) by simp
      have r2: "wc_sent c' = wc_sent c @ x1 @ d2" "x @ concat (map enc_reply (err_reply e)) = (x1 @ d2) @ rest" "length cs = 1 + length cs1"
        using h(4,5) f' x2(2) cs1(2) by simp_all
      have r3: "list_all steady (wc_ws c) \<longrightarrow> list_all steady (wc_ws ?c)" using f(6) by simp
      show ?thesis
        by (rule exI [of _ st'], rule exI [of _ c'], rule exI [of _ i'], rule exI [of _ fatal], rule exI [of _ "x1 @ d2"], rule exI [of _ rest], intro conjI)
          (use r1 r2 h(2,3) in simp, use h(2) in simp, use h(3) in simp, use r2 in simp, use r2 in simp,
            use h(6) r2(3) r3 in simp, use h(6,7) r2(3) in \<open>cases "list_all steady (wc_ws ?c)"; auto\<close>)
    qed
  qed
qed

lemma exec_shared_append:
  "exec_shared w oth i (a @ b) st = exec_shared w oth i a st \<bind>
     (\<lambda>(st1, x). exec_shared w oth (i + length a) b st1 \<bind> (\<lambda>(st2, y). Some (st2, x @ y)))"
proof (induction a arbitrary: i st)
  case Nil
  then show ?case by (cases "exec_shared w oth i b st") auto
next
  case (Cons c a)
  then show ?case by (cases "exec_cmds w i [c] (oth i st)")
      (auto simp: split_beta bind_assoc split: bind_splits)
qed

lemma conn_reads_ok:
  assumes "world_ok w" and "\<And>i. w_mem w i = (\<lambda>_. True)" and "oth_ok oth"
    and "list_all (\<lambda>d. d \<noteq> []) ds" and "list_all steady (wc_ws c)"
    and "\<And>k. snd (snd (drain (resp_parse (\<lambda>_. True)) (gb_bytes (wc_in c) @ concat (take k ds)))) = None"
    and "wc_ok c" and "cmd_inv st" and "resp_parse (\<lambda>_. True) (gb_bytes (wc_in c)) = Some RESP_PARSE_INCOMPLETE"
    and "gb_len (wc_in c) + length (concat ds) \<le> MAX_INPUT_BUF"
    and "drain (resp_parse (\<lambda>_. True)) (gb_bytes (wc_in c) @ concat ds) = (cs, r, pe)"
    and "\<not> overflows w i cs" and "exec_shared w oth i cs st = Some (stx, x)"
  shows "\<exists>c'. conn_reads w oth (map Rd ds) i st c = Some (stx, c', i + length cs) \<and> wc_sent c' = wc_sent c @ x"
  using assms(4-)
proof (induction ds arbitrary: i st c cs x)
  case Nil
  then have "cs = []" by (simp add: drain.simps)
  with Nil.prems show ?case by simp
next
  case (Cons d ds)
  let ?p = "resp_parse (\<lambda>_. True)" and ?b = "gb_bytes (wc_in c)"
  have d: "d \<noteq> []" "list_all (\<lambda>d. d \<noteq> []) ds" using Cons.prems(1) by simp_all
  have wf: "gb_wf (wc_in c)" using Cons.prems(4) by (simp add: wc_ok_def)
  note len = gb_len_bytes [OF wf]
  from dyn_buf.append_law [OF wf, of d] obtain inb where
    inb: "dyn_buf_append (wc_in c) d = Some inb" "gb_wf inb" "gb_bytes inb = ?b @ d" by blast
  let ?c = "c\<lparr>wc_in := inb\<rparr>"
  have lim: "gb_len (wc_in c) + length d + length (concat ds) \<le> MAX_INPUT_BUF" using Cons.prems(7) by simp
  have cok: "wc_ok ?c" using Cons.prems(4) inb lim len gb_len_bytes [OF inb(2)] by (simp add: wc_ok_def)
  obtain cs1 r1 where dr1: "drain ?p (?b @ d) = (cs1, r1, None)"
    using Cons.prems(3) [of 1] by (cases "drain ?p (?b @ d)") simp
  then have rq: "requests w i (gb_bytes (wc_in ?c)) = (cs1, r1, None)" using inb(3) by (simp add: requests_drain [OF assms(2)])
  obtain cs2 where dr2: "drain ?p (r1 @ concat ds) = (cs2, r, pe)" "cs = cs1 @ cs2"
    using resp.drain_append [OF dr1, of "concat ds"] Cons.prems(8) by (auto simp: Let_def split: prod.splits)
  have ov: "\<not> overflows w i cs1" "\<not> overflows w (i + length cs1) cs2"
    using Cons.prems(9) dr2(2) by (simp_all add: overflows_append)
  obtain st1 x1 x2 where ex: "exec_shared w oth i cs1 st = Some (st1, x1)" "exec_shared w oth (i + length cs1) cs2 st1 = Some (stx, x2)" "x = x1 @ x2"
    using Cons.prems(10) unfolding dr2(2) exec_shared_append by (auto split: bind_splits)
  from conn_commands_ok [OF cok Cons.prems(5) assms(3,1) rq ov(1) ex(1)] Cons.prems(2) obtain c1 where
    c1: "conn_commands w oth i st ?c = Some (st1, c1, i + length cs1, False)" "wc_ok c1" "cmd_inv st1" "wc_sent c1 = wc_sent c @ x1"
      "gb_bytes (wc_in c1) = r1" "list_all steady (wc_ws c1)" by (auto simp: err_reply_def)
  have step: "conn_reads w oth (map Rd (d # ds)) i st c = conn_reads w oth (map Rd ds) (i + length cs1) st1 c1"
    using d(1) lim inb(1) c1(1) by simp
  have "length r1 \<le> length (?b @ d)" using requests_props(1) [OF rq] inb(3) by auto
  then have lim1: "gb_len (wc_in c1) + length (concat ds) \<le> MAX_INPUT_BUF"
    using c1(2,5) lim len gb_len_bytes [of "wc_in c1"] by (simp add: wc_ok_def)
  have inc: "?p (gb_bytes (wc_in c1)) = Some RESP_PARSE_INCOMPLETE" using requests_left [OF rq] assms(2) c1(5) by simp
  have pre: "snd (snd (drain ?p (gb_bytes (wc_in c1) @ concat (take k ds)))) = None" for k
    using Cons.prems(3) [of "Suc k"] resp.drain_append [OF dr1, of "concat (take k ds)"] c1(5)
    by (simp add: Let_def split: prod.splits)
  from Cons.IH [OF d(2) c1(6) pre c1(2,3) inc lim1 dr2(1) [folded c1(5)] ov(2) ex(2)] step c1(4) ex(3) dr2(2) show ?case
    by (auto simp: algebra_simps)
qed

lemma handle_conn_ok:
  assumes "world_ok w" and "\<And>i. w_mem w i = (\<lambda>_. True)" and "oth_ok oth" and "cmd_inv st" and "list_all request_ok reqs"
    and "concat ds = concat (map enc_request reqs)" and "list_all (\<lambda>d. d \<noteq> []) ds" and "length (concat ds) \<le> MAX_INPUT_BUF"
    and "list_all steady ws" and "\<not> overflows w i reqs"
  shows "\<exists>st' x. exec_shared w oth i reqs st = Some (st', x) \<and>
    handle_conn w oth (map Rd ds) ws i st = Some (st', x, i + length reqs)"
proof -
  let ?p = "resp_parse (\<lambda>_. True)" and ?c = "\<lparr>wc_in = gb_null, wc_out = resp_buf_init, wc_ws = ws, wc_sent = []\<rparr>"
  have "list_all (\<lambda>c. length c < 2 ^ 63) reqs"
    using assms(5) by (auto simp: list_all_iff request_ok_def resp_limits)
  from exec_shared_ok [OF assms(4,3,1) this assms(10)] obtain st' x where ex: "exec_shared w oth i reqs st = Some (st', x)" by blast
  have q: "request_ok [''PING'']" "0 < length (enc_request [''PING''])"
    by (simp_all add: request_ok_def resp_limits enc_request_def)
  have all: "drain ?p (gb_bytes (wc_in ?c) @ concat ds) = (reqs, [], None)"
    using drain_requests [OF assms(5) q] assms(6) by simp
  have pre: "snd (snd (drain ?p (gb_bytes (wc_in ?c) @ concat (take k ds)))) = None" for k
  proof -
    have "concat (take k ds) @ concat (drop k ds) = concat (map enc_request reqs)"
      unfolding assms(6) [symmetric] concat_append [symmetric] append_take_drop_id ..
    from pipeline_prefix_ok [OF assms(5) this] show ?thesis by simp
  qed
  have ok: "wc_ok ?c" by (simp add: wc_ok_def) (simp add: gb_null_def)
  have inc: "?p (gb_bytes (wc_in ?c)) = Some RESP_PARSE_INCOMPLETE" using resp.parse_empty by simp
  have lim: "gb_len (wc_in ?c) + length (concat ds) \<le> MAX_INPUT_BUF" using assms(8) by (simp add: gb_null_def)
  from conn_reads_ok [OF assms(1-3,7) _ pre ok assms(4) inc lim all assms(10) ex] assms(9) ex show ?thesis
    by (auto simp: handle_conn_def)
qed

section \<open>Properties\<close>

text \<open>
  A worker answers a pipeline of commands with exactly the replies of executing them in order, each on
  the shared state as the other workers left it, however the bytes arrive and however the writes
  are cut into pieces, while the other workers keep executing commands of their own in between.
\<close>

theorem handle_conn_replies:
  assumes "world_ok w" and "\<forall>i. w_mem w i = (\<lambda>_. True)" and "oth_ok oth" and "cmd_inv st" and "list_all request_ok reqs"
    and "concat ds = concat (map enc_request reqs)" and "list_all (\<lambda>d. d \<noteq> []) ds" and "length (concat ds) \<le> MAX_INPUT_BUF"
    and "list_all steady ws" and "\<not> overflows w i reqs"
  shows "\<exists>st' x. exec_shared w oth i reqs st = Some (st', x) \<and>
    handle_conn w oth (map Rd ds) ws i st = Some (st', x, i + length reqs)"
  using handle_conn_ok [OF assms(1) _ assms(3-)] assms(2) by blast

theorem handle_conn_replies_witness:
  "\<exists>st' x. exec_shared \<lparr>w_mem = (\<lambda>_ _. True), w_env = (\<lambda>_. demo_env)\<rparr> (\<lambda>_ st. st\<lparr>cs_store := store_create\<rparr>) 0 [[''GET'', ''a'']] demo_state = Some (st', x) \<and>
     handle_conn \<lparr>w_mem = (\<lambda>_ _. True), w_env = (\<lambda>_. demo_env)\<rparr> (\<lambda>_ st. st\<lparr>cs_store := store_create\<rparr>)
       (map Rd [enc_request [''GET'', ''a'']]) [Wr_errno EINTR, Wr 1] 0 demo_state = Some (st', x, 1)"
proof -
  let ?w = "\<lparr>w_mem = (\<lambda>_ _. True), w_env = (\<lambda>_. demo_env)\<rparr>" and ?oth = "\<lambda>_ st. st\<lparr>cs_store := store_create\<rparr>"
  let ?r = "[''GET'', ''a'']"
  have w: "world_ok ?w" using demo_env_ok by (simp add: world_ok_def)
  have oth: "oth_ok ?oth" by (auto simp: oth_ok_def cmd_inv_def store_create_inv store_create_abs expires_ok_empty)
  have "\<not> arg_eq_ci ''GET'' ''SET''" "\<not> arg_eq_ci ''GET'' ''EXPIRE''" by code_simp+
  then have ov: "\<not> overflows ?w 0 [?r]" by (simp add: ttl_overflow_def)
  have ok: "list_all request_ok [?r]" by (simp add: request_ok_def resp_limits)
  have len: "length (enc_request ?r) = 20"
    by (simp add: enc_request_def enc_bulk_def show_size_def show_nat.simps)
  then have ds: "list_all (\<lambda>d. d \<noteq> []) [enc_request ?r]" by auto
  from handle_conn_replies [OF w _ oth demo_state_inv ok _ ds, of "[Wr_errno EINTR, Wr 1]" 0] len ov show ?thesis
    by (simp add: MAX_INPUT_BUF_def del: exec_shared.simps overflows.simps)
qed

lemma cstr_show_int: "cstr (show_int x) = show_int x"
proof (rule cstr_id)
  have "\<not> isdigit NUL" by (simp add: isdigit_def)
  then have "NUL \<notin> set (show_nat n)" for n using show_nat_isdigit [of NUL n] by blast
  then show "NUL \<notin> set (show_int x)" by (simp add: show_int_def)
qed

lemma atoi_show_int: "- (2 ^ 31) \<le> x \<Longrightarrow> x < 2 ^ 31 \<Longrightarrow> atoi (show_int x) = Some x"
  using strtoll_show_int [of x] by (simp add: atoi_def cstr_show_int int64_defs)

lemma not_save_flag: "0 \<le> x \<Longrightarrow> \<not> is_save_flag (show_int x)"
  unfolding is_save_flag_def cstr_show_int using show_nat_not_minus [of "nat x"] by (simp add: show_int_def)

text \<open>
  C40: an explicit port that equals the default is not taken for a port: with the arguments
  \<open>6380 n\<close> the threaded server listens on port \<open>n\<close> with the default number of workers.
\<close>

theorem default_port_argument_ignored:
  assumes "0 < n" and "n \<le> 65535" and "n \<noteq> 6380"
  shows "threaded_main_args [show_int 6380, show_int n] = Some (T_Args n DEFAULT_WORKERS None)"
  using assms not_save_flag [of 6380] not_save_flag [of n] atoi_show_int [of 6380] atoi_show_int [of n]
  by (simp add: threaded_main_args_def THREADED_DEFAULT_PORT_def DEFAULT_WORKERS_def)

theorem default_port_argument_ignored_witness:
  "threaded_main_args [''6380'', ''8''] = Some (T_Args 8 4 None)"
proof -
  have "show_int 6380 = ''6380''" "show_int 8 = ''8''" by (simp_all add: show_int_def show_nat.simps)
  then show ?thesis using default_port_argument_ignored [of 8] by (simp add: DEFAULT_WORKERS_def)
qed

end
