(* ===== verification/Threads.thy ===== *)
theory Threads
  imports Server_Threaded
begin

text \<open>
  All connections of the threaded server together (\<open>src/server_threaded.c\<close>): the order in which the workers get
  hold of \<open>g_store_mu\<close> as a schedule, what each connection sees of it, and what \<open>main\<close> does before the
  accept loop and after the join.
\<close>

section \<open>One order for all connections\<close>

text \<open>
  The commands of all connections in the order in which their workers got hold of \<open>g_store_mu\<close>: the
  connection, the environment of the call and the command. Executed one after the other they give
  the final state and the replies, each with its connection.
\<close>

type_synonym schedule = "(nat \<times> cmd_env \<times> bytes list) list"

fun exec_schedule :: "schedule \<Rightarrow> cmd_state \<Rightarrow> (cmd_state \<times> (nat \<times> bytes) list) option" where
  "exec_schedule [] st = Some (st, [])"
| "exec_schedule ((k, e, c) # ss) st = do {
     (st1, out) \<leftarrow> cmd_dispatch e c st resp_buf_init;
     (st2, rs) \<leftarrow> exec_schedule ss st1;
     Some (st2, (k, gb_bytes out) # rs)
   }"

definition schedule_ok :: "schedule \<Rightarrow> bool" where
  "schedule_ok ss \<longleftrightarrow> list_all (\<lambda>(k, e, c). env_ok e \<and> request_ok c \<and> \<not> ttl_overflow e c) ss"

text \<open>What connection \<open>k\<close> sees of it: its commands, each with what the others did since the last.\<close>

fun view :: "nat \<Rightarrow> schedule \<Rightarrow> schedule \<Rightarrow> (schedule \<times> cmd_env \<times> bytes list) list" where
  "view k acc [] = []"
| "view k acc ((j, e, c) # ss) = (if j = k then (acc, e, c) # view k [] ss else view k (acc @ [(j, e, c)]) ss)"

definition view_world :: "cmd_env \<Rightarrow> (schedule \<times> cmd_env \<times> bytes list) list \<Rightarrow> world" where
  "view_world e v = \<lparr>w_mem = (\<lambda>_ _. True), w_env = (\<lambda>i. if i < length v then fst (snd (v ! i)) else e)\<rparr>"

definition view_others :: "(schedule \<times> cmd_env \<times> bytes list) list \<Rightarrow> nat \<Rightarrow> cmd_state \<Rightarrow> cmd_state" where
  "view_others v i st =
     (if i < length v then (case exec_schedule (fst (v ! i)) st of Some (st', _) \<Rightarrow> st' | None \<Rightarrow> st) else st)"

definition replies_of :: "nat \<Rightarrow> (nat \<times> bytes) list \<Rightarrow> bytes" where
  "replies_of k rs = concat (map snd (filter (\<lambda>r. fst r = k) rs))"

lemma exec_schedule_ok:
  assumes "schedule_ok ss" and "cmd_inv st"
  shows "\<exists>st' rs. exec_schedule ss st = Some (st', rs) \<and> cmd_inv st'"
  using assms
proof (induction ss arbitrary: st)
  case Nil
  then show ?case by simp
next
  case (Cons s ss)
  obtain k e c where s: "s = (k, e, c)" by (cases s)
  have ok: "env_ok e" "request_ok c" "\<not> ttl_overflow e c" "schedule_ok ss" using Cons.prems(1) s by (simp_all add: schedule_ok_def)
  have "world_ok \<lparr>w_mem = (\<lambda>_ _. True), w_env = (\<lambda>_. e)\<rparr>" using ok(1) by (simp add: world_ok_def)
  from exec_one [OF Cons.prems(2) gb_wf_init this, of c 0] ok(2,3) obtain st1 out1 where
    d: "cmd_dispatch e c st resp_buf_init = Some (st1, out1)" "cmd_inv st1" by (auto simp: request_ok_def resp_limits)
  from Cons.IH [OF ok(4) d(2)] d(1) s show ?case by auto
qed

lemma exec_schedule_append:
  "exec_schedule (a @ b) st = exec_schedule a st \<bind> (\<lambda>(st1, x). exec_schedule b st1 \<bind> (\<lambda>(st2, y). Some (st2, x @ y)))"
proof (induction a arbitrary: st)
  case Nil
  then show ?case by (cases "exec_schedule b st") auto
next
  case (Cons s a)
  obtain k e c where "s = (k, e, c)" by (cases s)
  with Cons show ?case by (cases "cmd_dispatch e c st resp_buf_init") (auto simp: split_beta bind_assoc split: bind_splits)
qed

lemma view_mem:
  assumes "x \<in> set (view k acc ss)"
  shows "set (fst x) \<subseteq> set acc \<union> set ss \<and> (k, snd x) \<in> set ss"
  using assms
proof (induction ss arbitrary: acc)
  case Nil
  then show ?case by simp
next
  case (Cons s ss)
  obtain j e c where s: "s = (j, e, c)" by (cases s)
  show ?case
  proof (cases "j = k")
    case True
    with Cons.prems s Cons.IH [of "[]"] show ?thesis by auto
  next
    case False
    with Cons.prems s Cons.IH [of "acc @ [s]"] show ?thesis by auto
  qed
qed

lemma view_cmds: "map (snd \<circ> snd) (view k acc ss) = map (snd \<circ> snd) (filter (\<lambda>s. fst s = k) ss)"
  by (induction k acc ss rule: view.induct) auto

text \<open>The view of a connection reproduces its replies in the common execution.\<close>

lemma view_replies:
  assumes "exec_schedule ss st = Some (st', rs)" and "exec_schedule acc st0 = Some (st, ra)" and "v = p @ view k acc ss"
  shows "\<exists>stx. exec_shared (view_world e0 v) (view_others v) (length p) (map (snd \<circ> snd) (view k acc ss)) st0 = Some (stx, replies_of k rs)"
  using assms
proof (induction ss arbitrary: st st0 acc ra p rs)
  case Nil
  then show ?case by (simp add: replies_of_def)
next
  case (Cons s ss)
  obtain j e c where s: "s = (j, e, c)" by (cases s)
  from Cons.prems(1) s obtain st1 out rs1 where
    d: "cmd_dispatch e c st resp_buf_init = Some (st1, out)" "exec_schedule ss st1 = Some (st', rs1)" "rs = (j, gb_bytes out) # rs1"
    by (auto split: bind_splits)
  show ?case
  proof (cases "j = k")
    case True
    have v: "v = (p @ [(acc, e, c)]) @ view k [] ss" using Cons.prems(3) s True by simp
    have "view_others v (length p) st0 = st" "w_env (view_world e0 v) (length p) = e"
      using v Cons.prems(2) by (simp_all add: view_others_def view_world_def nth_append)
    then have "exec_cmds (view_world e0 v) (length p) [c] (view_others v (length p) st0) = Some (st1, gb_bytes out)"
      using d(1) by (simp add: exec_cmds_def)
    with Cons.IH [OF d(2) _ v, of st1 "[]"] s True d(3) show ?thesis by (auto simp: replies_of_def)
  next
    case False
    have "exec_schedule (acc @ [(j, e, c)]) st0 = Some (st1, ra @ [(j, gb_bytes out)])"
      using Cons.prems(2) d(1) by (simp add: exec_schedule_append)
    from Cons.IH [OF d(2) this, of p] Cons.prems(3) s False d(3) show ?thesis by (simp add: replies_of_def)
  qed
qed

lemma view_others_ok:
  assumes "schedule_ok acc" and "schedule_ok ss"
  shows "oth_ok (view_others (view k acc ss))"
proof -
  let ?v = "view k acc ss"
  have "cmd_inv (view_others ?v i st)" if "cmd_inv st" for i st
  proof (cases "i < length ?v")
    case True
    then have "schedule_ok (fst (?v ! i))"
      using view_mem [OF nth_mem [OF True]] assms by (auto simp: schedule_ok_def list_all_iff)
    from exec_schedule_ok [OF this that] True show ?thesis by (auto simp: view_others_def)
  qed (use that in \<open>simp add: view_others_def\<close>)
  then show ?thesis by (simp add: oth_ok_def)
qed

lemma view_overflows:
  assumes "list_all (\<lambda>(_, e, c). \<not> ttl_overflow e c) v"
  shows "\<not> overflows (view_world e0 (p @ v)) (length p) (map (snd \<circ> snd) v)"
  using assms
proof (induction v arbitrary: p)
  case Nil
  then show ?case by simp
next
  case (Cons x v)
  have "w_env (view_world e0 (p @ x # v)) (length p) = fst (snd x)" by (simp add: view_world_def)
  with Cons.IH [of "p @ [x]"] Cons.prems show ?case by (simp add: split_beta)
qed

lemma view_world_ok:
  assumes "schedule_ok ss" and "env_ok e0"
  shows "world_ok (view_world e0 (view k acc ss))"
proof -
  let ?v = "view k acc ss"
  have "env_ok (fst (snd (?v ! i)))" if "i < length ?v" for i
    using view_mem [OF nth_mem [OF that]] assms(1) by (cases "?v ! i") (auto simp: schedule_ok_def list_all_iff)
  then show ?thesis using assms(2) by (simp add: world_ok_def view_world_def)
qed

lemma view_requests:
  assumes "schedule_ok ss"
  shows "list_all request_ok (map (snd \<circ> snd) (view k acc ss))" "list_all (\<lambda>(_, e, c). \<not> ttl_overflow e c) (view k acc ss)"
  using view_mem [of _ k acc ss] assms by (fastforce simp: schedule_ok_def list_all_iff)+

lemma handle_conn_view:
  assumes "schedule_ok ss" and "cmd_inv st" and "env_ok e0" and "exec_schedule ss st = Some (st', rs)"
    and "concat ds = concat (map enc_request (map (snd \<circ> snd) (filter (\<lambda>s. fst s = k) ss)))"
    and "list_all (\<lambda>d. d \<noteq> []) ds" and "length (concat ds) \<le> MAX_INPUT_BUF" and "list_all steady ws"
  shows "\<exists>stx. handle_conn (view_world e0 (view k [] ss)) (view_others (view k [] ss)) (map Rd ds) ws 0 st =
    Some (stx, replies_of k rs, length (filter (\<lambda>s. fst s = k) ss))"
proof -
  let ?v = "view k [] ss" and ?reqs = "map (snd \<circ> snd) (filter (\<lambda>s. fst s = k) ss)"
  have mem: "w_mem (view_world e0 ?v) i = (\<lambda>_. True)" for i by (simp add: view_world_def)
  have ov: "\<not> overflows (view_world e0 ?v) 0 ?reqs"
    using view_overflows [OF view_requests(2) [OF assms(1), of k "[]"], of e0 "[]"] by (simp add: view_cmds)
  have oth: "oth_ok (view_others ?v)" using view_others_ok [OF _ assms(1), of "[]"] by (simp add: schedule_ok_def)
  have ok: "list_all request_ok ?reqs" using view_requests(1) [OF assms(1), of k "[]"] by (simp add: view_cmds)
  from view_replies [OF assms(4), of "[]" st "[]" ?v "[]" k e0]
  have "\<exists>stx. exec_shared (view_world e0 ?v) (view_others ?v) 0 ?reqs st = Some (stx, replies_of k rs)" by (simp add: view_cmds)
  moreover from handle_conn_ok [OF view_world_ok [OF assms(1,3)] mem oth assms(2) ok assms(5-8) ov]
  obtain stx x where "exec_shared (view_world e0 ?v) (view_others ?v) 0 ?reqs st = Some (stx, x)"
    "handle_conn (view_world e0 ?v) (view_others ?v) (map Rd ds) ws 0 st = Some (stx, x, 0 + length ?reqs)" by blast
  ultimately show ?thesis by auto
qed

section \<open>Start and exit\<close>

text \<open>
  \<open>main\<close> up to the accept loop, and after the workers have been joined: what \<open>store_destroy\<close> frees comes
  last.
\<close>

definition threaded_start ::
    "int \<Rightarrow> load_io \<Rightarrow> nat list \<Rightarrow> nat \<Rightarrow> bytes option \<Rightarrow> fs \<Rightarrow> (persist_status option \<times> cmd_state \<times> pool) option" where
  "threaded_start now lio cells num_workers save_path fs = do {
     (r, st) \<leftarrow> load_at_start now lio save_path fs;
     Some (r, st, pool_start cells num_workers)
   }"

definition threaded_exit ::
    "int \<Rightarrow> (nat \<Rightarrow> bool) \<Rightarrow> save_io \<Rightarrow> bytes option \<Rightarrow> cmd_state \<Rightarrow> (persist_status option \<times> cmd_state \<times> store_entry list) option" where
  "threaded_exit now mem io save_path st = do {
     (r, st') \<leftarrow> save_at_exit now mem io save_path st;
     Some (r, st', store_destroy (cs_store st'))
   }"

text \<open>What the executions of a run leave behind survives the restart.\<close>

lemma threaded_restart:
  assumes "threaded_start now0 lio cells n (Some p) fs = Some (r0, st, pool)" and "schedule_ok ss"
    and "exec_schedule ss st = Some (st1, rs)" and "threaded_exit now mem io (Some p) st1 = Some (Some PERSIST_OK, st2, freed)"
    and "length (snapshot (map entry_kv (live_entries now (cs_store st1)))) < 2 ^ 63" and "now \<le> now'"
  shows "\<exists>st'. threaded_start now' \<lparr>io_open = True, io_mem = True, io_fread = True\<rparr> cells n (Some p) (cs_fs st2) =
      Some (Some PERSIST_OK, st', pool_start cells n) \<and> store_abs (cs_store st') = live now' (store_abs (cs_store st1))"
proof -
  from assms(1) have "load_at_start now0 lio (Some p) fs = Some (r0, st)" by (auto simp: threaded_start_def split: bind_splits)
  from exec_schedule_ok [OF assms(2) load_at_start_inv [OF this]] assms(3) have inv: "cmd_inv st1" by auto
  from assms(4) have "save_at_exit now mem io (Some p) st1 = Some (Some PERSIST_OK, st2)"
    by (auto simp: threaded_exit_def split: bind_splits)
  from exit_then_start [OF inv this assms(5,6)] show ?thesis by (auto simp: threaded_start_def)
qed

text \<open>
  The threaded server is linearizable: whatever the order in which the workers get hold of
  \<open>g_store_mu\<close>, and however the bytes of each client arrive and leave, there is one sequential
  execution of all commands such that every client gets exactly the replies to its own commands in
  that execution, in order.
\<close>

theorem threads_linearizable:
  assumes "schedule_ok ss" and "cmd_inv st" and "env_ok e0"
    and "\<forall>k. concat (ds k) = concat (map enc_request (map (snd \<circ> snd) (filter (\<lambda>s. fst s = k) ss))) \<and>
      list_all (\<lambda>d. d \<noteq> []) (ds k) \<and> length (concat (ds k)) \<le> MAX_INPUT_BUF \<and> list_all steady (ws k)"
  shows "\<exists>st' rs. exec_schedule ss st = Some (st', rs) \<and>
    (\<forall>k. \<exists>stx. handle_conn (view_world e0 (view k [] ss)) (view_others (view k [] ss)) (map Rd (ds k)) (ws k) 0 st =
       Some (stx, replies_of k rs, length (filter (\<lambda>s. fst s = k) ss)))"
proof -
  from exec_schedule_ok [OF assms(1,2)] obtain st' rs where ex: "exec_schedule ss st = Some (st', rs)" by blast
  have "\<exists>stx. handle_conn (view_world e0 (view k [] ss)) (view_others (view k [] ss)) (map Rd (ds k)) (ws k) 0 st =
       Some (stx, replies_of k rs, length (filter (\<lambda>s. fst s = k) ss))" for k
    by (rule handle_conn_view [OF assms(1-3) ex]) (use assms(4) in blast)+
  with ex show ?thesis by blast
qed

theorem threads_linearizable_witness:
  "\<exists>ss ds st' rs. map fst ss = [1, 2, 1] \<and> exec_schedule ss demo_state = Some (st', rs) \<and>
    (\<exists>stx. handle_conn (view_world demo_env (view 1 [] ss)) (view_others (view 1 [] ss)) (map Rd ds) [Wr 2, Wr_errno EINTR] 0 demo_state =
       Some (stx, replies_of 1 rs, 2))"
proof -
  let ?g = "[''GET'', ''a'']" and ?d = "[''DBSIZE'']"
  let ?ss = "[(1, demo_env, ?g), (2, demo_env, ?d), (1, demo_env, ?d)] :: schedule"
  let ?ds = "\<lambda>k. map enc_request (map (snd \<circ> snd) (filter (\<lambda>s. fst s = k) ?ss))"
  have len: "length (enc_request ?g) = 20" "length (enc_request ?d) = 16"
    by (simp_all add: enc_request_def enc_bulk_def show_size_def show_nat.simps)
  have "\<not> arg_eq_ci ''GET'' ''SET''" "\<not> arg_eq_ci ''GET'' ''EXPIRE''" "\<not> arg_eq_ci ''DBSIZE'' ''SET''" "\<not> arg_eq_ci ''DBSIZE'' ''EXPIRE''"
    by code_simp+
  then have ok: "schedule_ok ?ss" using demo_env_ok by (simp add: schedule_ok_def ttl_overflow_def request_ok_def resp_limits)
  have ne: "enc_request ?g \<noteq> []" "enc_request ?d \<noteq> []" using len by auto
  have ds: "\<forall>k. concat (?ds k) = concat (map enc_request (map (snd \<circ> snd) (filter (\<lambda>s. fst s = k) ?ss))) \<and>
      list_all (\<lambda>d. d \<noteq> []) (?ds k) \<and> length (concat (?ds k)) \<le> MAX_INPUT_BUF \<and> list_all steady [Wr 2, Wr_errno EINTR]"
    using len ne by (simp add: MAX_INPUT_BUF_def)
  from threads_linearizable [OF ok demo_state_inv demo_env_ok ds] obtain st' rs where
    r: "exec_schedule ?ss demo_state = Some (st', rs)"
      "\<exists>stx. handle_conn (view_world demo_env (view 1 [] ?ss)) (view_others (view 1 [] ?ss)) (map Rd (?ds 1)) [Wr 2, Wr_errno EINTR] 0 demo_state =
       Some (stx, replies_of 1 rs, length (filter (\<lambda>s. fst s = 1) ?ss))" by blast
  have n: "length (filter (\<lambda>s. fst s = 1) ?ss) = 2" "map fst ?ss = [1, 2, 1]" by simp_all
  show ?thesis by (rule exI [of _ ?ss], rule exI [of _ "?ds 1"], rule exI [of _ st'], rule exI [of _ rs]) (use r n in \<open>simp only: simp_thms\<close>)
qed

end
