(* ===== verification/Client_View.thy ===== *)
theory Client_View
  imports Cmd_Spec Server_Run Threads
begin

text \<open>
  What clients of the two servers observe, in terms of the specification of the commands: runs of the
  specification, for one pipeline and for the interleaved requests of many clients.
\<close>

section \<open>Executions of the specification\<close>

text \<open>A list of requests, the i-th in the i-th environment of the world, with the list of its replies.\<close>

inductive spec_run :: "world \<Rightarrow> nat \<Rightarrow> bytes list list \<Rightarrow> spec_state \<Rightarrow> spec_state \<Rightarrow> reply list \<Rightarrow> bool" for w where
  none: "spec_run w i [] s s []"
| one: "spec_step (w_env w i) (decode c) s s1 r \<Longrightarrow> spec_run w (i + 1) cs s1 s2 rs \<Longrightarrow> spec_run w i (c # cs) s s2 (r # rs)"

text \<open>The requests of several clients in one order, each reply with its client.\<close>

inductive spec_schedule :: "schedule \<Rightarrow> spec_state \<Rightarrow> spec_state \<Rightarrow> (nat \<times> reply) list \<Rightarrow> bool" where
  none: "spec_schedule [] s s []"
| one: "spec_step e (decode c) s s1 r \<Longrightarrow> spec_schedule ss s1 s2 rs \<Longrightarrow> spec_schedule ((k, e, c) # ss) s s2 ((k, r) # rs)"

lemma spec_run_length: "spec_run w i cs s s' rs \<Longrightarrow> length rs = length cs"
  by (induction rule: spec_run.induct) simp_all

lemma dispatch_spec:
  assumes "request_ok c" and "cmd_inv st" and "gb_wf out" and "env_ok env" and "\<not> ttl_overflow env c"
  shows "\<exists>st' out' r. cmd_dispatch env c st out = Some (st', out') \<and> cmd_inv st' \<and> gb_wf out' \<and> reply_safe r \<and>
    gb_bytes out' = gb_bytes out @ enc_reply r \<and> spec_step env (decode c) (spec_of st) (spec_of st') r"
  using dispatch_realises [of c st out env] assms by (auto simp: realises_def request_ok_def resp_limits)

lemma exec_cmds_spec:
  assumes "cmd_inv st" and "world_ok w" and "list_all request_ok cs" and "\<not> overflows w i cs" and "exec_cmds w i cs st = Some (st', x)"
  shows "\<exists>rs. spec_run w i cs (spec_of st) (spec_of st') rs \<and> list_all reply_safe rs \<and> x = concat (map enc_reply rs)"
proof -
  have "\<exists>rs st' out'. run_cmds w i cs st out = Some (st', out') \<and> spec_run w i cs (spec_of st) (spec_of st') rs \<and> list_all reply_safe rs \<and>
      gb_bytes out' = gb_bytes out @ concat (map enc_reply rs)" if "gb_wf out" for out
    using assms(1-4) that
  proof (induction cs arbitrary: i st out)
    case Nil
    then show ?case using spec_run.none by fastforce
  next
    case (Cons c cs)
    have "env_ok (w_env w i)" using Cons.prems(2) by (simp add: world_ok_def)
    from dispatch_spec [OF _ Cons.prems(1,5) this, of c] Cons.prems(3,4) obtain st1 out1 r where
      d: "cmd_dispatch (w_env w i) c st out = Some (st1, out1)" "cmd_inv st1" "gb_wf out1" "reply_safe r"
        "gb_bytes out1 = gb_bytes out @ enc_reply r" "spec_step (w_env w i) (decode c) (spec_of st) (spec_of st1) r" by auto
    from Cons.IH [OF d(2) Cons.prems(2) _ _ d(3), of "i + 1"] Cons.prems(3,4) obtain rs st2 out2 where
      r: "run_cmds w (i + 1) cs st1 out1 = Some (st2, out2)" "spec_run w (i + 1) cs (spec_of st1) (spec_of st2) rs" "list_all reply_safe rs"
        "gb_bytes out2 = gb_bytes out1 @ concat (map enc_reply rs)" by auto
    have "run_cmds w i (c # cs) st out = Some (st2, out2)" using d(1) r(1) by simp
    moreover note spec_run.one [OF d(6) r(2)]
    moreover have "list_all reply_safe (r # rs)" "gb_bytes out2 = gb_bytes out @ concat (map enc_reply (r # rs))" using d(4,5) r(3,4) by simp_all
    ultimately show ?case by blast
  qed
  from this [OF gb_wf_init] assms(5) show ?thesis by (auto simp: exec_cmds_def)
qed

lemma exec_schedule_spec:
  assumes "schedule_ok ss" and "cmd_inv st" and "exec_schedule ss st = Some (st', xs)"
  shows "\<exists>rs. spec_schedule ss (spec_of st) (spec_of st') rs \<and> list_all (\<lambda>(k, r). reply_safe r) rs \<and>
    xs = map (\<lambda>(k, r). (k, enc_reply r)) rs"
  using assms
proof (induction ss arbitrary: st xs)
  case Nil
  then show ?case using spec_schedule.none by fastforce
next
  case (Cons s ss)
  obtain k e c where s: "s = (k, e, c)" by (cases s)
  have ok: "env_ok e" "request_ok c" "\<not> ttl_overflow e c" "schedule_ok ss" using Cons.prems(1) s by (simp_all add: schedule_ok_def)
  from dispatch_spec [OF ok(2) Cons.prems(2) gb_wf_init ok(1,3)] obtain st1 out1 r where
    d: "cmd_dispatch e c st resp_buf_init = Some (st1, out1)" "cmd_inv st1" "reply_safe r" "gb_bytes out1 = enc_reply r"
      "spec_step e (decode c) (spec_of st) (spec_of st1) r" by auto
  from Cons.prems(3) s d(1,4) obtain xs1 where x: "exec_schedule ss st1 = Some (st', xs1)" "xs = (k, enc_reply r) # xs1"
    by (auto split: bind_splits)
  from Cons.IH [OF ok(4) d(2) x(1)] obtain rs where
    rs: "spec_schedule ss (spec_of st1) (spec_of st') rs" "list_all (\<lambda>(k, r). reply_safe r) rs" "xs1 = map (\<lambda>(k, r). (k, enc_reply r)) rs" by blast
  have "spec_schedule (s # ss) (spec_of st) (spec_of st') ((k, r) # rs)" unfolding s by (rule spec_schedule.one [OF d(5) rs(1)])
  moreover have "list_all (\<lambda>(k, r). reply_safe r) ((k, r) # rs)" "xs = map (\<lambda>(k, r). (k, enc_reply r)) ((k, r) # rs)"
    using d(3) rs(2,3) x(2) by simp_all
  ultimately show ?case by blast
qed

section \<open>Properties\<close>

text \<open>
  C1: seen from a client the event-driven server is the specification: a pipeline of requests, however
  its bytes are cut into pieces on the way in and however the writes are cut short or delayed on the
  way out, gets exactly the encoded replies of a run of the specification over those requests,
  written or still pending, and the data afterwards is that of the run.
\<close>

theorem server_serves_spec:
  assumes "world_ok w" and "\<forall>i. w_mem w i = (\<lambda>_. True)" and "server_inv s" and "conn_at s fd = Some c"
    and "\<not> closing c" and "gb_bytes (c_in c) = []" and "pending c = []"
    and "list_all request_ok reqs" and "concat (map fst xs) = concat (map enc_request reqs)"
    and "list_all (\<lambda>(d, ws). d \<noteq> [] \<and> list_all benign ws) xs"
    and "length (concat (map fst xs)) \<le> MAX_CONN_INPUT_BUF" and "\<not> overflows w (sv_tick s) reqs"
  shows "\<exists>s' sent c' rs. feed w fd xs s = Some (s', sent) \<and> conn_at s' fd = Some c' \<and>
    spec_run w (sv_tick s) reqs (spec_of (sv_cmd s)) (spec_of (sv_cmd s')) rs \<and> length rs = length reqs \<and>
    sent @ pending c' = concat (map enc_reply rs)"
proof -
  from feed_replies [OF assms(1) _ assms(3-)] assms(2) obtain s' sent c' x where
    f: "feed w fd xs s = Some (s', sent)" "conn_at s' fd = Some c'" "exec_cmds w (sv_tick s) reqs (sv_cmd s) = Some (sv_cmd s', x)"
      "sent @ pending c' = x" by blast
  have "cmd_inv (sv_cmd s)" using assms(3) by (simp add: server_inv_def)
  from exec_cmds_spec [OF this assms(1,8,12) f(3)] f spec_run_length show ?thesis by metis
qed

lemma demo_world_ready: "\<forall>i. w_mem demo_world i = (\<lambda>_. True)" by (simp add: demo_world_def)

theorem server_serves_spec_witness:
  "\<exists>s' sent c' r. feed demo_world 5 [(take 3 (enc_request [''GET'', ''a'']), [Wr 1]), (drop 3 (enc_request [''GET'', ''a'']), [Wr 1, Wr 2])]
     demo_server = Some (s', sent) \<and> conn_at s' 5 = Some c' \<and>
     spec_step demo_env (Get_Key ''a'') (spec_of demo_state) (spec_of (sv_cmd s')) r \<and> sent @ pending c' = enc_reply r"
proof -
  let ?r = "[''GET'', ''a'']"
  let ?xs = "[(take 3 (enc_request ?r), [Wr 1]), (drop 3 (enc_request ?r), [Wr 1, Wr 2])]"
  have len: "length (enc_request ?r) = 20"
    by (simp add: enc_request_def enc_bulk_def show_size_def show_nat.simps)
  have ov: "\<not> overflows demo_world (sv_tick demo_server) [?r]" using demo_request by simp
  have ok: "list_all request_ok [?r]" by (simp add: request_ok_def resp_limits)
  have xs: "list_all (\<lambda>(d, ws). d \<noteq> [] \<and> list_all benign ws) ?xs" using len by auto
  have lim: "length (concat (map fst ?xs)) \<le> MAX_CONN_INPUT_BUF" using len by (simp add: MAX_CONN_INPUT_BUF_def)
  from server_serves_spec [OF demo_world_ok demo_world_ready demo_server_inv demo_conn_at(1) _ _ _ ok _ xs lim ov]
  obtain s' sent c' rs where r: "feed demo_world 5 ?xs demo_server = Some (s', sent)" "conn_at s' 5 = Some c'"
    "spec_run demo_world (sv_tick demo_server) [?r] (spec_of (sv_cmd demo_server)) (spec_of (sv_cmd s')) rs" "sent @ pending c' = concat (map enc_reply rs)"
    by (auto simp: demo_conn_def pending_def)
  from r(3) obtain r' where "rs = [r']" "spec_step demo_env (Get_Key ''a'') (spec_of demo_state) (spec_of (sv_cmd s')) r'"
    by (auto elim!: spec_run.cases simp: demo_decode demo_world_def demo_conn_at)
  with r show ?thesis by auto
qed

text \<open>
  C2: seen from its clients the threaded server is the specification under any interleaving: whatever the
  order in which the workers get hold of the store mutex, and however the bytes of each
  connection arrive and leave, there is one run of the specification over all requests in that
  order, and every client gets exactly the encoded replies to its own requests in it.
\<close>

theorem threads_serve_spec:
  assumes "schedule_ok ss" and "cmd_inv st" and "env_ok e0"
    and "\<forall>k. concat (ds k) = concat (map enc_request (map (snd \<circ> snd) (filter (\<lambda>s. fst s = k) ss))) \<and>
      list_all (\<lambda>d. d \<noteq> []) (ds k) \<and> length (concat (ds k)) \<le> MAX_INPUT_BUF \<and> list_all steady (ws k)"
  shows "\<exists>s' rs. spec_schedule ss (spec_of st) s' rs \<and>
    (\<forall>k. \<exists>stx. handle_conn (view_world e0 (view k [] ss)) (view_others (view k [] ss)) (map Rd (ds k)) (ws k) 0 st =
       Some (stx, concat (map (\<lambda>(j, r). if j = k then enc_reply r else []) rs), length (filter (\<lambda>s. fst s = k) ss)))"
proof -
  from exec_schedule_ok [OF assms(1,2)] obtain st' xs where ex: "exec_schedule ss st = Some (st', xs)" by blast
  from exec_schedule_spec [OF assms(1,2) ex] obtain rs where
    rs: "spec_schedule ss (spec_of st) (spec_of st') rs" "xs = map (\<lambda>(k, r). (k, enc_reply r)) rs" by blast
  have own: "replies_of k xs = concat (map (\<lambda>(j, r). if j = k then enc_reply r else []) rs)" for k
    unfolding rs(2) replies_of_def by (induction rs) auto
  have "\<exists>stx. handle_conn (view_world e0 (view k [] ss)) (view_others (view k [] ss)) (map Rd (ds k)) (ws k) 0 st =
       Some (stx, replies_of k xs, length (filter (\<lambda>s. fst s = k) ss))" for k
    by (rule handle_conn_view [OF assms(1-3) ex]) (use assms(4) in blast)+
  with rs(1) own show ?thesis by auto
qed

theorem threads_serve_spec_witness:
  "\<exists>ss ds s' rs. map fst ss = [1, 2, 1] \<and> spec_schedule ss (spec_of demo_state) s' rs \<and>
    (\<exists>stx. handle_conn (view_world demo_env (view 1 [] ss)) (view_others (view 1 [] ss)) (map Rd ds) [Wr 2, Wr_errno EINTR] 0 demo_state =
       Some (stx, concat (map (\<lambda>(j, r). if j = 1 then enc_reply r else []) rs), 2))"
proof -
  let ?g = "[''GET'', ''a'']"
  let ?ss = "[(1, demo_env, ?g), (2, demo_env, ?g), (1, demo_env, ?g)] :: schedule"
  let ?ds = "\<lambda>k. map enc_request (map (snd \<circ> snd) (filter (\<lambda>s. fst s = k) ?ss))"
  have len: "length (enc_request ?g) = 20"
    by (simp add: enc_request_def enc_bulk_def show_size_def show_nat.simps)
  have ok: "schedule_ok ?ss" using demo_env_ok demo_request by (simp add: schedule_ok_def request_ok_def resp_limits)
  have ne: "enc_request ?g \<noteq> []" using len by auto
  have ds: "\<forall>k. concat (?ds k) = concat (map enc_request (map (snd \<circ> snd) (filter (\<lambda>s. fst s = k) ?ss))) \<and>
      list_all (\<lambda>d. d \<noteq> []) (?ds k) \<and> length (concat (?ds k)) \<le> MAX_INPUT_BUF \<and> list_all steady [Wr 2, Wr_errno EINTR]"
    using len ne by (simp add: MAX_INPUT_BUF_def)
  from threads_serve_spec [OF ok demo_state_inv demo_env_ok ds] obtain s' rs where
    r: "spec_schedule ?ss (spec_of demo_state) s' rs"
      "\<exists>stx. handle_conn (view_world demo_env (view 1 [] ?ss)) (view_others (view 1 [] ?ss)) (map Rd (?ds 1)) [Wr 2, Wr_errno EINTR] 0 demo_state =
       Some (stx, concat (map (\<lambda>(j, r). if j = 1 then enc_reply r else []) rs), length (filter (\<lambda>s. fst s = 1) ?ss))" by blast
  have n: "length (filter (\<lambda>s. fst s = 1) ?ss) = 2" "map fst ?ss = [1, 2, 1]" by simp_all
  show ?thesis by (rule exI [of _ ?ss], rule exI [of _ "?ds 1"], rule exI [of _ s'], rule exI [of _ rs]) (use r n in \<open>simp only: simp_thms\<close>)
qed

end
