(* ===== verification/Program.thy ===== *)
theory Program
  imports Client_View
begin

text \<open>
  The two programs from their command lines to their exit status: the listening socket
  (\<open>create_listen_socket\<close>, \<open>set_nonblocking\<close>), the failures at start-up that end the process with status 1, and
  the run in between. The outcomes of \<open>socket\<close>, \<open>bind\<close>, \<open>listen\<close>, \<open>fcntl\<close>, \<open>epoll_create1\<close>, \<open>epoll_ctl\<close> and
  \<open>pthread_create\<close> are data.
\<close>

unbundle bit_operations_syntax

section \<open>The listening socket\<close>

text \<open>Ports in memory: 16 bits, the bytes swapped by \<open>htons\<close> on the little-endian machines the server is built for.\<close>

definition htons :: "16 word \<Rightarrow> 16 word" where
  "htons x = push_bit 8 x OR drop_bit 8 x"

definition O_NONBLOCK :: int where "O_NONBLOCK = 2048"

record listen_io =
  li_socket :: int
  li_bind :: "16 word \<Rightarrow> bool"
  li_listen :: bool
  li_getfl :: int
  li_setfl :: "int \<Rightarrow> int"

definition set_nonblocking :: "listen_io \<Rightarrow> int" where
  "set_nonblocking io = (let flags = li_getfl io in if flags < 0 then - 1 else li_setfl io (flags OR O_NONBLOCK))"

text \<open>\<open>Inl\<close> is \<open>exit (1)\<close>; \<open>Inr\<close> the descriptor.\<close>

definition create_listen_socket :: "listen_io \<Rightarrow> int \<Rightarrow> int + nat" where
  "create_listen_socket io port =
     (let fd = li_socket io; sin_port = htons (word_of_int port) in
      if fd < 0 then Inl 1
      else if \<not> li_bind io sin_port then Inl 1
      else if \<not> li_listen io then Inl 1
      else if set_nonblocking io < 0 then Inl 1
      else Inr (nat fd))"

text \<open>The threaded server accepts with blocking calls and leaves the socket as it is.\<close>

definition create_listen_socket_threaded :: "listen_io \<Rightarrow> int \<Rightarrow> int + nat" where
  "create_listen_socket_threaded io port =
     (let fd = li_socket io; sin_port = htons (word_of_int port) in
      if fd < 0 then Inl 1
      else if \<not> li_bind io sin_port then Inl 1
      else if \<not> li_listen io then Inl 1
      else Inr (nat fd))"

section \<open>The event-driven program\<close>

record program_io =
  pi_server :: server_io
  pi_listen :: listen_io
  pi_epoll_create :: bool
  pi_epoll_add :: bool

record program_result =
  pr_status :: int
  pr_saved :: "persist_status option"
  pr_fs :: fs
  pr_wire :: "(nat \<times> bytes) list"

definition gave_up :: "fs \<Rightarrow> program_result" where
  "gave_up fs = \<lparr>pr_status = 1, pr_saved = None, pr_fs = fs, pr_wire = []\<rparr>"

definition server_program :: "world \<Rightarrow> program_io \<Rightarrow> bytes list \<Rightarrow> fs \<Rightarrow> program_result option" where
  "server_program w io argv fs = do {
     r \<leftarrow> main_args argv DEFAULT_PORT None;
     (case r of
        Usage \<Rightarrow> Some (gave_up fs)
      | Args port save_path \<Rightarrow> do {
          (_, st) \<leftarrow> load_at_start (si_load_now (pi_server io)) (si_load (pi_server io)) save_path fs;
          (case create_listen_socket (pi_listen io) port of
             Inl e \<Rightarrow> Some ((gave_up fs)\<lparr>pr_status := e\<rparr>)
           | Inr listen_fd \<Rightarrow>
               if \<not> pi_epoll_create io then Some (gave_up fs)
               else if \<not> pi_epoll_add io then Some (gave_up fs)
               else do {
                 (saved, wire, fs', s, freed) \<leftarrow> server_serve w ((pi_server io)\<lparr>si_listen_fd := listen_fd\<rparr>) save_path st;
                 Some \<lparr>pr_status = 0, pr_saved = saved, pr_fs = fs', pr_wire = wire\<rparr>
               })
        })
   }"

section \<open>The threaded program up to its accept loop\<close>

record threaded_io =
  ti_load_now :: int
  ti_load :: load_io
  ti_cells :: "nat list"
  ti_create :: "nat \<Rightarrow> bool"
  ti_listen :: listen_io

text \<open>The i-th call of \<open>pthread_create\<close>; the first that fails ends the process.\<close>

definition threads_created :: "(nat \<Rightarrow> bool) \<Rightarrow> nat \<Rightarrow> bool" where
  "threads_created create n = list_all create [0..<n]"

definition threaded_boot ::
    "threaded_io \<Rightarrow> bytes list \<Rightarrow> fs \<Rightarrow> (int + nat \<times> bytes option \<times> cmd_state \<times> pool) option" where
  "threaded_boot io argv fs = do {
     r \<leftarrow> threaded_main_args argv;
     (case r of
        T_Usage \<Rightarrow> Some (Inl 1)
      | T_Args port num_workers save_path \<Rightarrow> do {
          (_, st, pool) \<leftarrow> threaded_start (ti_load_now io) (ti_load io) (ti_cells io) (nat num_workers) save_path fs;
          if \<not> threads_created (ti_create io) (nat num_workers) then Some (Inl 1)
          else
            (case create_listen_socket_threaded (ti_listen io) port of
               Inl e \<Rightarrow> Some (Inl e)
             | Inr listen_fd \<Rightarrow> Some (Inr (listen_fd, save_path, st, pool)))
        })
   }"

section \<open>Ports\<close>

lemma htons_htons [simp]: "htons (htons x) = x"
proof (rule bit_word_eqI)
  fix n assume "n < LENGTH(16)"
  then have "n < 16" by simp
  then show "bit (htons (htons x)) n = bit x n"
    by (auto simp: htons_def bit_or_iff bit_push_bit_iff bit_drop_bit_eq bit_imp_le_length)
qed

lemma port_word: "0 < port \<Longrightarrow> port \<le> 65535 \<Longrightarrow> uint (word_of_int port :: 16 word) = port"
  by (simp add: uint_word_of_int)

lemma threaded_args_positive:
  assumes "threaded_main_args as = Some (T_Args port n sp)"
  shows "0 < port \<and> port \<le> 65535 \<and> 0 < n"
  using assms by (auto simp: threaded_main_args_def split: bind_splits threaded_args.splits if_splits)


lemma create_listen_socket_cases:
  "create_listen_socket io port = Inl 1 \<or>
   (create_listen_socket io port = Inr (nat (li_socket io)) \<and> li_bind io (htons (word_of_int port)) \<and> li_listen io)"
  by (auto simp: create_listen_socket_def Let_def)

section \<open>Properties\<close>


definition demo_program :: program_io where
  "demo_program =
     \<lparr>pi_server = \<lparr>si_load_now = 0, si_load = \<lparr>io_open = True, io_mem = True, io_fread = True\<rparr>, si_listen_fd = 0, si_waits = [Wait_errno EINTR],
        si_save_now = 0, si_save_mem = (\<lambda>_. True), si_save = all_io\<rparr>,
      pi_listen = \<lparr>li_socket = 3, li_bind = (\<lambda>p. p = 0x1E19), li_listen = True, li_getfl = 2, li_setfl = (\<lambda>_. 0)\<rparr>,
      pi_epoll_create = True, pi_epoll_add = True\<rparr>"




section \<open>The threaded program to its end\<close>

record exit_io =
  xi_now :: int
  xi_mem :: "nat \<Rightarrow> bool"
  xi_save :: save_io

text \<open>
  Between the start and the join of the workers the state changes only under \<open>g_store_mu\<close>: \<open>ss\<close> is what they
  execute, in the order in which they get hold of it. The wire has the replies with their connections.
\<close>

definition threaded_program :: "threaded_io \<Rightarrow> exit_io \<Rightarrow> schedule \<Rightarrow> bytes list \<Rightarrow> fs \<Rightarrow> program_result option" where
  "threaded_program io xio ss argv fs = do {
     b \<leftarrow> threaded_boot io argv fs;
     (case b of
        Inl e \<Rightarrow> Some ((gave_up fs)\<lparr>pr_status := e\<rparr>)
      | Inr (listen_fd, save_path, st, pool) \<Rightarrow> do {
          (st, wire) \<leftarrow> exec_schedule ss st;
          (saved, st, freed) \<leftarrow> threaded_exit (xi_now xio) (xi_mem xio) (xi_save xio) save_path st;
          Some \<lparr>pr_status = 0, pr_saved = saved, pr_fs = cs_fs st, pr_wire = wire\<rparr>
        })
   }"


lemma empty_entries: "live_entries now store_create = []"
proof -
  have "entries_map (live_entries now store_create) = Map.empty"
    using live_entries_map [OF store_create_inv] by (simp add: store_create_abs)
  then show ?thesis using dom_entries_map [of "live_entries now store_create"] by simp
qed

definition demo_threaded :: threaded_io where
  "demo_threaded = \<lparr>ti_load_now = 0, ti_load = \<lparr>io_open = True, io_mem = True, io_fread = True\<rparr>, ti_cells = replicate 512 0,
     ti_create = (\<lambda>_. True), ti_listen = (pi_listen demo_program)\<lparr>li_bind := (\<lambda>_. True)\<rparr>\<rparr>"


end
