(* ===== verification/Counters.thy ===== *)
theory Counters
  imports Client_View
begin

text \<open>
  Counters under concurrency: what the specification of the commands and the threaded server (\<open>src/server_threaded.c\<close>)
  together promise to clients that increment the same key.
\<close>

section \<open>A counter shared by all clients\<close>

definition counter :: "bytes \<Rightarrow> nat \<Rightarrow> spec_state \<Rightarrow> bool" where
  "counter k n s \<longleftrightarrow> sp_data s k = None \<and> n = 0 \<or> sp_data s k = Some (show_int (int n), 0)"

inductive_cases spec_step_incrE: "spec_step env (Incr k d) s s' r"
inductive_cases spec_schedule_ConsE: "spec_schedule (x # ss) s s' rs"
inductive_cases spec_schedule_NilE: "spec_schedule [] s s' rs"

lemma incr_counter:
  assumes "spec_step env (Incr k 1) s s' r" and "counter k n s" and "int n < INT64_MAX"
  shows "r = Integer (int n + 1) \<and> counter k (Suc n) s'"
proof -
  have ok: "int64_ok (int n)" "int64_ok (int n + 1)" using assms(3) by (simp_all add: int64_ok_def INT64_MIN_def)
  have live: "live t (sp_data s) k = sp_data s k" for t
    using assms(2) by (auto simp: counter_def live_def expired_def)
  have "(case live t (sp_data s) k of None \<Rightarrow> Some 0 | Some (v, _) \<Rightarrow> parse_strict_ll v) = Some (int n)" for t
    using assms(2) parse_strict_ll_show_int [OF ok(1)] unfolding live by (auto simp: counter_def)
  moreover have "(case live t (sp_data s) k of None \<Rightarrow> 0 | Some (_, x) \<Rightarrow> x) = 0" for t
    using assms(2) unfolding live by (auto simp: counter_def)
  ultimately have "incr_spec t (sp_data s) k 1 = (STORE_INCR_OK, int n + 1, (sp_data s)(k \<mapsto> (show_int (int n + 1), 0)))" for t
    using ok(2) by (simp add: incr_spec_def)
  with assms(1) show ?thesis by (auto elim!: spec_step_incrE simp: counter_def add.commute)
qed

lemma schedule_counter:
  assumes "spec_schedule ss s s' rs" and "list_all (\<lambda>x. decode (snd (snd x)) = Incr k 1) ss" and "counter k n s"
    and "int n + int (length ss) \<le> INT64_MAX"
  shows "rs = map (\<lambda>(i, x). (fst x, Integer (int i + 1))) (enumerate n ss) \<and> counter k (n + length ss) s'"
  using assms
proof (induction ss arbitrary: s n rs)
  case Nil
  then show ?case by (auto elim: spec_schedule_NilE)
next
  case (Cons x ss)
  obtain j e c where x: "x = (j, e, c)" by (cases x)
  from Cons.prems(1) x obtain s1 r rs1 where
    st: "spec_step e (decode c) s s1 r" "spec_schedule ss s1 s' rs1" "rs = (j, r) # rs1" by (auto elim: spec_schedule_ConsE)
  have "decode c = Incr k 1" using Cons.prems(2) x by simp
  with incr_counter [of e k s s1 r n] st(1) Cons.prems(3,4) have r: "r = Integer (int n + 1)" "counter k (Suc n) s1" by auto
  from Cons.IH [OF st(2) _ r(2)] Cons.prems(2,4) st(3) r(1) x show ?case by simp
qed

text \<open>
  C10: no update is lost: when any number of clients increment the same key at the same time, in any
  interleaving, the i-th \<open>INCR\<close> to get hold of the mutex is answered with i, each client gets the
  numbers of its own increments in order, and the value stored in the end is their number.
\<close>

theorem concurrent_increments:
  assumes "schedule_ok ss" and "list_all (\<lambda>x. decode (snd (snd x)) = Incr k 1) ss" and "int (length ss) \<le> INT64_MAX"
    and "cmd_inv st" and "store_abs (cs_store st) k = None" and "env_ok e0"
    and "\<forall>j. concat (ds j) = concat (map enc_request (map (snd \<circ> snd) (filter (\<lambda>s. fst s = j) ss))) \<and>
      list_all (\<lambda>d. d \<noteq> []) (ds j) \<and> length (concat (ds j)) \<le> MAX_INPUT_BUF \<and> list_all steady (ws j)"
  shows "\<exists>st' xs. exec_schedule ss st = Some (st', xs) \<and>
    (ss \<noteq> [] \<longrightarrow> store_abs (cs_store st') k = Some (show_int (int (length ss)), 0)) \<and>
    (\<forall>j. \<exists>stx. handle_conn (view_world e0 (view j [] ss)) (view_others (view j [] ss)) (map Rd (ds j)) (ws j) 0 st =
       Some (stx, concat (map (\<lambda>(i, x). if fst x = j then enc_reply (Integer (int i + 1)) else []) (enumerate 0 ss)),
         length (filter (\<lambda>s. fst s = j) ss)))"
proof -
  from exec_schedule_ok [OF assms(1,4)] obtain st' xs where ex: "exec_schedule ss st = Some (st', xs)" by blast
  from exec_schedule_spec [OF assms(1,4) ex] obtain rs where
    rs: "spec_schedule ss (spec_of st) (spec_of st') rs" "xs = map (\<lambda>(k, r). (k, enc_reply r)) rs" by blast
  have "counter k 0 (spec_of st)" using assms(5) by (simp add: counter_def)
  from schedule_counter [OF rs(1) assms(2) this] assms(3) have
    c: "rs = map (\<lambda>(i, x). (fst x, Integer (int i + 1))) (enumerate 0 ss)" "counter k (length ss) (spec_of st')" by simp_all
  have own: "replies_of j xs = concat (map (\<lambda>(i, x). if fst x = j then enc_reply (Integer (int i + 1)) else []) (enumerate 0 ss))" for j
  proof -
    have "replies_of j (map (\<lambda>(k, r). (k, enc_reply r)) (map (\<lambda>(i, x). (fst x, Integer (int i + 1))) ys)) =
        concat (map (\<lambda>(i, x). if fst x = j then enc_reply (Integer (int i + 1)) else []) ys)" for ys :: "(nat \<times> nat \<times> cmd_env \<times> bytes list) list"
      by (induction ys) (auto simp: replies_of_def)
    then show ?thesis unfolding rs(2) c(1) .
  qed
  have "\<exists>stx. handle_conn (view_world e0 (view j [] ss)) (view_others (view j [] ss)) (map Rd (ds j)) (ws j) 0 st =
       Some (stx, replies_of j xs, length (filter (\<lambda>s. fst s = j) ss))" for j
    by (rule handle_conn_view [OF assms(1,4,6) ex]) (use assms(7) in blast)+
  moreover have "store_abs (cs_store st') k = Some (show_int (int (length ss)), 0)" if "ss \<noteq> []"
    using c(2) that by (auto simp: counter_def)
  ultimately show ?thesis using ex own by auto
qed

theorem concurrent_increments_witness:
  "\<exists>ss st' xs. map fst ss = [1, 2, 1] \<and> exec_schedule ss (fresh_state Map.empty) = Some (st', xs) \<and>
     store_abs (cs_store st') ''n'' = Some (''3'', 0)"
proof -
  let ?c = "[''INCR'', ''n'']"
  let ?ss = "[(1, demo_env, ?c), (2, demo_env, ?c), (1, demo_env, ?c)] :: schedule"
  let ?ds = "\<lambda>j. map enc_request (map (snd \<circ> snd) (filter (\<lambda>s. fst s = j) ?ss))"
  have "\<not> arg_eq_ci ''INCR'' ''SET''" "\<not> arg_eq_ci ''INCR'' ''EXPIRE''" by code_simp+
  then have ok: "schedule_ok ?ss" using demo_env_ok by (simp add: schedule_ok_def ttl_overflow_def request_ok_def resp_limits)
  have "decode ?c = Incr ''n'' 1"
    using decode_named [of "''INCR''" "syn_one (\<lambda>k. Incr k 1)" "''INCR''" "[''n'']"] by (simp add: SYNTAX_def arg_eq_ci_iff named_def)
  then have all: "list_all (\<lambda>x. decode (snd (snd x)) = Incr ''n'' 1) ?ss" by simp
  have len: "length (enc_request ?c) = 21"
    by (simp add: enc_request_def enc_bulk_def show_size_def show_nat.simps)
  then have ne: "enc_request ?c \<noteq> []" by auto
  have ds: "\<forall>j. concat (?ds j) = concat (map enc_request (map (snd \<circ> snd) (filter (\<lambda>s. fst s = j) ?ss))) \<and>
      list_all (\<lambda>d. d \<noteq> []) (?ds j) \<and> length (concat (?ds j)) \<le> MAX_INPUT_BUF \<and> list_all steady [Wr 2, Wr_errno EINTR]"
    using len ne by (simp add: MAX_INPUT_BUF_def)
  have st: "store_abs (cs_store (fresh_state Map.empty)) ''n'' = None" by (simp add: fresh_state_def store_create_abs)
  have n: "int (length ?ss) \<le> INT64_MAX" by (simp add: INT64_MAX_def)
  from concurrent_increments [OF ok all n fresh_state_inv(1) st demo_env_ok ds] obtain st' xs where
    r: "exec_schedule ?ss (fresh_state Map.empty) = Some (st', xs)" "store_abs (cs_store st') ''n'' = Some (show_int (int (length ?ss)), 0)" by blast
  have "show_int (int (length ?ss)) = ''3''" by (simp add: show_int_def show_nat.simps)
  with r show ?thesis by (intro exI [of _ ?ss]) (simp del: exec_schedule.simps)
qed

end
