(* ===== verification/Resp_Heap.thy ===== *)
theory Resp_Heap
  imports Resp
begin

text \<open>
  The memory the request parser of \<open>src/resp.c\<close> allocates and frees. The functions of \<open>Resp\<close> are repeated with
  every call of \<open>malloc\<close>, \<open>calloc\<close>, \<open>realloc\<close> and \<open>free\<close> on an explicit heap of blocks, where freeing a block
  that is not allocated has no result. They return what the functions of \<open>Resp\<close> return, free
  everything on every path that does not return a command, and leave a command with exactly the
  blocks that \<open>resp_command_free\<close> gives back.
\<close>

section \<open>Blocks\<close>

record heap =
  hp_live :: "nat set"
  hp_next :: nat

definition hp_ok :: "heap \<Rightarrow> bool" where
  "hp_ok h \<longleftrightarrow> (\<forall>b \<in> hp_live h. b < hp_next h)"

text \<open>A call that does not return NULL gives a block that is not in use.\<close>

definition h_alloc :: "heap \<Rightarrow> nat \<times> heap" where
  "h_alloc h = (hp_next h, \<lparr>hp_live = insert (hp_next h) (hp_live h), hp_next = hp_next h + 1\<rparr>)"

definition h_free :: "nat \<Rightarrow> heap \<Rightarrow> heap option" where
  "h_free b h = (if b \<in> hp_live h then Some (h\<lparr>hp_live := hp_live h - {b}\<rparr>) else None)"

text \<open>\<open>realloc\<close> that succeeds: the old block is gone.\<close>

definition h_realloc :: "nat \<Rightarrow> heap \<Rightarrow> (nat \<times> heap) option" where
  "h_realloc b h = do { h \<leftarrow> h_free b h; Some (h_alloc h) }"

fun h_free_all :: "nat list \<Rightarrow> heap \<Rightarrow> heap option" where
  "h_free_all [] h = Some h"
| "h_free_all (b # bs) h = do { h \<leftarrow> h_free b h; h_free_all bs h }"

text \<open>The data blocks of the arguments filled in, then the array.\<close>

definition free_argv_partial :: "nat \<Rightarrow> nat list \<Rightarrow> heap \<Rightarrow> heap option" where
  "free_argv_partial a ds h = do { h \<leftarrow> h_free_all ds h; h_free a h }"

section \<open>The parser with its memory\<close>

text \<open>The result with the blocks of \<open>cmd->argv\<close> (\<open>None\<close> for NULL): the array and the data of the arguments.\<close>

type_synonym heap_result = "resp_status \<times> (nat \<times> nat list) option \<times> heap"

definition fail_free :: "resp_status \<Rightarrow> nat \<Rightarrow> nat list \<Rightarrow> heap \<Rightarrow> heap_result option" where
  "fail_free st a ds h = do { h \<leftarrow> free_argv_partial a ds h; Some (st, None, h) }"

primrec parse_bulks_heap ::
    "(nat \<Rightarrow> bool) \<Rightarrow> bytes \<Rightarrow> nat \<Rightarrow> nat \<Rightarrow> nat \<Rightarrow> bytes list \<Rightarrow> nat \<Rightarrow> nat list \<Rightarrow> heap \<Rightarrow> heap_result option" where
  "parse_bulks_heap mem buf 0 pos m argv a ds h = Some (RESP_PARSE_OK argv pos, Some (a, ds), h)"
| "parse_bulks_heap mem buf (Suc left) pos m argv a ds h =
     (case find_crlf buf pos of
        None \<Rightarrow> do {
          rest \<leftarrow> size_sub (length buf) pos;
          if rest > RESP_MAX_INLINE_LEN
          then fail_free (RESP_PARSE_ERROR ''ERR Protocol error: too big bulk count string'') a ds h
          else fail_free RESP_PARSE_INCOMPLETE a ds h
        }
      | Some hdr_end \<Rightarrow> do {
          c \<leftarrow> rd buf pos;
          if c \<noteq> CHR ''$'' then fail_free (RESP_PARSE_ERROR ''ERR Protocol error: expected '$', got something else'') a ds h
          else do {
            hlen \<leftarrow> size_sub hdr_end (pos + 1);
            hdr \<leftarrow> rd_span buf (pos + 1) hlen;
            r \<leftarrow> parse_ll hdr;
            (case r of
               None \<Rightarrow> fail_free (RESP_PARSE_ERROR ''ERR Protocol error: invalid bulk length'') a ds h
             | Some blen \<Rightarrow>
                 if blen < 0 \<or> blen > RESP_MAX_BULK_LEN
                 then fail_free (RESP_PARSE_ERROR ''ERR Protocol error: invalid bulk length'') a ds h
                 else
                   (let body = hdr_end + 2; n = nat blen in
                    if length buf < body + n + 2 then fail_free RESP_PARSE_INCOMPLETE a ds h
                    else do {
                      c0 \<leftarrow> rd buf (body + n);
                      c1 \<leftarrow> rd buf (body + n + 1);
                      if c0 \<noteq> CR \<or> c1 \<noteq> LF
                      then fail_free (RESP_PARSE_ERROR ''ERR Protocol error: expected CRLF after bulk string body'') a ds h
                      else if \<not> mem m then fail_free (RESP_PARSE_ERROR ''ERR out of memory'') a ds h
                      else do {
                        data \<leftarrow> rd_span buf body n;
                        (let (d, h) = h_alloc h
                         in parse_bulks_heap mem buf left (body + n + 2) (m + 1) (argv @ [data]) a (ds @ [d]) h)
                      }
                    }))
          }
        })"

declare parse_bulks_heap.simps(2) [simp del]

definition parse_multibulk_heap :: "(nat \<Rightarrow> bool) \<Rightarrow> bytes \<Rightarrow> heap \<Rightarrow> heap_result option" where
  "parse_multibulk_heap mem buf h =
     (case find_crlf buf 0 of
        None \<Rightarrow>
          if length buf > RESP_MAX_INLINE_LEN
          then Some (RESP_PARSE_ERROR ''ERR Protocol error: too big mbulk count string'', None, h)
          else Some (RESP_PARSE_INCOMPLETE, None, h)
      | Some line_end \<Rightarrow> do {
          hlen \<leftarrow> size_sub line_end 1;
          hdr \<leftarrow> rd_span buf 1 hlen;
          r \<leftarrow> parse_ll hdr;
          (case r of
             None \<Rightarrow> Some (RESP_PARSE_ERROR ''ERR Protocol error: invalid multibulk length'', None, h)
           | Some argc \<Rightarrow>
               if argc \<le> 0 \<or> argc > RESP_MAX_ARGC
               then Some (RESP_PARSE_ERROR ''ERR Protocol error: invalid multibulk length'', None, h)
               else if \<not> mem 0 then Some (RESP_PARSE_ERROR ''ERR out of memory'', None, h)
               else (let (a, h) = h_alloc h in parse_bulks_heap mem buf (nat argc) (line_end + 2) 1 [] a [] h))
        })"

text \<open>The tokenizer: \<open>Inl\<close> is its failure, with everything freed; \<open>Inr\<close> the tokens, the array and the data.\<close>

function tokenize_heap ::
    "(nat \<Rightarrow> bool) \<Rightarrow> bytes \<Rightarrow> nat \<Rightarrow> nat \<Rightarrow> nat \<Rightarrow> nat \<Rightarrow> bytes list \<Rightarrow> nat \<Rightarrow> nat list \<Rightarrow> heap \<Rightarrow>
       (heap + bytes list \<times> nat \<times> nat list \<times> heap) option" where
  "tokenize_heap mem buf line_len p cap m argv a ds h =
     (if p < line_len then
        (let start = scan_while isspace buf line_len p in
         if start \<ge> line_len then Some (Inr (argv, a, ds, h))
         else
           (let p' = scan_while (\<lambda>c. \<not> isspace c) buf line_len start;
                tok_len = p' - start;
                full = (length argv = cap);
                cap' = (if full then cap * 2 else cap);
                m' = (if full then m + 1 else m)
            in if full \<and> \<not> mem m then map_option Inl (free_argv_partial a ds h)
               else do {
                 g \<leftarrow> (if full then h_realloc a h else Some (a, h));
                 if \<not> mem m' then map_option Inl (free_argv_partial (fst g) ds (snd g))
                 else do {
                   data \<leftarrow> rd_span buf start tok_len;
                   (let b = h_alloc (snd g)
                    in tokenize_heap mem buf line_len p' cap' (m' + 1) (argv @ [data]) (fst g) (ds @ [fst b]) (snd b))
                 }
               }))
      else Some (Inr (argv, a, ds, h)))"
  by pat_completeness auto
termination
proof (relation "measure (\<lambda>(mem, buf, line_len, p, cap, m, argv, a, ds, h). line_len - p)", goal_cases)
  case 1
  show ?case by simp
next
  case (2 mem buf line_len p cap m argv a ds h start p' tok_len full cap' m' g data b)
  then show ?case using token_progress [of isspace buf line_len p] by simp
qed

declare tokenize_heap.simps [simp del]

definition parse_inline_heap :: "(nat \<Rightarrow> bool) \<Rightarrow> bytes \<Rightarrow> heap \<Rightarrow> heap_result option" where
  "parse_inline_heap mem buf h =
     (let i = scan_while (\<lambda>c. c \<noteq> LF) buf (length buf) 0 in
      if i \<ge> length buf then
        (if length buf > RESP_MAX_INLINE_LEN
         then Some (RESP_PARSE_ERROR ''ERR Protocol error: too big inline request'', None, h)
         else Some (RESP_PARSE_INCOMPLETE, None, h))
      else
        (let line_len = (if i > 0 \<and> buf ! (i - 1) = CR then i - 1 else i);
             consumed = i + 1
         in if \<not> mem 0 then Some (RESP_PARSE_ERROR ''ERR out of memory'', None, h)
            else do {
              let (a, h) = h_alloc h;
              r \<leftarrow> tokenize_heap mem buf line_len 0 8 1 [] a [] h;
              (case r of
                 Inl h \<Rightarrow> Some (RESP_PARSE_ERROR ''ERR out of memory'', None, h)
               | Inr (argv, a, ds, h) \<Rightarrow>
                   if argv \<noteq> [] then Some (RESP_PARSE_OK argv consumed, Some (a, ds), h)
                   else do { h \<leftarrow> h_free a h; Some (RESP_PARSE_OK argv consumed, None, h) })
            }))"

definition resp_parse_heap :: "(nat \<Rightarrow> bool) \<Rightarrow> bytes \<Rightarrow> heap \<Rightarrow> heap_result option" where
  "resp_parse_heap mem buf h =
     (if buf = [] then Some (RESP_PARSE_INCOMPLETE, None, h)
      else if hd buf = CHR ''*'' then parse_multibulk_heap mem buf h
      else parse_inline_heap mem buf h)"

definition resp_command_free_heap :: "(nat \<times> nat list) option \<Rightarrow> heap \<Rightarrow> heap option" where
  "resp_command_free_heap blocks h =
     (case blocks of
        None \<Rightarrow> Some h
      | Some (a, ds) \<Rightarrow> do { h \<leftarrow> h_free_all ds h; h_free a h })"

section \<open>Ownership\<close>

text \<open>The blocks of a command under construction: allocated, all different, besides those in \<open>rest\<close>.\<close>

definition owns :: "nat \<Rightarrow> nat list \<Rightarrow> nat set \<Rightarrow> heap \<Rightarrow> bool" where
  "owns a ds rest h \<longleftrightarrow> hp_ok h \<and> distinct (a # ds) \<and> rest \<inter> set (a # ds) = {} \<and> hp_live h = rest \<union> set (a # ds)"

lemma owns_alloc:
  assumes "hp_ok h"
  shows "owns (fst (h_alloc h)) [] (hp_live h) (snd (h_alloc h))"
  using assms by (auto simp: owns_def h_alloc_def hp_ok_def)

lemma owns_alloc_data:
  assumes "owns a ds rest h"
  shows "owns a (ds @ [fst (h_alloc h)]) rest (snd (h_alloc h))"
proof -
  note o = assms [unfolded owns_def]
  have "hp_next h \<notin> hp_live h" using o by (auto simp: hp_ok_def)
  with o have "hp_next h \<notin> rest \<union> set (a # ds)" by simp
  moreover have "hp_ok (snd (h_alloc h))" using o by (auto simp: hp_ok_def h_alloc_def less_Suc_eq)
  ultimately show ?thesis using o by (simp add: owns_def h_alloc_def) blast
qed

lemma owns_realloc:
  assumes "owns a ds rest h"
  shows "\<exists>g. h_realloc a h = Some g \<and> owns (fst g) ds rest (snd g)"
proof -
  note o = assms [unfolded owns_def]
  let ?h = "h\<lparr>hp_live := hp_live h - {a}\<rparr>"
  have "a \<in> hp_live h" using o by simp
  then have g: "h_realloc a h = Some (h_alloc ?h)" by (simp add: h_realloc_def h_free_def)
  have "hp_next h \<notin> hp_live h" using o by (auto simp: hp_ok_def)
  with o have n: "hp_next h \<notin> rest \<union> set (a # ds)" by simp
  have "hp_ok (snd (h_alloc ?h))" using o by (auto simp: hp_ok_def h_alloc_def less_Suc_eq)
  moreover have "hp_live h - {a} = rest \<union> set ds" using o by auto
  ultimately have "owns (fst (h_alloc ?h)) ds rest (snd (h_alloc ?h))" using o n by (simp add: owns_def h_alloc_def)
  with g show ?thesis by blast
qed

lemma h_free_all_ok:
  assumes "distinct bs" and "set bs \<subseteq> hp_live h"
  shows "h_free_all bs h = Some (h\<lparr>hp_live := hp_live h - set bs\<rparr>)"
  using assms
proof (induction bs arbitrary: h)
  case Nil
  then show ?case by simp
next
  case (Cons b bs)
  have "h_free_all bs (h\<lparr>hp_live := hp_live h - {b}\<rparr>) = Some (h\<lparr>hp_live := hp_live h - {b} - set bs\<rparr>)"
    using Cons.IH [of "h\<lparr>hp_live := hp_live h - {b}\<rparr>"] Cons.prems by auto
  moreover have "hp_live h - {b} - set bs = hp_live h - set (b # bs)" by auto
  ultimately show ?case using Cons.prems by (simp add: h_free_def)
qed

lemma owns_free:
  assumes "owns a ds rest h"
  shows "\<exists>h'. free_argv_partial a ds h = Some h' \<and> hp_ok h' \<and> hp_live h' = rest"
proof -
  have "h_free_all ds h = Some (h\<lparr>hp_live := hp_live h - set ds\<rparr>)" using assms by (intro h_free_all_ok) (auto simp: owns_def)
  moreover have "a \<in> hp_live h - set ds" "hp_live h - set ds - {a} = rest" using assms by (auto simp: owns_def)
  ultimately show ?thesis using assms by (auto simp: free_argv_partial_def h_free_def owns_def hp_ok_def)
qed

text \<open>What a call leaves: nothing, unless a command with arguments is returned, which then has its blocks.\<close>

definition settled :: "nat set \<Rightarrow> heap_result \<Rightarrow> bool" where
  "settled rest x \<longleftrightarrow>
     (case x of
        (r, None, h) \<Rightarrow> hp_ok h \<and> hp_live h = rest \<and> (\<forall>argv n. r = RESP_PARSE_OK argv n \<longrightarrow> argv = [])
      | (r, Some (a, ds), h) \<Rightarrow> owns a ds rest h \<and> (\<exists>argv n. r = RESP_PARSE_OK argv n \<and> argv \<noteq> [] \<and> length ds = length argv))"

lemma fail_free_ok:
  assumes "owns a ds rest h" and "\<forall>argv n. st \<noteq> RESP_PARSE_OK argv n"
  shows "\<exists>x. fail_free st a ds h = Some x \<and> fst x = st \<and> settled rest x"
  using owns_free [OF assms(1)] assms(2) by (auto simp: fail_free_def settled_def)

section \<open>The parser settles its memory\<close>

lemma parse_bulks_heap_ok:
  assumes "parse_bulks mem buf left pos m argv = Some r" and "owns a ds rest h" and "length ds = length argv" and "argv \<noteq> [] \<or> 0 < left"
  shows "\<exists>x. parse_bulks_heap mem buf left pos m argv a ds h = Some x \<and> fst x = r \<and> settled rest x"
  using assms
proof (induction left arbitrary: pos m argv ds h)
  case 0
  then show ?case by (auto simp: settled_def)
next
  case (Suc left)
  let ?h = "snd (h_alloc h)" and ?ds = "ds @ [fst (h_alloc h)]"
  have fail: "\<exists>x. fail_free st a ds h = Some x \<and> fst x = st \<and> settled rest x" if "\<forall>argv n. st \<noteq> RESP_PARSE_OK argv n" for st
    by (rule fail_free_ok [OF Suc.prems(2) that])
  have rec: "\<exists>x. parse_bulks_heap mem buf left p (m + 1) (argv @ [d]) a ?ds ?h = Some x \<and> fst x = r \<and> settled rest x"
    if "parse_bulks mem buf left p (m + 1) (argv @ [d]) = Some r" for p d
    by (rule Suc.IH [OF that owns_alloc_data [OF Suc.prems(2)]]) (simp_all add: Suc.prems(3))
  show ?case
  proof (cases "find_crlf buf pos")
    case None
    then show ?thesis using Suc.prems(1) fail
      by (auto simp: parse_bulks.simps(2) parse_bulks_heap.simps(2) split: bind_splits if_splits)
  next
    case (Some hdr_end)
    from Suc.prems(1) Some obtain c where c: "rd buf pos = Some c" by (auto simp: parse_bulks.simps(2) split: bind_splits)
    show ?thesis
    proof (cases "c = CHR ''$''")
      case False
      then show ?thesis using Suc.prems(1) fail Some c by (auto simp: parse_bulks.simps(2) parse_bulks_heap.simps(2))
    next
      case True
      with Suc.prems(1) Some c obtain hlen hdr x where
        x: "size_sub hdr_end (pos + 1) = Some hlen" "rd_span buf (pos + 1) hlen = Some hdr" "parse_ll hdr = Some x"
        by (auto simp: parse_bulks.simps(2) split: bind_splits)
      show ?thesis
      proof (cases "\<exists>blen. x = Some blen \<and> 0 \<le> blen \<and> blen \<le> RESP_MAX_BULK_LEN")
        case False
        then have "x = None \<or> (\<exists>blen. x = Some blen \<and> (blen < 0 \<or> blen > RESP_MAX_BULK_LEN))" by (cases x) auto
        then show ?thesis using Suc.prems(1) fail Some c x \<open>c = _\<close> by (auto simp: parse_bulks.simps(2) parse_bulks_heap.simps(2))
      next
        case True
        then obtain blen where blen: "x = Some blen" "\<not> (blen < 0 \<or> blen > RESP_MAX_BULK_LEN)" by auto
        note facts = Some c x blen \<open>c = _\<close>
        show ?thesis
        proof (cases "length buf < hdr_end + 2 + nat blen + 2")
          case True
          then show ?thesis using Suc.prems(1) fail facts by (simp add: parse_bulks.simps(2) parse_bulks_heap.simps(2))
        next
          case False
          with Suc.prems(1) facts show ?thesis
            using fail rec
            by (auto simp: parse_bulks.simps(2) parse_bulks_heap.simps(2) Let_def split_beta split: bind_splits if_splits)
        qed
      qed
    qed
  qed
qed

lemma tokenize_heap_ok:
  assumes "tokenize mem buf line_len p cap m argv = Some t" and "owns a ds rest h" and "length ds = length argv"
  shows "\<exists>x. tokenize_heap mem buf line_len p cap m argv a ds h = Some x \<and>
    (case x of
       Inl h' \<Rightarrow> t = None \<and> hp_ok h' \<and> hp_live h' = rest
     | Inr (argv', a', ds', h') \<Rightarrow> t = Some argv' \<and> owns a' ds' rest h' \<and> length ds' = length argv')"
  using assms
proof (induction mem buf line_len p cap m argv arbitrary: a ds h rule: tokenize.induct)
  case (1 mem buf line_len p cap m argv)
  let ?start = "scan_while isspace buf line_len p"
  let ?p = "scan_while (\<lambda>c. \<not> isspace c) buf line_len ?start"
  let ?full = "length argv = cap"
  let ?cap = "if ?full then cap * 2 else cap" and ?m = "if ?full then m + 1 else m"
  note tok = tokenize.simps [of mem buf line_len p cap m argv] and tokh = tokenize_heap.simps [of mem buf line_len p cap m argv a ds h]
  have free: "\<exists>h'. map_option Inl (free_argv_partial a ds h) = Some (Inl h') \<and> hp_ok h' \<and> hp_live h' = rest" if "owns a ds rest h" for a ds h
    using owns_free [OF that] by auto
  show ?case
  proof (cases "p < line_len \<and> ?start < line_len")
    case False
    have "tokenize mem buf line_len p cap m argv = Some (Some argv)" unfolding tok using False by (auto simp: Let_def)
    moreover have "tokenize_heap mem buf line_len p cap m argv a ds h = Some (Inr (argv, a, ds, h))"
      unfolding tokh using False by (auto simp: Let_def)
    ultimately show ?thesis using "1.prems" by simp
  next
    case True
    then have p: "p < line_len" "\<not> ?start \<ge> line_len" by simp_all
    have "\<exists>g. (if ?full then h_realloc a h else Some (a, h)) = Some g \<and> owns (fst g) ds rest (snd g)"
      using owns_realloc [OF "1.prems"(2)] "1.prems"(2) by (cases ?full) simp_all
    then obtain g where g: "(if ?full then h_realloc a h else Some (a, h)) = Some g" "owns (fst g) ds rest (snd g)" by blast
    show ?thesis
    proof (cases "?full \<and> \<not> mem m")
      case True
      have "tokenize mem buf line_len p cap m argv = Some None" unfolding tok using True p by (simp add: Let_def)
      moreover have "tokenize_heap mem buf line_len p cap m argv a ds h = map_option Inl (free_argv_partial a ds h)"
        unfolding tokh using True p by (simp add: Let_def)
      ultimately show ?thesis using "1.prems"(1) free [OF "1.prems"(2)] by auto
    next
      case nf: False
      show ?thesis
      proof (cases "mem ?m")
        case False
        have "t = None" using "1.prems"(1) nf False p unfolding tok by (auto simp: Let_def split: if_splits)
        moreover have "tokenize_heap mem buf line_len p cap m argv a ds h = map_option Inl (free_argv_partial (fst g) ds (snd g))"
          unfolding tokh using nf False p g(1) by (auto simp: Let_def)
        ultimately show ?thesis using free [OF g(2)] by auto
      next
        case True
        with "1.prems"(1) nf p obtain data where
          d: "rd_span buf ?start (?p - ?start) = Some data" "tokenize mem buf line_len ?p ?cap (?m + 1) (argv @ [data]) = Some t"
          unfolding tok by (auto simp: Let_def split: bind_splits)
        let ?b = "h_alloc (snd g)"
        have "tokenize_heap mem buf line_len p cap m argv a ds h =
            tokenize_heap mem buf line_len ?p ?cap (?m + 1) (argv @ [data]) (fst g) (ds @ [fst ?b]) (snd ?b)"
          unfolding tokh using nf True p g(1) d(1) by (auto simp: Let_def)
        moreover note "1.IH" [OF p(1) refl p(2) refl refl refl refl refl nf _ d(1,2) owns_alloc_data [OF g(2)]]
        ultimately show ?thesis using True "1.prems"(3) by simp
      qed
    qed
  qed
qed


lemma parse_multibulk_heap_ok:
  assumes "parse_multibulk mem buf = Some r" and "hp_ok h"
  shows "\<exists>x. parse_multibulk_heap mem buf h = Some x \<and> fst x = r \<and> settled (hp_live h) x"
proof -
  have none: "settled (hp_live h) (st, None, h)" if "\<forall>argv n. st \<noteq> RESP_PARSE_OK argv n" for st
    using that assms(2) by (simp add: settled_def)
  have bulks: "\<exists>x. parse_bulks_heap mem buf n p 1 [] (fst (h_alloc h)) [] (snd (h_alloc h)) = Some x \<and> fst x = r \<and> settled (hp_live h) x"
    if "parse_bulks mem buf n p 1 [] = Some r" "0 < n" for n p
    by (rule parse_bulks_heap_ok [OF that(1) owns_alloc [OF assms(2)]]) (use that(2) in simp_all)
  show ?thesis
  proof (cases "find_crlf buf 0")
    case None
    then show ?thesis using assms(1) none by (auto simp: parse_multibulk_def parse_multibulk_heap_def split: if_splits)
  next
    case (Some line_end)
    with assms(1) obtain hlen hdr x where
      x: "size_sub line_end 1 = Some hlen" "rd_span buf 1 hlen = Some hdr" "parse_ll hdr = Some x"
      by (auto simp: parse_multibulk_def simp del: One_nat_def split: bind_splits)
    show ?thesis
    proof (cases "\<exists>argc. x = Some argc \<and> 0 < argc \<and> argc \<le> RESP_MAX_ARGC \<and> mem 0")
      case False
      then show ?thesis using assms(1) Some x none
        by (cases x) (auto simp: parse_multibulk_def parse_multibulk_heap_def simp del: One_nat_def)
    next
      case True
      then obtain argc where argc: "x = Some argc" "\<not> (argc \<le> 0 \<or> argc > RESP_MAX_ARGC)" "mem 0" by auto
      then show ?thesis using assms(1) Some x bulks [of "nat argc" "line_end + 2"]
        by (simp add: parse_multibulk_def parse_multibulk_heap_def split_beta Let_def del: One_nat_def)
    qed
  qed
qed

lemma parse_inline_heap_ok:
  assumes "parse_inline mem buf = Some r" and "hp_ok h"
  shows "\<exists>x. parse_inline_heap mem buf h = Some x \<and> fst x = r \<and> settled (hp_live h) x"
proof -
  let ?i = "scan_while (\<lambda>c. c \<noteq> LF) buf (length buf) 0"
  let ?n = "if ?i > 0 \<and> buf ! (?i - 1) = CR then ?i - 1 else ?i"
  let ?a = "fst (h_alloc h)" and ?h = "snd (h_alloc h)"
  have none: "settled (hp_live h) (st, None, h)" if "\<forall>argv n. st \<noteq> RESP_PARSE_OK argv n" for st
    using that assms(2) by (simp add: settled_def)
  show ?thesis
  proof (cases "?i < length buf \<and> mem 0")
    case False
    then show ?thesis using assms(1) none by (auto simp: parse_inline_def parse_inline_heap_def Let_def split: if_splits)
  next
    case True
    from assms(1) True obtain t where t: "tokenize mem buf ?n 0 8 1 [] = Some t"
      "r = (case t of None \<Rightarrow> RESP_PARSE_ERROR ''ERR out of memory'' | Some argv \<Rightarrow> RESP_PARSE_OK argv (?i + 1))"
      by (auto simp: parse_inline_def Let_def split: bind_splits option.splits)
    from tokenize_heap_ok [OF t(1) owns_alloc [OF assms(2)]] obtain x where
      x: "tokenize_heap mem buf ?n 0 8 1 [] ?a [] ?h = Some x"
        "case x of Inl h' \<Rightarrow> t = None \<and> hp_ok h' \<and> hp_live h' = hp_live h
         | Inr (argv', a', ds', h') \<Rightarrow> t = Some argv' \<and> owns a' ds' (hp_live h) h' \<and> length ds' = length argv'" by auto
    have run: "parse_inline_heap mem buf h =
        (case x of
           Inl h \<Rightarrow> Some (RESP_PARSE_ERROR ''ERR out of memory'', None, h)
         | Inr (argv, a, ds, h) \<Rightarrow>
             if argv \<noteq> [] then Some (RESP_PARSE_OK argv (?i + 1), Some (a, ds), h)
             else do { h \<leftarrow> h_free a h; Some (RESP_PARSE_OK argv (?i + 1), None, h) })"
      unfolding parse_inline_heap_def Let_def split_beta using True x(1) by simp
    show ?thesis
    proof (cases x)
      case (Inl h')
      then show ?thesis using run x(2) t(2) by (simp add: settled_def)
    next
      case (Inr y)
      obtain argv a ds h' where y: "y = (argv, a, ds, h')" by (cases y)
      with Inr x(2) have o: "t = Some argv" "owns a ds (hp_live h) h'" "length ds = length argv" by simp_all
      show ?thesis
      proof (cases "argv = []")
        case True
        with o have "owns a [] (hp_live h) h'" by simp
        from owns_free [OF this] have "\<exists>h2. h_free a h' = Some h2 \<and> hp_ok h2 \<and> hp_live h2 = hp_live h" by (simp add: free_argv_partial_def)
        then show ?thesis using run Inr y o t(2) True by (auto simp: settled_def)
      next
        case False
        then show ?thesis using run Inr y o t(2) by (simp add: settled_def)
      qed
    qed
  qed
qed

lemma resp_parse_heap_ok:
  assumes "hp_ok h"
  shows "\<exists>r blocks h'. resp_parse_heap mem buf h = Some (r, blocks, h') \<and> resp_parse mem buf = Some r \<and> settled (hp_live h) (r, blocks, h')"
proof -
  obtain r where r: "resp_parse mem buf = Some r" using resp.parse_defined by blast
  have "\<exists>x. resp_parse_heap mem buf h = Some x \<and> fst x = r \<and> settled (hp_live h) x"
    using r assms parse_multibulk_heap_ok [of mem buf r h] parse_inline_heap_ok [of mem buf r h]
    by (auto simp: resp_parse_def resp_parse_heap_def settled_def)
  then obtain x where x: "resp_parse_heap mem buf h = Some x" "fst x = r" "settled (hp_live h) x" by blast
  then show ?thesis using r by (cases x) auto
qed

lemma command_free_ok:
  assumes "settled rest (r, blocks, h)"
  shows "\<exists>h'. resp_command_free_heap blocks h = Some h' \<and> hp_ok h' \<and> hp_live h' = rest"
proof (cases blocks)
  case None
  then show ?thesis using assms by (simp add: settled_def resp_command_free_heap_def)
next
  case (Some b)
  obtain a ds where b: "b = (a, ds)" by (cases b)
  have "owns a ds rest h" using assms Some b by (simp add: settled_def)
  from owns_free [OF this] Some b show ?thesis by (simp add: resp_command_free_heap_def free_argv_partial_def)
qed

section \<open>Properties\<close>

text \<open>
  C11: the request parser neither leaks nor frees twice, for every input and every pattern of allocation
  failures: with its memory made explicit it returns what it returned before; on an error or an
  incomplete request every block it allocated has been freed; a command it returns holds one block
  per argument and one for the array, all new, and \<open>resp_command_free\<close> gives back exactly those.
\<close>

theorem parser_memory_balanced:
  assumes "hp_ok h"
  shows "\<exists>r blocks h' h''. resp_parse_heap mem buf h = Some (r, blocks, h') \<and> resp_parse mem buf = Some r \<and>
    (case blocks of
       None \<Rightarrow> hp_live h' = hp_live h
     | Some (a, ds) \<Rightarrow> (\<exists>argv n. r = RESP_PARSE_OK argv n \<and> length ds = length argv) \<and> distinct (a # ds) \<and>
         hp_live h \<inter> set (a # ds) = {} \<and> hp_live h' = hp_live h \<union> set (a # ds)) \<and>
    resp_command_free_heap blocks h' = Some h'' \<and> hp_live h'' = hp_live h"
proof -
  from resp_parse_heap_ok [OF assms, of mem buf] obtain r blocks h' where
    p: "resp_parse_heap mem buf h = Some (r, blocks, h')" "resp_parse mem buf = Some r" "settled (hp_live h) (r, blocks, h')" by blast
  from command_free_ok [OF p(3)] obtain h'' where f: "resp_command_free_heap blocks h' = Some h''" "hp_live h'' = hp_live h" by blast
  have "case blocks of
       None \<Rightarrow> hp_live h' = hp_live h
     | Some (a, ds) \<Rightarrow> (\<exists>argv n. r = RESP_PARSE_OK argv n \<and> length ds = length argv) \<and> distinct (a # ds) \<and>
         hp_live h \<inter> set (a # ds) = {} \<and> hp_live h' = hp_live h \<union> set (a # ds)"
    using p(3) by (auto simp: settled_def owns_def split: option.split)
  with p f show ?thesis by blast
qed

theorem parser_memory_balanced_witness:
  "\<exists>r blocks h' h''. resp_parse_heap (\<lambda>i. i \<noteq> 2) (''GET k'' @ crlf) \<lparr>hp_live = {4}, hp_next = 5\<rparr> = Some (r, blocks, h') \<and>
     resp_command_free_heap blocks h' = Some h'' \<and> hp_live h'' = {4}"
proof -
  have "hp_ok \<lparr>hp_live = {4}, hp_next = 5\<rparr>" by (simp add: hp_ok_def)
  from parser_memory_balanced [OF this, of "\<lambda>i. i \<noteq> 2" "''GET k'' @ crlf"] show ?thesis by (simp only: heap.simps) blast
qed

end
