(* ===== verification/Clock.thy ===== *)
theory Clock
  imports Cmd
begin

text \<open>
  The clock (\<open>now_ms\<close> of \<open>src/store.c\<close> and its copy in \<open>src/cmd.c\<close>): milliseconds from the seconds and nanoseconds
  that \<open>clock_gettime\<close> reports, in signed 64-bit arithmetic. It shows when the readings that the commands
  take from their environment are in the range that the properties of the commands ask for.
\<close>

record timespec =
  tv_sec :: int
  tv_nsec :: int

definition now_ms :: "timespec \<Rightarrow> int option" where
  "now_ms ts = do { ms \<leftarrow> i64 (tv_sec ts * 1000); i64 (ms + tv_nsec ts div 1000000) }"

definition cmd_now_ms :: "timespec \<Rightarrow> int option" where
  "cmd_now_ms ts = do { ms \<leftarrow> i64 (tv_sec ts * 1000); i64 (ms + tv_nsec ts div 1000000) }"

text \<open>A reading after the first second of 1970 and before the milliseconds run out, some 292 million years later.\<close>

definition timespec_ok :: "timespec \<Rightarrow> bool" where
  "timespec_ok ts \<longleftrightarrow> 1 \<le> tv_sec ts \<and> tv_sec ts \<le> 9223372036854774 \<and> 0 \<le> tv_nsec ts \<and> tv_nsec ts < 1000000000"

definition not_later :: "timespec \<Rightarrow> timespec \<Rightarrow> bool" where
  "not_later a b \<longleftrightarrow> tv_sec a < tv_sec b \<or> tv_sec a = tv_sec b \<and> tv_nsec a \<le> tv_nsec b"

lemma now_ms_value:
  assumes "timespec_ok ts"
  shows "now_ms ts = Some (tv_sec ts * 1000 + tv_nsec ts div 1000000)" "cmd_now_ms ts = now_ms ts"
proof -
  have "0 \<le> tv_nsec ts div 1000000" "tv_nsec ts div 1000000 \<le> 999" using assms by (auto simp: timespec_ok_def)
  then show "now_ms ts = Some (tv_sec ts * 1000 + tv_nsec ts div 1000000)" "cmd_now_ms ts = now_ms ts"
    using assms by (simp_all add: now_ms_def cmd_now_ms_def i64_def int64_defs timespec_ok_def)
qed

text \<open>
  C35: reading the clock does not overflow between 1970 and the year 292 million, both copies of the
  function agree, the readings are in the range that the commands rely on, and they do not
  decrease when the time that \<open>clock_gettime\<close> reports does not.
\<close>

theorem clock_in_range:
  assumes "\<forall>i. timespec_ok (ts i)"
  shows "(\<forall>i. \<exists>t. now_ms (ts i) = Some t \<and> cmd_now_ms (ts i) = Some t) \<and> env_ok (env\<lparr>ce_clk := (\<lambda>i. the (now_ms (ts i)))\<rparr>) \<and>
    (\<forall>i j. not_later (ts i) (ts j) \<longrightarrow> the (now_ms (ts i)) \<le> the (now_ms (ts j)))"
proof -
  have v: "now_ms (ts i) = Some (tv_sec (ts i) * 1000 + tv_nsec (ts i) div 1000000)" "cmd_now_ms (ts i) = now_ms (ts i)" for i
    using now_ms_value assms by simp_all
  have n: "0 \<le> tv_nsec (ts i) div 1000000" "tv_nsec (ts i) div 1000000 \<le> 999" "1 \<le> tv_sec (ts i)" "tv_sec (ts i) \<le> 9223372036854774" for i
    using assms [THEN spec, of i] by (auto simp: timespec_ok_def)
  have "the (now_ms (ts i)) \<le> the (now_ms (ts j))" if "not_later (ts i) (ts j)" for i j
    using that n [of i] n [of j] zdiv_mono1 [of "tv_nsec (ts i)" "tv_nsec (ts j)" 1000000] by (auto simp: v not_later_def)
  moreover have "1000 \<le> the (now_ms (ts i)) \<and> the (now_ms (ts i)) \<le> INT64_MAX" for i
    using n [of i] by (simp add: v(1) INT64_MAX_def)
  ultimately show ?thesis using v by (simp add: env_ok_def)
qed

theorem clock_in_range_witness:
  "now_ms \<lparr>tv_sec = 1700000000, tv_nsec = 999999999\<rparr> = Some 1700000000999 \<and>
   env_ok (demo_env\<lparr>ce_clk := (\<lambda>i. the (now_ms \<lparr>tv_sec = 1700000000, tv_nsec = 999999999\<rparr>))\<rparr>)"
proof -
  have ok: "\<forall>i. timespec_ok \<lparr>tv_sec = 1700000000, tv_nsec = 999999999\<rparr>" by (simp add: timespec_ok_def)
  then have "now_ms \<lparr>tv_sec = 1700000000, tv_nsec = 999999999\<rparr> = Some 1700000000999" using now_ms_value(1) by simp
  then show ?thesis using clock_in_range [OF ok, of demo_env] by simp
qed

end
