(* ===== verification/Spec2Isabelle.thy ===== *)
theory Spec2Isabelle
  imports Program Counters Resp_Heap Clock
begin

text \<open>
  A verification library of a Redis-compatible in-memory server written in C: the storage engine, the
  wire protocol, the snapshots, the commands and two servers, an event-driven and a threaded one.

  \<^bold>\<open>The program.\<close> It is layered. \<^verbatim>\<open>src/store.c\<close> is a chained hash table with incremental rehashing, lazy
  expiry and counters; \<^verbatim>\<open>src/resp.c\<close> parses requests out of a byte buffer that may end anywhere and
  appends replies to a growable buffer; \<^verbatim>\<open>src/persist.c\<close> writes the live entries of a store to a file,
  atomically, and loads them back; \<^verbatim>\<open>src/cmd.c\<close> has one handler per command, which calls the store and
  appends one reply; \<^verbatim>\<open>src/server.c\<close> multiplexes connections with \<open>epoll\<close>, and \<^verbatim>\<open>src/server_threaded.c\<close> hands
  accepted connections to a pool of workers through a bounded queue, with one mutex around each
  command. Both read from a socket into an input buffer, parse every complete request in it,
  dispatch it, and write the replies.

  \<^bold>\<open>Theories and sources.\<close>
  \<^item> \<open>Prelude\<close>, \<open>CLib\<close>: bytes, 64-bit integers, undefined behaviour as \<open>None\<close>, what is used of the C library
    (\<open>strtoll\<close>, \<open>snprintf\<close>, decimal printing, character classes), the doubling loop of the buffers.
  \<^item> \<open>Buf\<close>: the growable buffer that \<open>resp_buf_t\<close>, \<open>dyn_buf_t\<close>, \<open>conn_t\<close> and \<open>save_ctx_t\<close> have in common, with cells
    that are indeterminate until written; the locales \<open>byte_sink\<close> and \<open>byte_fifo\<close> that its clients use.
  \<^item> \<open>KV_Spec\<close>: the contract of \<^verbatim>\<open>include/store.h\<close> as the locale \<open>kv_store\<close> over finite maps with expiry times.
  \<^item> \<open>Store\<close> (\<^verbatim>\<open>src/store.c\<close>): \<open>store\<close>, \<open>store_table\<close>, \<open>store_entry\<close> and all operations, helpers included.
  \<^item> \<open>Resp\<close> (\<^verbatim>\<open>src/resp.c\<close>): \<open>resp_parse\<close> with its multibulk and inline halves, the reply functions; the locale
    \<open>request_parser\<close> says what a loop over a buffer relies on. \<open>Resp_Heap\<close> repeats the parser with every
    allocation and every \<open>free\<close> on a heap of blocks.
  \<^item> \<open>Persist\<close> (\<^verbatim>\<open>src/persist.c\<close>): \<open>persist_save\<close> with every intermediate state of the file system, \<open>persist_load\<close>.
  \<^item> \<open>Cmd\<close> (\<^verbatim>\<open>src/cmd.c\<close>): the 21 handlers, \<open>COMMAND_TABLE\<close>, \<open>cmd_dispatch\<close>, the children of \<open>BGSAVE\<close>.
  \<^item> \<open>Clock\<close>: the two copies of \<open>now_ms\<close>.
  \<^item> \<open>Cmd_Spec\<close>: what the commands mean, as steps on a finite map with one reply, and reply types; no code.
  \<^item> \<open>Session\<close>: what the servers share: outcomes of system calls as data, the reference \<open>serve\<close> for a
    stream of bytes, loading at the start and saving at the end.
  \<^item> \<open>Server\<close>, \<open>Server_Run\<close> (\<^verbatim>\<open>src/server.c\<close>): connections, connection table, handlers, event loop, \<open>main\<close>; the
    reachable states and whole conversations.
  \<^item> \<open>Work_Queue\<close>, \<open>Server_Threaded\<close>, \<open>Threads\<close> (\<^verbatim>\<open>src/server_threaded.c\<close>): the ring of descriptors with the locale
    \<open>bounded_queue\<close>, the pool as a step relation over all interleavings, \<open>handle_conn\<close>, and all
    connections together under a schedule of the critical sections.
  \<^item> \<open>Client_View\<close>, \<open>Counters\<close>: both servers against the specification of the commands. \<open>Program\<close>: both programs from
    the command line to the exit status, with the listening socket. This theory: the two servers agree.

  \<^bold>\<open>How the code is rendered.\<close> An operation that could have undefined behaviour (a read or write outside
  an object, an indeterminate byte, a signed overflow, closing a descriptor twice) returns an option and
  \<open>None\<close> means that it was reached, so its absence is a theorem. C structures are records, status codes
  datatypes, loops recursive functions with the condition and the body of the C loop. What the
  environment decides is an argument: readings of the clock, the outcome of each \<open>read\<close>, \<open>write\<close>, \<open>accept\<close>,
  \<open>epoll_ctl\<close>, \<open>fork\<close>, file operation, \<open>pthread_create\<close> and of the allocations that the code tests. A
  \<open>world\<close> gives the i-th command of a server its environment. A socket is the finite list of its
  outcomes; when it is used up, a non-blocking call would block and a blocking read meets the end
  of the stream, so no loop needs fuel. Loops over a buffer terminate because a parsed command
  consumes at least one byte. The threaded server's \<open>handle_conn\<close> takes what the other workers do to
  the shared state between two of its commands as a function of the state; \<open>Threads\<close> derives that
  function from a common schedule.

  \<^bold>\<open>What the theorems show.\<close>
  \<^item> Store: every operation implements the map it stands for, in the middle of a rehash too; the
    invariant holds in all reachable stores; the load factor stays at most one; a rehash ends within
    a bounded number of lookups and each step does bounded work; iteration visits each live key once.
  \<^item> Protocol: no input and no allocation failure makes the parser misbehave; encoded requests round-trip,
    each proper prefix is incomplete, splitting a stream does not matter; replies are self-delimiting; the
    parser's memory is balanced on every path.
  \<^item> Snapshots: saving then loading gives the live data; a crash at any point leaves the old file or the
    new one; a damaged byte is detected; a length that wraps is not.
  \<^item> Commands: \<open>cmd_dispatch\<close> refines the specification for every request, with exactly one reply of the right
    type; the requests with undefined behaviour are characterised exactly; a background save is a
    point-in-time copy.
  \<^item> Event-driven server: an invariant of all reachable states (table, descriptors, \<open>epoll\<close> interest, buffers
    agree; nothing complete waits unexecuted), no undefined behaviour besides the one of the commands,
    conservation of replies, agreement with the specification for every arrival in pieces, restarts.
  \<^item> Threaded server: the queue is a bounded first-in first-out queue, no connection or wake-up is lost, the
    shutdown ends, and the server is linearizable with respect to the specification: in particular
    concurrent increments are never lost, and what was executed survives a restart.
  \<^item> Deviations the proofs brought to light are theorems too: an expired key that is deleted counts as
    stored, a burst right before the end of a stream is dropped by the event-driven server, an
    explicit default port is ignored by the threaded one.

  \<^bold>\<open>Not modelled.\<close> Allocations that the code does not test succeed; those that end the process when they
  fail (the connection table of \<^verbatim>\<open>src/server.c\<close>) succeed as well. Counters of objects in memory are natural
  numbers, since they cannot reach \<open>2 ^ 64\<close>; lengths read from a file and hashes are 64-bit words. Messages
  on the standard streams, \<open>setsockopt\<close>, \<open>free\<close> (beyond the request parser and the entries a store destroys) and
  the destruction of mutexes have no counterpart. A signal is the point at which the event loop or the accept loop
  ends. \<open>pthread_mutex_t\<close> and the condition variables are the atomicity of the steps and the sleeping
  states of \<open>pool_step\<close>, with spurious wake-ups. The tests and the build files are not part of the model.
\<close>

section \<open>The two servers\<close>

text \<open>
  C16: the two servers agree: for the same pipeline, however its bytes are cut on either side, a worker of the threaded
  server with no other client sends exactly the bytes the event-driven server writes or still has
  pending, and both leave the same state behind.
\<close>

theorem servers_agree:
  assumes "world_ok w" and "\<forall>i. w_mem w i = (\<lambda>_. True)" and "server_inv s" and "conn_at s fd = Some c"
    and "\<not> closing c" and "gb_bytes (c_in c) = []" and "pending c = []" and "list_all request_ok reqs"
    and "concat (map fst xs) = concat (map enc_request reqs)" and "list_all (\<lambda>(d, ws). d \<noteq> [] \<and> list_all benign ws) xs"
    and "concat ds = concat (map enc_request reqs)" and "list_all (\<lambda>d. d \<noteq> []) ds" and "list_all steady ws"
    and "length (concat (map enc_request reqs)) \<le> MAX_INPUT_BUF" and "\<not> overflows w (sv_tick s) reqs"
  shows "\<exists>s' sent c'. feed w fd xs s = Some (s', sent) \<and> conn_at s' fd = Some c' \<and>
    handle_conn w (\<lambda>_ st. st) (map Rd ds) ws (sv_tick s) (sv_cmd s) = Some (sv_cmd s', sent @ pending c', sv_tick s + length reqs)"
proof -
  have mem: "\<And>i. w_mem w i = (\<lambda>_. True)" using assms(2) by blast
  have lim: "length (concat (map fst xs)) \<le> MAX_CONN_INPUT_BUF" "length (concat ds) \<le> MAX_INPUT_BUF"
    unfolding assms(9,11) using assms(14) by (simp_all add: MAX_CONN_INPUT_BUF_def MAX_INPUT_BUF_def)
  have inv: "cmd_inv (sv_cmd s)" using assms(3) by (simp add: server_inv_def)
  have "list_all (\<lambda>c. length c < 2 ^ 63) reqs" using assms(8) by (auto simp: list_all_iff request_ok_def resp_limits)
  note alone = exec_shared_alone [OF inv assms(1) this assms(15)]
  have "oth_ok (\<lambda>_ st. st)" by (simp add: oth_ok_def)
  from handle_conn_ok [OF assms(1) mem this inv assms(8,11,12) lim(2) assms(13,15)]
    feed_replies [OF assms(1) mem assms(3-10) lim(1) assms(15)] alone
  show ?thesis by auto
qed

theorem servers_agree_witness:
  "\<exists>s' sent c'. feed demo_world 5 [(take 3 (enc_request [''GET'', ''a'']), [Wr 1]), (drop 3 (enc_request [''GET'', ''a'']), [Wr 1, Wr 2])]
     demo_server = Some (s', sent) \<and> conn_at s' 5 = Some c' \<and>
     handle_conn demo_world (\<lambda>_ st. st) [Rd (enc_request [''GET'', ''a''])] [Wr_errno EINTR, Wr 1] 0 demo_state = Some (sv_cmd s', sent @ pending c', 1)"
proof -
  let ?r = "[''GET'', ''a'']"
  let ?xs = "[(take 3 (enc_request ?r), [Wr 1]), (drop 3 (enc_request ?r), [Wr 1, Wr 2])]"
  have len: "length (enc_request ?r) = 20"
    by (simp add: enc_request_def enc_bulk_def show_size_def show_nat.simps)
  have "\<not> arg_eq_ci ''GET'' ''SET''" "\<not> arg_eq_ci ''GET'' ''EXPIRE''" by code_simp+
  then have ov: "\<not> overflows demo_world (sv_tick demo_server) [?r]" by (simp add: ttl_overflow_def)
  have ok: "list_all request_ok [?r]" by (simp add: request_ok_def resp_limits)
  have xs: "list_all (\<lambda>(d, ws). d \<noteq> [] \<and> list_all benign ws) ?xs" using len by auto
  have ds: "list_all (\<lambda>d. d \<noteq> []) [enc_request ?r]" using len by auto
  from servers_agree [OF demo_world_ok _ demo_server_inv demo_conn_at(1) _ _ _ ok _ xs _ ds _ _ ov, of "[Wr_errno EINTR, Wr 1]"] len show ?thesis
    by (simp add: demo_conn_at demo_conn_def demo_world_def pending_def MAX_INPUT_BUF_def)
qed

end
